(* ===== verification/Kernel_Prelude.thy ===== *)
theory Kernel_Prelude
  imports Main "HOL-Library.Word" "HOL-Library.Monad_Syntax"
begin

unbundle bit_operations_syntax

text \<open>
  What every theory of the development shares: the fixed-width integer types of the kernel, the
  treatment of panics and of the \<open>expected\<close> result type, and the generic lemmas on
  options, lists, bits and words that the component proofs use.

  Two kinds of failure are told apart throughout, as in the source.
  \<^item> A kernel panic (an \<open>ASSERT\<close> or \<open>R_ASSERT\<close> that fails, an access outside an
    array) is the value \<^term>\<open>None\<close> of the option monad; the operations are composed with
    \<open>do\<close> notation, so that nothing runs after a panic.
  \<^item> An error the code returns (\<open>std::unexpected\<close>) is the left summand of an ordinary
    result \<open>Some (Inl e)\<close>; success is \<open>Some (Inr v)\<close>.
  The assertions are those of a debug build (\<open>kIsDebugBuild\<close>); a theorem that an operation
  returns \<open>Some\<close> shows that none of them fails, and then a release build computes the same.
\<close>

section \<open>Types\<close>

type_synonym u8 = "8 word"
type_synonym u16 = "16 word"
type_synonym u32 = "32 word"
type_synonym u64 = "64 word"

text \<open>The result of an operation that may panic, and that may return an error.\<close>

type_synonym ('e, 'a) expected = "'e + 'a"

named_theorems kernel_defs \<open>definitions that proofs unfold by default\<close>
named_theorems kernel_inv \<open>invariant preservation lemmas\<close>

section \<open>Panics\<close>

definition ASSERT :: "bool \<Rightarrow> unit option" where
  "ASSERT b = (if b then Some () else None)"

lemma ASSERT_True [simp]: "ASSERT True = Some ()"
  by (simp add: ASSERT_def)

lemma ASSERT_False [simp]: "ASSERT False = None"
  by (simp add: ASSERT_def)

lemma ASSERT_eq_Some [simp]: "ASSERT b = Some u \<longleftrightarrow> b"
  by (simp add: ASSERT_def)

lemma ASSERT_eq_None [simp]: "ASSERT b = None \<longleftrightarrow> \<not> b"
  by (simp add: ASSERT_def)

lemma ASSERT_bind: "(ASSERT b \<bind> f) = (if b then f () else None)"
  by (simp add: ASSERT_def)

lemma ASSERT_bind_Some [simp]: "(ASSERT b \<bind> f) = Some r \<longleftrightarrow> b \<and> f () = Some r"
  by (simp add: ASSERT_def)

lemma bind_SomeE:
  assumes "(m \<bind> f) = Some r"
  obtains x where "m = Some x" and "f x = Some r"
  using assms by (cases m) auto

text \<open>Array accesses: outside the array the program has no defined behaviour.\<close>

definition nth_opt :: "'a list \<Rightarrow> nat \<Rightarrow> 'a option" where
  "nth_opt xs i = (if i < length xs then Some (xs ! i) else None)"

definition upd_opt :: "'a list \<Rightarrow> nat \<Rightarrow> 'a \<Rightarrow> 'a list option" where
  "upd_opt xs i v = (if i < length xs then Some (xs[i := v]) else None)"

lemma nth_opt_Some [simp]: "i < length xs \<Longrightarrow> nth_opt xs i = Some (xs ! i)"
  by (simp add: nth_opt_def)

lemma upd_opt_Some [simp]: "i < length xs \<Longrightarrow> upd_opt xs i v = Some (xs[i := v])"
  by (simp add: upd_opt_def)

lemma nth_opt_eq_Some: "nth_opt xs i = Some v \<longleftrightarrow> i < length xs \<and> v = xs ! i"
  by (auto simp: nth_opt_def)

lemma upd_opt_eq_Some: "upd_opt xs i v = Some ys \<longleftrightarrow> i < length xs \<and> ys = xs[i := v]"
  by (auto simp: upd_opt_def)

text \<open>A loop over a list whose body may panic, and one whose body may also return an error.\<close>

fun foldM :: "('s \<Rightarrow> 'a \<Rightarrow> 's option) \<Rightarrow> 's \<Rightarrow> 'a list \<Rightarrow> 's option" where
  "foldM f s [] = Some s"
| "foldM f s (x # xs) = do { s' \<leftarrow> f s x; foldM f s' xs }"

fun foldE ::
  "('s \<Rightarrow> 'a \<Rightarrow> (('e, unit) expected \<times> 's) option) \<Rightarrow> 's \<Rightarrow> 'a list \<Rightarrow> (('e, unit) expected \<times> 's) option"
where
  "foldE f s [] = Some (Inr (), s)"
| "foldE f s (x # xs) = do {
     (r, s') \<leftarrow> f s x;
     case r of Inl e \<Rightarrow> Some (Inl e, s') | Inr _ \<Rightarrow> foldE f s' xs }"

lemma foldM_append: "foldM f s (xs @ ys) = do { s' \<leftarrow> foldM f s xs; foldM f s' ys }"
  by (induction xs arbitrary: s) auto

section \<open>Bits of words\<close>

lemma and_one_eq_bit: "(drop_bit k (w :: 'a::len word) AND 1 \<noteq> 0) = bit w k"
  by (simp add: and_one_eq bit_iff_odd_drop_bit odd_iff_mod_2_eq_one)

lemma bit_set_field:
  fixes w :: "'a::len word"
  assumes "k < LENGTH('a)"
  shows "bit ((w AND NOT (push_bit k 1)) OR push_bit k (if v then 1 else 0)) j =
    (if j = k then v else bit w j)"
  using assms
  by (auto simp: bit_simps bit_1_iff dest: bit_imp_le_length)

lemma unat_of_nat_u64: "n < 2 ^ 64 \<Longrightarrow> unat (of_nat n :: u64) = n"
  by (simp add: unat_of_nat)

end
