(* ===== verification/Linked_Lists.thy ===== *)
theory Linked_Lists
  imports Kernel_Prelude
begin

text \<open>
  Doubly linked lists in a heap, the reasoning that the intrusive lists, the wait queues and the
  free lists of the page allocator share. A heap is a pair of pointer fields \<open>nx\<close> and \<open>pv\<close>
  over an arbitrary type of nodes; a null pointer is \<^term>\<open>None\<close>.

  \<open>dll nx pv h p xs t q\<close>: starting at pointer \<open>h\<close>, whose predecessor is \<open>p\<close>, the
  \<open>next\<close> pointers run through the nodes \<open>xs\<close> and end at pointer \<open>t\<close>, each node's \<open>prev\<close>
  pointer is the node before it, and \<open>q\<close> is the last node (or \<open>p\<close> when there is none).
\<close>

fun dll ::
  "('a \<Rightarrow> 'a option) \<Rightarrow> ('a \<Rightarrow> 'a option) \<Rightarrow> 'a option \<Rightarrow> 'a option \<Rightarrow> 'a list \<Rightarrow>
   'a option \<Rightarrow> 'a option \<Rightarrow> bool" where
  "dll nx pv h p [] t q \<longleftrightarrow> h = t \<and> q = p"
| "dll nx pv h p (x # xs) t q \<longleftrightarrow> h = Some x \<and> pv x = p \<and> dll nx pv (nx x) (Some x) xs t q"

lemma dll_append:
  "dll nx pv h p (xs @ ys) t q \<longleftrightarrow> (\<exists>m r. dll nx pv h p xs m r \<and> dll nx pv m r ys t q)"
  by (induction xs arbitrary: h p) auto

lemma dll_upd_nx [simp]:
  "x \<notin> set xs \<Longrightarrow> dll (nx(x := v)) pv h p xs t q = dll nx pv h p xs t q"
  by (induction xs arbitrary: h p) auto

lemma dll_upd_pv [simp]:
  "x \<notin> set xs \<Longrightarrow> dll nx (pv(x := v)) h p xs t q = dll nx pv h p xs t q"
  by (induction xs arbitrary: h p) auto

lemma dll_cong:
  "(\<And>x. x \<in> set xs \<Longrightarrow> nx x = nx' x) \<Longrightarrow> (\<And>x. x \<in> set xs \<Longrightarrow> pv x = pv' x) \<Longrightarrow>
   dll nx pv h p xs t q = dll nx' pv' h p xs t q"
  by (induction xs arbitrary: h p) auto

lemma dll_head: "dll nx pv h p xs t q \<Longrightarrow> h = (case xs of [] \<Rightarrow> t | x # _ \<Rightarrow> Some x)"
  by (cases xs) auto

lemma dll_tail: "dll nx pv h p xs t q \<Longrightarrow> q = (if xs = [] then p else Some (last xs))"
  by (induction xs arbitrary: h p) auto

lemma dll_unique: "dll nx pv h p xs None q \<Longrightarrow> dll nx pv h p' ys None q' \<Longrightarrow> xs = ys"
proof (induction xs arbitrary: h p p' ys)
  case Nil
  then show ?case by (cases ys) auto
next
  case (Cons x xs)
  then obtain zs where "ys = x # zs" by (cases ys) auto
  with Cons show ?case by auto
qed

lemma dll_distinct: "dll nx pv h p xs None q \<Longrightarrow> distinct xs"
proof (induction xs arbitrary: h p)
  case Nil
  then show ?case by simp
next
  case (Cons x xs)
  then have tail: "dll nx pv (nx x) (Some x) xs None q" by simp
  have "x \<notin> set xs"
  proof
    assume "x \<in> set xs"
    then obtain as bs where xs: "xs = as @ x # bs" by (meson split_list)
    with tail have "dll nx pv (nx x) (Some x) bs None q" by (auto simp: dll_append)
    with tail have "xs = bs" by (rule dll_unique)
    with xs show False by simp
  qed
  with Cons.IH[OF tail] show ?case by simp
qed

lemma dll_last_next: "dll nx pv h p (xs @ [l]) t q \<Longrightarrow> nx l = t \<and> q = Some l"
  by (auto simp: dll_append)

text \<open>Redirecting the last \<open>next\<close> pointer and the first \<open>prev\<close> pointer.\<close>

lemma dll_relast:
  assumes "dll nx pv h p (xs @ [l]) t q" and "l \<notin> set xs"
  shows "dll (nx(l := t')) pv h p (xs @ [l]) t' q"
  using assms by (auto simp: dll_append)

lemma dll_refirst:
  assumes "dll nx pv h p (x # xs) t q" and "x \<notin> set xs"
  shows "dll nx (pv(x := p')) h p' (x # xs) t q"
  using assms by auto

section \<open>Insertion and removal\<close>

lemma dll_push_front:
  assumes "dll nx pv h None xs None q" and "x \<notin> set xs"
  shows "dll (nx(x := h)) ((case h of None \<Rightarrow> pv | Some y \<Rightarrow> pv(y := Some x))(x := None))
    (Some x) None (x # xs) None (if xs = [] then Some x else q)"
proof (cases xs)
  case Nil
  with assms show ?thesis by auto
next
  case (Cons y ys)
  with assms have h: "h = Some y" and "y \<noteq> x" by auto
  from dll_distinct[OF assms(1)] Cons have y: "y \<notin> set ys" by simp
  have "dll nx (pv(y := Some x)) h (Some x) (y # ys) None q"
    by (rule dll_refirst[OF _ y]) (use assms Cons in auto)
  with assms Cons h \<open>y \<noteq> x\<close> show ?thesis by simp
qed

lemma dll_push_back:
  assumes "dll nx pv h None xs None q" and "x \<notin> set xs"
  shows "dll ((case q of None \<Rightarrow> nx | Some l \<Rightarrow> nx(l := Some x))(x := None)) (pv(x := q))
    (if h = None then Some x else h) None (xs @ [x]) None (Some x)"
proof (cases xs rule: rev_cases)
  case Nil
  with assms show ?thesis by auto
next
  case (snoc ys l)
  from dll_distinct[OF assms(1)] snoc have l: "l \<notin> set ys" by auto
  from dll_last_next assms(1) snoc have q: "q = Some l" by fastforce
  from assms(2) snoc have "x \<noteq> l" "x \<notin> set ys" by auto
  have "dll (nx(l := Some x)) pv h None xs (Some x) q"
    using dll_relast[of nx pv h None ys l None q "Some x", OF _ l] assms(1) snoc by simp
  moreover from assms(1) snoc have "h \<noteq> None" by (cases ys) auto
  ultimately have "dll ((nx(l := Some x))(x := None)) (pv(x := q)) h None (xs @ [x]) None (Some x)"
    using assms(2) q by (subst dll_append) auto
  with \<open>h \<noteq> None\<close> q show ?thesis by auto
qed

text \<open>
  Unlinking a node: its predecessor's \<open>next\<close> and its successor's \<open>prev\<close> skip it, the head
  and tail pointers move past it where it was first or last, and its own pointers become null.
\<close>

definition unlink_nx :: "('a \<Rightarrow> 'a option) \<Rightarrow> ('a \<Rightarrow> 'a option) \<Rightarrow> 'a \<Rightarrow> 'a \<Rightarrow> 'a option" where
  "unlink_nx nx pv x = (case pv x of None \<Rightarrow> nx | Some l \<Rightarrow> nx(l := nx x))(x := None)"

definition unlink_pv :: "('a \<Rightarrow> 'a option) \<Rightarrow> ('a \<Rightarrow> 'a option) \<Rightarrow> 'a \<Rightarrow> 'a \<Rightarrow> 'a option" where
  "unlink_pv nx pv x = (case nx x of None \<Rightarrow> pv | Some f \<Rightarrow> pv(f := pv x))(x := None)"

lemma dll_unlink:
  assumes d: "dll nx pv h None (as @ x # bs) None q"
  shows "dll (unlink_nx nx pv x) (unlink_pv nx pv x)
    (if h = Some x then nx x else h) None (as @ bs) None (if q = Some x then pv x else q)"
proof -
  from dll_distinct[OF d] have x: "x \<notin> set as" "x \<notin> set bs" and dist: "distinct as" "distinct bs"
    and disj: "set as \<inter> set bs = {}" by auto
  from d obtain r where a: "dll nx pv h None as (Some x) r" and r: "pv x = r"
    and b: "dll nx pv (nx x) (Some x) bs None q" by (auto simp: dll_append)
  define nx1 where "nx1 = (case r of None \<Rightarrow> nx | Some l \<Rightarrow> nx(l := nx x))"
  define pv1 where "pv1 = (case nx x of None \<Rightarrow> pv | Some f \<Rightarrow> pv(f := r))"
  have first: "dll nx1 pv (if h = Some x then nx x else h) None as (nx x) r \<and> set as \<inter> set bs = {}"
  proof (cases as rule: rev_cases)
    case Nil
    with a show ?thesis by auto
  next
    case (snoc ys l)
    from a snoc have "r = Some l" using dll_last_next by fastforce
    moreover from dist snoc have "l \<notin> set ys" by auto
    moreover have "h \<noteq> Some x" using dll_head[OF a] x snoc by (cases ys) auto
    ultimately show ?thesis using dll_relast[of nx pv h None ys l "Some x" r "nx x"] a snoc disj
      by (simp add: nx1_def)
  qed
  have last: "dll nx pv1 (nx x) r bs None (if q = Some x then r else q)"
  proof (cases bs)
    case Nil
    with b show ?thesis by (auto simp: pv1_def)
  next
    case (Cons f zs)
    with b have "nx x = Some f" by simp
    moreover from dist Cons have "f \<notin> set zs" by simp
    moreover have "q \<noteq> Some x" using dll_tail[OF b] Cons x by auto
    ultimately show ?thesis using dll_refirst[of nx pv "nx x" "Some x" f zs None q r] b Cons
      by (simp add: pv1_def)
  qed
  have as1: "dll nx1 pv1 (if h = Some x then nx x else h) None as (nx x) r"
  proof (cases bs)
    case Nil
    with b first show ?thesis by (simp add: pv1_def)
  next
    case (Cons f zs)
    with b have "nx x = Some f" by simp
    moreover have "f \<notin> set as" using disj Cons by auto
    ultimately show ?thesis using first by (simp add: pv1_def)
  qed
  have bs1: "dll nx1 pv1 (nx x) r bs None (if q = Some x then r else q)"
  proof (cases as rule: rev_cases)
    case Nil
    with a last show ?thesis by (simp add: nx1_def)
  next
    case (snoc ys l)
    from a snoc have "r = Some l" using dll_last_next by fastforce
    moreover have "l \<notin> set bs" using disj snoc by auto
    ultimately show ?thesis using last by (simp add: nx1_def)
  qed
  have eqs: "unlink_nx nx pv x = nx1(x := None)" "unlink_pv nx pv x = pv1(x := None)"
    by (simp_all only: unlink_nx_def unlink_pv_def nx1_def pv1_def r)
  show ?thesis unfolding eqs r dll_append
    by (intro exI[of _ "nx x"] exI[of _ r]) (use as1 bs1 x in simp)
qed

lemma dll_neighbours:
  assumes "dll nx pv h None (as @ x # bs) None q"
  shows "pv x = Some l \<Longrightarrow> l \<in> set as" and "nx x = Some f \<Longrightarrow> f \<in> set bs"
proof -
  from assms obtain r where "dll nx pv h None as (Some x) r" "pv x = r"
    and "dll nx pv (nx x) (Some x) bs None q" by (auto simp: dll_append)
  then show "pv x = Some l \<Longrightarrow> l \<in> set as" and "nx x = Some f \<Longrightarrow> f \<in> set bs"
    using dll_tail[of nx pv h None as "Some x" r] dll_head[of nx pv "nx x" "Some x" bs None q]
    by (auto split: if_splits list.splits)
qed

lemma unlink_outside:
  assumes "dll nx pv h None (as @ x # bs) None q" and "y \<notin> set (as @ x # bs)"
  shows "unlink_nx nx pv x y = nx y" and "unlink_pv nx pv x y = pv y"
  using assms(2) dll_neighbours[OF assms(1)]
  by (auto simp: unlink_nx_def unlink_pv_def split: option.splits)

end
