(* ===== verification/Mem_Types.thy ===== *)
theory Mem_Types
  imports Kernel_Prelude
begin

text \<open>
  The types and address arithmetic the memory managers share: \<open>MemError\<close>
  (\<open>kernel/src/mem/error.hpp\<close>), page frames (\<open>kernel/src/mem/page.hpp\<close>), the direct map
  (\<open>kernel/src/mem/types.hpp\<close>), the address-space constants (\<open>kernel/src/constants.hpp\<close>) and the
  alignment functions (\<open>libs/libcpp/include/bits_ext.hpp\<close>). Addresses and sizes are 64-bit words,
  so that every sum wraps as it does on the machine.
\<close>

section \<open>Errors and constants\<close>

datatype MemError = OutOfMemory | InvalidArgument | NotFound

definition kPageSizeBytes :: u64 where "kPageSizeBytes = 4096"
definition kPageShift :: nat where "kPageShift = 12"

definition kUserSpaceStart :: u64 where "kUserSpaceStart = 0"
definition kUserSpaceEndInclusive :: u64 where "kUserSpaceEndInclusive = 0x00007FFFFFFFFFFF"
definition kUserSpaceEndExclusive :: u64 where
  "kUserSpaceEndExclusive = kUserSpaceEndInclusive + 1"
definition kKernelSpaceStart :: u64 where "kKernelSpaceStart = 0xFFFF800000000000"
definition kKernelSpaceEndInclusive :: u64 where "kKernelSpaceEndInclusive = 0xFFFFFFFFFFFFFFFF"

definition IsKernelSpace :: "u64 \<Rightarrow> bool" where
  "IsKernelSpace address \<longleftrightarrow> kKernelSpaceStart \<le> address"

text \<open>\<open>kDirectMapAddrStart = kBitMaskLeft<u64, 17>\<close>: the 17 high bits set.\<close>

definition kDirectMapAddrStart :: u64 where
  "kDirectMapAddrStart = push_bit (64 - 17) (NOT 0)"

definition PhysToVirt :: "u64 \<Rightarrow> u64" where
  "PhysToVirt physAddr = physAddr + kDirectMapAddrStart"

definition VirtToPhys :: "u64 \<Rightarrow> u64" where
  "VirtToPhys virtAddr =
     (if kDirectMapAddrStart \<le> virtAddr then virtAddr - kDirectMapAddrStart
      else virtAddr - kKernelSpaceStart)"

section \<open>Alignment\<close>

definition IsPowerOfTwo :: "'a::len word \<Rightarrow> bool" where
  "IsPowerOfTwo n \<longleftrightarrow> n > 0 \<and> (n AND (n - 1)) = 0"

definition IsAligned :: "u64 \<Rightarrow> u64 \<Rightarrow> bool" where
  "IsAligned num alignment =
     (if alignment \<le> 1 then True
      else if IsPowerOfTwo alignment then (num AND (alignment - 1)) = 0
      else num mod alignment = 0)"

definition AlignUp :: "u64 \<Rightarrow> u64 \<Rightarrow> u64" where
  "AlignUp num alignment =
     (if alignment \<le> 1 then num
      else if IsPowerOfTwo alignment then (num + alignment - 1) AND NOT (alignment - 1)
      else ((num + alignment - 1) div alignment) * alignment)"

definition AlignDown :: "u64 \<Rightarrow> u64 \<Rightarrow> u64" where
  "AlignDown num alignment =
     (if alignment \<le> 1 then num
      else if IsPowerOfTwo alignment then num AND NOT (alignment - 1)
      else (num div alignment) * alignment)"

section \<open>Page frames\<close>

text \<open>\<open>PageFrameAddr(size_t)\<close>, \<open>PageFrameAddr(PPtr<T>)\<close> and the two \<open>PageFrameNumber\<close>s.\<close>

definition PageFrameAddr :: "u64 \<Rightarrow> u64" where
  "PageFrameAddr pfn = pfn * kPageSizeBytes"

definition PageFrameAddr_ptr :: "u64 \<Rightarrow> u64" where
  "PageFrameAddr_ptr ptr = AlignDown ptr kPageSizeBytes"

definition PageFrameNumber :: "u64 \<Rightarrow> u64 option" where
  "PageFrameNumber page = do {
     ASSERT (IsAligned page kPageSizeBytes);
     Some (page div kPageSizeBytes) }"

definition PageFrameNumber_ptr :: "u64 \<Rightarrow> u64 option" where
  "PageFrameNumber_ptr ptr = PageFrameNumber (PageFrameAddr_ptr ptr)"

section \<open>Lemmas on page alignment\<close>

lemma IsPowerOfTwo_page: "IsPowerOfTwo kPageSizeBytes"
  by (simp add: IsPowerOfTwo_def kPageSizeBytes_def)

lemma page_gt_1: "\<not> kPageSizeBytes \<le> 1"
  by (simp add: kPageSizeBytes_def word_le_nat_alt)

lemma page_mask: "kPageSizeBytes - 1 = mask 12"
  by (simp add: kPageSizeBytes_def mask_eq_exp_minus_1)

lemma uint_page_size: "uint kPageSizeBytes = 4096" and unat_page_size: "unat kPageSizeBytes = 4096"
  by (simp_all add: kPageSizeBytes_def)

lemma and_page_mask: "w AND (kPageSizeBytes - 1) = w mod kPageSizeBytes"
proof -
  have "w AND mask 12 = take_bit 12 w" by (rule take_bit_eq_mask [symmetric])
  also have "\<dots> = w mod 2 ^ 12" by (simp add: take_bit_eq_mod)
  finally show ?thesis by (simp add: page_mask) (simp add: kPageSizeBytes_def)
qed

lemma IsAligned_page: "IsAligned w kPageSizeBytes \<longleftrightarrow> unat w mod 4096 = 0"
proof -
  have "IsAligned w kPageSizeBytes \<longleftrightarrow> w AND (kPageSizeBytes - 1) = 0"
    using IsPowerOfTwo_page page_gt_1 by (simp add: IsAligned_def)
  also have "\<dots> \<longleftrightarrow> w mod kPageSizeBytes = 0" by (simp add: and_page_mask)
  also have "\<dots> \<longleftrightarrow> unat (w mod kPageSizeBytes) = 0" by (simp only: word_unat_eq_iff unat_0)
  also have "\<dots> \<longleftrightarrow> unat w mod 4096 = 0" by (simp only: unat_mod unat_page_size)
  finally show ?thesis .
qed

lemma and_not_eq_minus_and: "(w :: 'a::len word) AND NOT m = w - (w AND m)"
proof -
  have "(w AND NOT m) + (w AND m) = (w AND NOT m) OR (w AND m)"
    by (rule disjunctive_add_eq_or) (rule bit_eqI, auto simp: bit_simps)
  also have "\<dots> = w"
    by (rule bit_eqI) (auto simp: bit_simps dest: bit_imp_le_length)
  finally show ?thesis by (simp add: eq_diff_eq)
qed

lemma AlignDown_page: "AlignDown w kPageSizeBytes = w - w mod kPageSizeBytes"
proof -
  have "AlignDown w kPageSizeBytes = w AND NOT (kPageSizeBytes - 1)"
    using IsPowerOfTwo_page page_gt_1 by (simp add: AlignDown_def)
  also have "\<dots> = w - (w AND (kPageSizeBytes - 1))"
    by (rule and_not_eq_minus_and)
  finally show ?thesis by (simp add: and_page_mask)
qed

lemma unat_AlignDown_page: "unat (AlignDown w kPageSizeBytes) = 4096 * (unat w div 4096)"
proof -
  have "w mod kPageSizeBytes \<le> w"
    by (simp add: word_le_nat_alt unat_mod)
  then have "unat (AlignDown w kPageSizeBytes) = unat w - unat w mod 4096"
    by (simp add: AlignDown_page unat_sub unat_mod unat_page_size)
  then show ?thesis by (simp add: minus_mod_eq_mult_div)
qed

lemma AlignUp_page: "AlignUp w kPageSizeBytes = AlignDown (w + 4095) kPageSizeBytes"
proof -
  have "w + kPageSizeBytes - 1 = w + 4095" by (simp add: kPageSizeBytes_def)
  then show ?thesis using IsPowerOfTwo_page page_gt_1
    by (simp only: AlignUp_def AlignDown_def if_True if_False)
qed

lemma unat_AlignUp_page:
  assumes "unat w + 4095 < 2 ^ 64"
  shows "unat (AlignUp w kPageSizeBytes) = 4096 * ((unat w + 4095) div 4096)"
proof -
  have "unat (w + 4095) = unat w + 4095"
    using assms by (simp add: unat_word_ariths)
  then show ?thesis by (simp add: AlignUp_page unat_AlignDown_page)
qed

lemma IsAligned_AlignDown_page: "IsAligned (AlignDown w kPageSizeBytes) kPageSizeBytes"
  by (simp add: IsAligned_page unat_AlignDown_page)

lemma unat_PageFrameAddr:
  assumes "unat pfn * 4096 < 2 ^ 64"
  shows "unat (PageFrameAddr pfn) = unat pfn * 4096"
  using assms by (simp add: PageFrameAddr_def unat_word_ariths unat_page_size)

lemma PageFrameNumber_PageFrameAddr:
  assumes "unat pfn * 4096 < 2 ^ 64"
  shows "PageFrameNumber (PageFrameAddr pfn) = Some pfn"
proof -
  have "unat (PageFrameAddr pfn div kPageSizeBytes) = unat pfn"
    by (simp only: unat_div unat_PageFrameAddr[OF assms] unat_page_size)
  then have "PageFrameAddr pfn div kPageSizeBytes = pfn" by (simp only: word_unat_eq_iff)
  moreover have "IsAligned (PageFrameAddr pfn) kPageSizeBytes"
    by (simp add: IsAligned_page unat_PageFrameAddr[OF assms])
  ultimately show ?thesis by (simp add: PageFrameNumber_def)
qed

end
