(* ===== verification/Page_Meta.thy ===== *)
theory Page_Meta
  imports Linked_Lists Mem_Types
begin

text \<open>
  The page metadata (\<open>kernel/src/mem/page_meta.hpp\<close>) and the table of it
  (\<open>kernel/src/mem/page_meta_table.hpp\<close>). A \<open>PageMeta*\<close> is the index of the entry in the
  table, which is the page frame number (the table is one array), and a null pointer is
  \<^term>\<open>None\<close>.

  The union \<open>data\<close> is kept as one group of fields per member that has content. Each reader asserts
  the tag first (\<open>AsBuddy\<close>, \<open>AsSlab\<close>, \<open>AsPageTable\<close>) and each \<open>Init\<close> writes every field of its
  member, so no field is read while the tag says that the storage holds another member.
\<close>

datatype PageMetaType = Buddy | Allocated | Slab | PageTable | Dummy

record page_meta =
  pm_buddy_next :: "nat option"
  pm_buddy_prev :: "nat option"
  pm_slab_next :: "nat option"
  pm_slab_prev :: "nat option"
  pm_slab_cache :: "nat option"
  pm_slab_freelist :: "u64 option"
  pm_slab_inuse :: u16
  pm_ref_count :: u16
  pm_type :: PageMetaType
  pm_order :: u8

definition InitBuddy :: "u8 \<Rightarrow> page_meta \<Rightarrow> page_meta" where
  "InitBuddy order m =
     m\<lparr>pm_type := Buddy, pm_order := order, pm_buddy_next := None, pm_buddy_prev := None\<rparr>"

definition InitSlab :: "u8 \<Rightarrow> nat option \<Rightarrow> u64 option \<Rightarrow> u16 \<Rightarrow> page_meta \<Rightarrow> page_meta" where
  "InitSlab order cache freelist inuse m =
     m\<lparr>pm_type := Slab, pm_order := order, pm_slab_next := None, pm_slab_prev := None,
       pm_slab_cache := cache, pm_slab_freelist := freelist, pm_slab_inuse := inuse\<rparr>"

definition InitAllocated :: "u8 \<Rightarrow> page_meta \<Rightarrow> page_meta" where
  "InitAllocated order m = m\<lparr>pm_type := Allocated, pm_order := order\<rparr>"

definition InitPageTable :: "u8 \<Rightarrow> page_meta \<Rightarrow> page_meta" where
  "InitPageTable order m = m\<lparr>pm_type := PageTable, pm_order := order, pm_ref_count := 0\<rparr>"

text \<open>The checked views of the union: they panic when the tag is another one.\<close>

definition AsBuddy :: "page_meta \<Rightarrow> unit option" where
  "AsBuddy m = ASSERT (pm_type m = Buddy)"

definition AsSlab :: "page_meta \<Rightarrow> unit option" where
  "AsSlab m = ASSERT (pm_type m = Slab)"

definition AsPageTable :: "page_meta \<Rightarrow> unit option" where
  "AsPageTable m = ASSERT (pm_type m = PageTable)"

text \<open>The table; \<open>num_page_frames_\<close> is its length.\<close>

type_synonym page_meta_table = "page_meta list"

definition TotalPages :: "page_meta_table \<Rightarrow> nat" where
  "TotalPages pmt = length pmt"

definition GetPageMeta :: "page_meta_table \<Rightarrow> nat \<Rightarrow> page_meta option" where
  "GetPageMeta pmt pfn = do { ASSERT (pfn < TotalPages pmt); Some (pmt ! pfn) }"

definition PutPageMeta :: "page_meta_table \<Rightarrow> nat \<Rightarrow> page_meta \<Rightarrow> page_meta_table option" where
  "PutPageMeta pmt pfn m = do { ASSERT (pfn < TotalPages pmt); Some (pmt[pfn := m]) }"

definition GetPageFrameNumber :: "page_meta_table \<Rightarrow> nat \<Rightarrow> nat option" where
  "GetPageFrameNumber pmt meta = do { ASSERT (meta < TotalPages pmt); Some meta }"

lemma GetPageMeta_Some [simp]: "i < length pmt \<Longrightarrow> GetPageMeta pmt i = Some (pmt ! i)"
  by (simp add: GetPageMeta_def TotalPages_def)

lemma PutPageMeta_Some [simp]: "i < length pmt \<Longrightarrow> PutPageMeta pmt i m = Some (pmt[i := m])"
  by (simp add: PutPageMeta_def TotalPages_def)

lemma GetPageFrameNumber_Some [simp]: "i < length pmt \<Longrightarrow> GetPageFrameNumber pmt i = Some i"
  by (simp add: GetPageFrameNumber_def TotalPages_def)

lemma InitBuddy_sel [simp]:
  "pm_type (InitBuddy k m) = Buddy" "pm_order (InitBuddy k m) = k"
  by (simp_all add: InitBuddy_def)

lemma InitAllocated_sel [simp]:
  "pm_type (InitAllocated k m) = Allocated" "pm_order (InitAllocated k m) = k"
  by (simp_all add: InitAllocated_def)

end
