(* ===== verification/Bit_Array.thy ===== *)
theory Bit_Array
  imports Kernel_Prelude
begin

text \<open>
  Bit maps over byte storage: \<open>data_structures::BitMapView\<close> of
  \<open>libs/libcontainers/include/data_structures/bit_array.hpp\<close>, with the same
  index arithmetic (\<open>index / 8\<close>, \<open>index % 8\<close>) on a list of bytes. The storage the view points
  to is part of the view's value here; a view owns no storage in the source, but no other
  component of the model writes it.

  The lemmas give the laws of an array of booleans, and the locale \<open>bit_store\<close> states them
  as the interface the page allocators rely on.
\<close>

section \<open>The view\<close>

record bitmap_view =
  bmv_storage :: "u8 list"
  bmv_num_bits :: nat

abbreviation (input) kStorageTBits :: nat where "kStorageTBits \<equiv> 8"

definition BitMapView_SetTrue :: "bitmap_view \<Rightarrow> nat \<Rightarrow> bitmap_view option" where
  "BitMapView_SetTrue v index = do {
     ASSERT (index < bmv_num_bits v);
     b \<leftarrow> nth_opt (bmv_storage v) (index div kStorageTBits);
     st \<leftarrow> upd_opt (bmv_storage v) (index div kStorageTBits)
            (b OR push_bit (index mod kStorageTBits) 1);
     Some (v\<lparr>bmv_storage := st\<rparr>) }"

definition BitMapView_SetFalse :: "bitmap_view \<Rightarrow> nat \<Rightarrow> bitmap_view option" where
  "BitMapView_SetFalse v index = do {
     ASSERT (index < bmv_num_bits v);
     b \<leftarrow> nth_opt (bmv_storage v) (index div kStorageTBits);
     st \<leftarrow> upd_opt (bmv_storage v) (index div kStorageTBits)
            (b AND NOT (push_bit (index mod kStorageTBits) 1));
     Some (v\<lparr>bmv_storage := st\<rparr>) }"

definition BitMapView_Set :: "bitmap_view \<Rightarrow> nat \<Rightarrow> bool \<Rightarrow> bitmap_view option" where
  "BitMapView_Set v index value = do {
     ASSERT (index < bmv_num_bits v);
     b \<leftarrow> nth_opt (bmv_storage v) (index div kStorageTBits);
     st \<leftarrow> upd_opt (bmv_storage v) (index div kStorageTBits)
            ((b AND NOT (push_bit (index mod kStorageTBits) 1)) OR
             push_bit (index mod kStorageTBits) (if value then 1 else 0));
     Some (v\<lparr>bmv_storage := st\<rparr>) }"

definition BitMapView_Get :: "bitmap_view \<Rightarrow> nat \<Rightarrow> bool option" where
  "BitMapView_Get v index = do {
     ASSERT (index < bmv_num_bits v);
     b \<leftarrow> nth_opt (bmv_storage v) (index div kStorageTBits);
     Some (drop_bit (index mod kStorageTBits) b AND 1 \<noteq> 0) }"

text \<open>\<open>memset\<close> of the whole storage: the number of bytes is rounded up.\<close>

definition BitMapView_SetAll :: "bitmap_view \<Rightarrow> bool \<Rightarrow> bitmap_view option" where
  "BitMapView_SetAll v value = (
     let numStorageT = (bmv_num_bits v + kStorageTBits - 1) div kStorageTBits
     in do {
       ASSERT (numStorageT \<le> length (bmv_storage v));
       Some (v\<lparr>bmv_storage := replicate numStorageT (if value then 0xFF else 0) @
                              drop numStorageT (bmv_storage v)\<rparr>) })"

definition BitMapView_Size :: "bitmap_view \<Rightarrow> nat" where
  "BitMapView_Size v = bmv_num_bits v"

section \<open>Well-formed views and the array laws\<close>

definition bmv_wf :: "bitmap_view \<Rightarrow> bool" where
  "bmv_wf v \<longleftrightarrow> bmv_num_bits v \<le> kStorageTBits * length (bmv_storage v)"

definition bmv_bit :: "bitmap_view \<Rightarrow> nat \<Rightarrow> bool" where
  "bmv_bit v i \<longleftrightarrow> bit (bmv_storage v ! (i div kStorageTBits)) (i mod kStorageTBits)"

lemma bmv_wf_index:
  assumes "bmv_wf v" and "i < bmv_num_bits v"
  shows "i div kStorageTBits < length (bmv_storage v)"
  using assms by (simp add: bmv_wf_def less_mult_imp_div_less mult.commute)

lemma BitMapView_Get_wf:
  assumes "bmv_wf v" and "i < bmv_num_bits v"
  shows "BitMapView_Get v i = Some (bmv_bit v i)"
  using assms bmv_wf_index[OF assms]
  by (simp add: BitMapView_Get_def bmv_bit_def and_one_eq_bit)

lemma BitMapView_Get_out_of_range:
  "bmv_num_bits v \<le> i \<Longrightarrow> BitMapView_Get v i = None"
  by (simp add: BitMapView_Get_def ASSERT_bind)

lemma BitMapView_Set_wf:
  assumes "bmv_wf v" and "i < bmv_num_bits v"
  obtains v' where "BitMapView_Set v i x = Some v'" and "bmv_wf v'"
    and "bmv_num_bits v' = bmv_num_bits v" and "bmv_bit v' = (bmv_bit v)(i := x)"
proof -
  have len: "i div 8 < length (bmv_storage v)" using bmv_wf_index[OF assms] .
  define b where "b = (bmv_storage v ! (i div 8) AND NOT (push_bit (i mod 8) 1)) OR
    push_bit (i mod 8) (if x then 1 else 0)"
  define v' where "v' = v\<lparr>bmv_storage := (bmv_storage v)[i div 8 := b]\<rparr>"
  have set: "BitMapView_Set v i x = Some v'"
    using assms len by (simp add: BitMapView_Set_def v'_def b_def)
  have b_bit: "bit b j = (if j = i mod 8 then x else bit (bmv_storage v ! (i div 8)) j)" for j
    unfolding b_def by (rule bit_set_field) simp
  have "bmv_bit v' j = ((bmv_bit v)(i := x)) j" for j
  proof (cases "j div 8 = i div 8")
    case True
    then have "j mod 8 = i mod 8 \<longleftrightarrow> j = i" by (metis div_mult_mod_eq)
    with True len show ?thesis by (auto simp: bmv_bit_def v'_def b_bit)
  next
    case False
    then show ?thesis by (auto simp: bmv_bit_def v'_def)
  qed
  then have "bmv_bit v' = (bmv_bit v)(i := x)" by blast
  moreover have "bmv_wf v'" using assms by (simp add: v'_def bmv_wf_def)
  ultimately show thesis using that[OF set] by (simp add: v'_def)
qed

lemma BitMapView_SetTrue_eq: "BitMapView_SetTrue v i = BitMapView_Set v i True"
proof -
  have "b OR push_bit (i mod 8) 1 = (b AND NOT (push_bit (i mod 8) 1)) OR push_bit (i mod 8) 1"
    for b :: u8
    by (rule bit_eqI) (auto simp: bit_simps)
  then show ?thesis
    by (cases "nth_opt (bmv_storage v) (i div 8)")
       (simp_all add: BitMapView_SetTrue_def BitMapView_Set_def ASSERT_bind)
qed

lemma BitMapView_SetFalse_eq: "BitMapView_SetFalse v i = BitMapView_Set v i False"
  by (simp add: BitMapView_SetFalse_def BitMapView_Set_def)

lemma BitMapView_SetAll_bit:
  assumes "bmv_wf v"
  obtains v' where "BitMapView_SetAll v x = Some v'" and "bmv_wf v'"
    and "bmv_num_bits v' = bmv_num_bits v" and "\<forall>i < bmv_num_bits v. bmv_bit v' i = x"
proof -
  define n where "n = (bmv_num_bits v + 8 - 1) div 8"
  define v' where "v' = v\<lparr>bmv_storage := replicate n (if x then 0xFF else 0) @
                              drop n (bmv_storage v)\<rparr>"
  have n: "n \<le> length (bmv_storage v)" using assms by (simp add: n_def bmv_wf_def)
  have set: "BitMapView_SetAll v x = Some v'"
    using n by (simp add: BitMapView_SetAll_def v'_def n_def Let_def)
  have "(0xFF :: u8) = mask 8" by (simp add: mask_eq_exp_minus_1)
  then have ff: "bit (0xFF :: u8) k" if "k < 8" for k
    using that by (simp only: bit_mask_iff) simp
  have "bmv_bit v' i = x" if "i < bmv_num_bits v" for i
  proof -
    have "i div 8 < n" using that by (simp add: n_def)
    then have "bmv_storage v' ! (i div 8) = (if x then 0xFF else 0)"
      by (simp add: v'_def nth_append)
    then show ?thesis using ff[of "i mod 8"] by (simp add: bmv_bit_def)
  qed
  moreover have "bmv_wf v'" using assms n by (simp add: v'_def bmv_wf_def)
  ultimately show thesis using that[OF set] by (simp add: v'_def)
qed

section \<open>The interface\<close>

text \<open>
  What a client of a bit map relies on: reads return what was last written at the index, writes
  leave the other indices and the size alone, and nothing in range panics.
\<close>

locale bit_store =
  fixes size_of :: "'v \<Rightarrow> nat"
    and get :: "'v \<Rightarrow> nat \<Rightarrow> bool option"
    and set_to :: "'v \<Rightarrow> nat \<Rightarrow> bool \<Rightarrow> 'v option"
    and wf :: "'v \<Rightarrow> bool"
    and bit_at :: "'v \<Rightarrow> nat \<Rightarrow> bool"
  assumes get_bit: "wf v \<Longrightarrow> i < size_of v \<Longrightarrow> get v i = Some (bit_at v i)"
    and set_bit: "wf v \<Longrightarrow> i < size_of v \<Longrightarrow>
      \<exists>v'. set_to v i x = Some v' \<and> wf v' \<and> size_of v' = size_of v \<and>
           bit_at v' = (bit_at v)(i := x)"
begin

lemma get_after_set:
  assumes "wf v" and "i < size_of v" and "j < size_of v" and "set_to v i x = Some v'"
  shows "get v' j = Some (if j = i then x else bit_at v j)"
  using assms set_bit[OF assms(1,2), of x] get_bit[of v' j] by auto

end

interpretation bmv: bit_store BitMapView_Size BitMapView_Get BitMapView_Set bmv_wf bmv_bit
  by unfold_locales
    (auto simp: BitMapView_Size_def BitMapView_Get_wf elim: BitMapView_Set_wf)

end
