(* ===== verification/Allocator_Spec.thy ===== *)
theory Allocator_Spec
  imports Mem_Types
begin

text \<open>
  The contract of a physical page allocator, as its clients (the page-meta table, the page fault
  handler, the heap, the page-table contexts) rely on it. It is stated once, as the locale
  \<open>page_allocator\<close>, and both allocators of the kernel are interpreted in it: the bitmap
  allocator in theory \<open>Bitmap_Pmm\<close> and the buddy allocator in theory \<open>Buddy_Pmm\<close>.

  A client is a sequence of requests: it allocates, and it frees blocks it holds.
  \<open>run_client\<close> executes such a sequence against any pair of operations, keeping the list of
  live blocks. The locale proves that the sequence never panics, that no page is ever part of
  two live blocks, and that no page is lost.
\<close>

section \<open>Clients\<close>

datatype 'r client_op = CAlloc 'r | CFree nat

fun run_client ::
  "('s \<Rightarrow> 'r \<Rightarrow> ((MemError, u64) expected \<times> 's) option) \<Rightarrow> ('s \<Rightarrow> u64 \<Rightarrow> 'r \<Rightarrow> 's option) \<Rightarrow>
   's \<times> (u64 \<times> 'r) list \<Rightarrow> 'r client_op list \<Rightarrow> ('s \<times> (u64 \<times> 'r) list) option" where
  "run_client al fr (s, live) [] = Some (s, live)"
| "run_client al fr (s, live) (CAlloc r # ops) = do {
     (res, s') \<leftarrow> al s r;
     run_client al fr (s', case res of Inl e \<Rightarrow> live | Inr a \<Rightarrow> (a, r) # live) ops }"
| "run_client al fr (s, live) (CFree k # ops) =
     (if k < length live
      then do {
        s' \<leftarrow> fr s (fst (live ! k)) (snd (live ! k));
        run_client al fr (s', take k live @ drop (Suc k) live) ops }
      else run_client al fr (s, live) ops)"

text \<open>The page frames of a block that starts at physical address \<open>a\<close>.\<close>

definition block_pages :: "nat \<Rightarrow> u64 \<Rightarrow> nat set" where
  "block_pages n a = {unat a div 4096 ..< unat a div 4096 + n}"

definition live_pages :: "('r \<Rightarrow> nat) \<Rightarrow> (u64 \<times> 'r) list \<Rightarrow> nat set" where
  "live_pages pages live = (\<Union>(a, r)\<in>set live. block_pages (pages r) a)"

fun live_disjoint :: "('r \<Rightarrow> nat) \<Rightarrow> (u64 \<times> 'r) list \<Rightarrow> bool" where
  "live_disjoint pages [] = True"
| "live_disjoint pages ((a, r) # live) =
     (block_pages (pages r) a \<inter> live_pages pages live = {} \<and> live_disjoint pages live)"

lemma live_pages_simps [simp]:
  "live_pages pages [] = {}"
  "live_pages pages ((a, r) # live) = block_pages (pages r) a \<union> live_pages pages live"
  "live_pages pages (xs @ ys) = live_pages pages xs \<union> live_pages pages ys"
  by (auto simp: live_pages_def)

lemma live_pages_disjoint:
  "A \<inter> live_pages pages live = {} \<longleftrightarrow>
     (\<forall>a r. (a, r) \<in> set live \<longrightarrow> A \<inter> block_pages (pages r) a = {})"
  unfolding live_pages_def by blast

lemma live_disjoint_append:
  "live_disjoint pages (xs @ ys) \<longleftrightarrow>
     live_disjoint pages xs \<and> live_disjoint pages ys \<and>
     live_pages pages xs \<inter> live_pages pages ys = {}"
  by (induction xs rule: live_disjoint.induct) auto

section \<open>The contract\<close>

text \<open>
  \<open>invar s live\<close> is the allocator's invariant relative to the blocks its clients hold;
  \<open>free_pages s\<close> are the page frames it may hand out.
\<close>

locale page_allocator =
  fixes alloc :: "'s \<Rightarrow> 'r \<Rightarrow> ((MemError, u64) expected \<times> 's) option"
    and free :: "'s \<Rightarrow> u64 \<Rightarrow> 'r \<Rightarrow> 's option"
    and pages :: "'r \<Rightarrow> nat"
    and invar :: "'s \<Rightarrow> (u64 \<times> 'r) list \<Rightarrow> bool"
    and free_pages :: "'s \<Rightarrow> nat set"
  assumes alloc_total: "invar s live \<Longrightarrow> alloc s r \<noteq> None"
    and alloc_error: "invar s live \<Longrightarrow> alloc s r = Some (Inl e, s') \<Longrightarrow> s' = s"
    and alloc_fresh: "invar s live \<Longrightarrow> alloc s r = Some (Inr a, s') \<Longrightarrow>
      block_pages (pages r) a \<subseteq> free_pages s \<and>
      free_pages s' = free_pages s - block_pages (pages r) a"
    and alloc_invar: "invar s live \<Longrightarrow> alloc s r = Some (Inr a, s') \<Longrightarrow> invar s' ((a, r) # live)"
    and free_total: "invar s (xs @ (a, r) # ys) \<Longrightarrow> free s a r \<noteq> None"
    and free_pages_free: "invar s (xs @ (a, r) # ys) \<Longrightarrow> free s a r = Some s' \<Longrightarrow>
      free_pages s' = free_pages s \<union> block_pages (pages r) a"
    and free_invar: "invar s (xs @ (a, r) # ys) \<Longrightarrow> free s a r = Some s' \<Longrightarrow> invar s' (xs @ ys)"
begin

text \<open>
  The client invariant: live blocks are pairwise disjoint and disjoint from the free pages, and
  together with the free pages they make up the same set \<open>P\<close> of pages all along.
\<close>

definition client_ok :: "nat set \<Rightarrow> 's \<times> (u64 \<times> 'r) list \<Rightarrow> bool" where
  "client_ok P = (\<lambda>(s, live). invar s live \<and> live_disjoint pages live \<and>
     free_pages s \<inter> live_pages pages live = {} \<and> free_pages s \<union> live_pages pages live = P)"

lemma client_ok_alloc:
  assumes "client_ok P (s, live)" and "alloc s r = Some (res, s')"
  shows "client_ok P (s', case res of Inl e \<Rightarrow> live | Inr a \<Rightarrow> (a, r) # live)"
proof (cases res)
  case (Inl e)
  with assms alloc_error[of s live r e s'] show ?thesis by (simp add: client_ok_def)
next
  case (Inr a)
  from assms have inv: "invar s live" by (simp add: client_ok_def)
  from alloc_fresh[OF inv, of r a s'] alloc_invar[OF inv, of r a s'] assms Inr
  show ?thesis by (auto simp: client_ok_def)
qed

lemma client_ok_free:
  assumes ok: "client_ok P (s, xs @ (a, r) # ys)" and fr: "free s a r = Some s'"
  shows "client_ok P (s', xs @ ys)"
proof -
  from ok have inv: "invar s (xs @ (a, r) # ys)" by (simp add: client_ok_def)
  from free_pages_free[OF inv fr] free_invar[OF inv fr] ok show ?thesis
    by (auto simp: client_ok_def live_disjoint_append)
qed

lemma run_client_ok:
  assumes "client_ok P (s, live)"
  shows "\<exists>s' live'. run_client alloc free (s, live) ops = Some (s', live') \<and>
           client_ok P (s', live')"
  using assms
proof (induction ops arbitrary: s live)
  case Nil
  then show ?case by simp
next
  case (Cons p ops)
  show ?case
  proof (cases p)
    case (CAlloc r)
    from Cons.prems alloc_total[of s live r] obtain res s'
      where al: "alloc s r = Some (res, s')" by (auto simp: client_ok_def)
    from Cons.IH[OF client_ok_alloc[OF Cons.prems al]] al CAlloc show ?thesis by simp
  next
    case (CFree k)
    show ?thesis
    proof (cases "k < length live")
      case False
      with Cons.IH[OF Cons.prems] CFree show ?thesis by simp
    next
      case True
      obtain a r where ar: "live ! k = (a, r)" by force
      with True have eq: "live = take k live @ (a, r) # drop (Suc k) live"
        by (metis id_take_nth_drop)
      with Cons.prems have ok: "client_ok P (s, take k live @ (a, r) # drop (Suc k) live)" by simp
      with free_total obtain s' where fr: "free s a r = Some s'"
        by (auto simp: client_ok_def) blast
      from Cons.IH[OF client_ok_free[OF ok fr]] fr ar True CFree show ?thesis by simp
    qed
  qed
qed

text \<open>
  The facts a client uses: starting with nothing held, no sequence of requests panics, live blocks
  never overlap, and the free and the live pages are exactly the pages that were free at the start.
\<close>

lemma run_client_safe:
  assumes "invar s []"
  shows "\<exists>s' live. run_client alloc free (s, []) ops = Some (s', live) \<and>
           live_disjoint pages live \<and> free_pages s' \<inter> live_pages pages live = {} \<and>
           free_pages s' \<union> live_pages pages live = free_pages s"
proof -
  from assms have "client_ok (free_pages s) (s, [])" by (simp add: client_ok_def)
  from run_client_ok[OF this, of ops] show ?thesis unfolding client_ok_def by auto
qed

end

end
