(* ===== verification/Bitmap_Pmm.thy ===== *)
theory Bitmap_Pmm
  imports Bit_Array Allocator_Spec
begin

text \<open>
  The bitmap page allocator, \<open>kernel/src/mem/phys/mngr/bitmap.cpp\<close> and \<open>bitmap.hpp\<close>: one bit per
  page frame (0 free, 1 allocated) and the start of the last allocation, below which the next
  search begins. Every operation of the class is a definition; page frame numbers are natural
  numbers (they index the bit map) and the requested size stays a 64-bit word, because the start of
  the second search is computed from it with wrap-around.
\<close>

section \<open>State and operations\<close>

record bitmap_pmm =
  bp_bitmap_view :: bitmap_view
  bp_last_alloc_idx :: nat

abbreviation (input) BitMapFree :: bool where "BitMapFree \<equiv> False"
abbreviation (input) BitMapAllocated :: bool where "BitMapAllocated \<equiv> True"

definition BitmapPmm_Init :: "bitmap_view \<Rightarrow> bitmap_pmm option" where
  "BitmapPmm_Init bmv = do {
     ASSERT (BitMapView_Size bmv > 0);
     Some \<lparr>bp_bitmap_view = bmv, bp_last_alloc_idx = BitMapView_Size bmv - 1\<rparr> }"

definition BitmapPmm_IsFree :: "bitmap_pmm \<Rightarrow> nat \<Rightarrow> bool option" where
  "BitmapPmm_IsFree p pfn = do {
     b \<leftarrow> BitMapView_Get (bp_bitmap_view p) pfn; Some (b = BitMapFree) }"

definition BitmapPmm_IsAllocated :: "bitmap_pmm \<Rightarrow> nat \<Rightarrow> bool option" where
  "BitmapPmm_IsAllocated p pfn = do {
     b \<leftarrow> BitMapView_Get (bp_bitmap_view p) pfn; Some (b = BitMapAllocated) }"

definition BitmapPmm_MarkAllocated :: "bitmap_pmm \<Rightarrow> nat \<Rightarrow> bitmap_pmm option" where
  "BitmapPmm_MarkAllocated p pfn = do {
     f \<leftarrow> BitmapPmm_IsFree p pfn;
     ASSERT f;
     v \<leftarrow> BitMapView_Set (bp_bitmap_view p) pfn BitMapAllocated;
     Some (p\<lparr>bp_bitmap_view := v\<rparr>) }"

text \<open>The loop of the range form of \<open>MarkAllocated\<close>, and that form with its assertion.\<close>

function BitmapPmm_MarkAllocated_loop :: "bitmap_pmm \<Rightarrow> nat \<Rightarrow> nat \<Rightarrow> bitmap_pmm option" where
  "BitmapPmm_MarkAllocated_loop p i end_range_pfn =
     (if i < end_range_pfn
      then do { p' \<leftarrow> BitmapPmm_MarkAllocated p i;
                BitmapPmm_MarkAllocated_loop p' (Suc i) end_range_pfn }
      else Some p)"
  by pat_completeness auto
termination by (relation "measure (\<lambda>(p, i, e). e - i)") auto

declare BitmapPmm_MarkAllocated_loop.simps [simp del]

definition BitmapPmm_MarkAllocated_range :: "bitmap_pmm \<Rightarrow> nat \<Rightarrow> nat \<Rightarrow> bitmap_pmm option" where
  "BitmapPmm_MarkAllocated_range p start_range_pfn end_range_pfn = do {
     ASSERT (start_range_pfn < end_range_pfn);
     BitmapPmm_MarkAllocated_loop p start_range_pfn end_range_pfn }"

definition BitmapPmm_MarkFree :: "bitmap_pmm \<Rightarrow> nat \<Rightarrow> bitmap_pmm option" where
  "BitmapPmm_MarkFree p pfn = do {
     a \<leftarrow> BitmapPmm_IsAllocated p pfn;
     ASSERT a;
     v \<leftarrow> BitMapView_Set (bp_bitmap_view p) pfn BitMapFree;
     Some (p\<lparr>bp_bitmap_view := v\<rparr>) }"

text \<open>
  The search runs downwards from the last page of the range, counting consecutive free pages.
  The loop test \<open>current_pfn-- > range_start_pfn\<close> compares before it decrements.
\<close>

fun FindContiguousBlock_loop ::
  "bitmap_pmm \<Rightarrow> nat \<Rightarrow> nat \<Rightarrow> nat \<Rightarrow> nat \<Rightarrow> (MemError, nat) expected option" where
  "FindContiguousBlock_loop p range_start_pfn num_pages current_pfn count = do {
     f \<leftarrow> BitmapPmm_IsFree p current_pfn;
     let count' = (if f then count + 1 else 0);
     if count' = num_pages then Some (Inr current_pfn)
     else if current_pfn > range_start_pfn
     then FindContiguousBlock_loop p range_start_pfn num_pages (current_pfn - 1) count'
     else Some (Inl OutOfMemory) }"

declare FindContiguousBlock_loop.simps [simp del]

definition FindContiguousBlock ::
  "bitmap_pmm \<Rightarrow> nat \<Rightarrow> nat \<Rightarrow> nat \<Rightarrow> (MemError, nat) expected option" where
  "FindContiguousBlock p range_start_pfn range_end_pfn num_pages = do {
     ASSERT (range_start_pfn < range_end_pfn);
     FindContiguousBlock_loop p range_start_pfn num_pages (range_end_pfn - 1) 0 }"

text \<open>
  \<open>Alloc\<close>: first below the last allocation, then from just under it to the end. The start of
  the second search is 64-bit arithmetic on the request.
\<close>

definition BitmapPmm_second_start :: "nat \<Rightarrow> u64 \<Rightarrow> nat" where
  "BitmapPmm_second_start last_idx num_pages =
     (let l = of_nat last_idx :: u64
      in unat (if l > num_pages + 1 then l - num_pages - 1 else 0))"

definition BitmapPmm_Alloc ::
  "bitmap_pmm \<Rightarrow> u64 \<Rightarrow> ((MemError, u64) expected \<times> bitmap_pmm) option" where
  "BitmapPmm_Alloc p num_pages =
     (if num_pages = 0 then Some (Inl InvalidArgument, p)
      else do {
        let total_pages = BitMapView_Size (bp_bitmap_view p);
        first \<leftarrow> (if bp_last_alloc_idx p \<noteq> 0
                 then FindContiguousBlock p 0 (bp_last_alloc_idx p) (unat num_pages)
                 else Some (Inl OutOfMemory));
        found \<leftarrow> (case first of
                   Inr s \<Rightarrow> Some (Inr s)
                 | Inl _ \<Rightarrow> FindContiguousBlock p
                     (BitmapPmm_second_start (bp_last_alloc_idx p) num_pages)
                     total_pages (unat num_pages));
        case found of
          Inl _ \<Rightarrow> Some (Inl OutOfMemory, p)
        | Inr start_pfn \<Rightarrow> do {
            p' \<leftarrow> BitmapPmm_MarkAllocated_range p start_pfn (start_pfn + unat num_pages);
            Some (Inr (PageFrameAddr (of_nat start_pfn)),
                  p'\<lparr>bp_last_alloc_idx := start_pfn\<rparr>) } })"

fun BitmapPmm_Free_loop :: "bitmap_pmm \<Rightarrow> nat \<Rightarrow> nat \<Rightarrow> bitmap_pmm option" where
  "BitmapPmm_Free_loop p pfn 0 = Some p"
| "BitmapPmm_Free_loop p pfn (Suc n) = do {
     p' \<leftarrow> BitmapPmm_MarkFree p pfn; BitmapPmm_Free_loop p' (Suc pfn) n }"

definition BitmapPmm_Free :: "bitmap_pmm \<Rightarrow> u64 \<Rightarrow> u64 \<Rightarrow> bitmap_pmm option" where
  "BitmapPmm_Free p page num_pages = do {
     pfn \<leftarrow> PageFrameNumber page;
     BitmapPmm_Free_loop p (unat pfn) (unat num_pages) }"

section \<open>Abstraction and invariant\<close>

definition bp_wf :: "bitmap_pmm \<Rightarrow> bool" where
  "bp_wf p \<longleftrightarrow> bmv_wf (bp_bitmap_view p) \<and> 0 < bmv_num_bits (bp_bitmap_view p) \<and>
     bmv_num_bits (bp_bitmap_view p) * 4096 \<le> 2 ^ 64 \<and>
     bp_last_alloc_idx p < bmv_num_bits (bp_bitmap_view p)"

definition bp_total :: "bitmap_pmm \<Rightarrow> nat" where
  "bp_total p = bmv_num_bits (bp_bitmap_view p)"

definition bp_free_pages :: "bitmap_pmm \<Rightarrow> nat set" where
  "bp_free_pages p = {i. i < bp_total p \<and> \<not> bmv_bit (bp_bitmap_view p) i}"

text \<open>A block of \<open>n\<close> free pages that starts at \<open>s\<close>.\<close>

definition free_run :: "bitmap_pmm \<Rightarrow> nat \<Rightarrow> nat \<Rightarrow> bool" where
  "free_run p s n \<longleftrightarrow> {s ..< s + n} \<subseteq> bp_free_pages p"

lemma IsFree_wf:
  "bp_wf p \<Longrightarrow> i < bp_total p \<Longrightarrow> BitmapPmm_IsFree p i = Some (i \<in> bp_free_pages p)"
  by (simp add: BitmapPmm_IsFree_def bp_wf_def bp_total_def bp_free_pages_def BitMapView_Get_wf)

lemma IsAllocated_wf:
  "bp_wf p \<Longrightarrow> i < bp_total p \<Longrightarrow> BitmapPmm_IsAllocated p i = Some (i \<notin> bp_free_pages p)"
  by (simp add: BitmapPmm_IsAllocated_def bp_wf_def bp_total_def bp_free_pages_def
      BitMapView_Get_wf)

lemma MarkAllocated_wf:
  assumes "bp_wf p" and "i \<in> bp_free_pages p"
  obtains p' where "BitmapPmm_MarkAllocated p i = Some p'" and "bp_wf p'"
    and "bp_total p' = bp_total p" and "bp_last_alloc_idx p' = bp_last_alloc_idx p"
    and "bp_free_pages p' = bp_free_pages p - {i}"
proof -
  from assms have i: "i < bmv_num_bits (bp_bitmap_view p)" and w: "bmv_wf (bp_bitmap_view p)"
    by (auto simp: bp_free_pages_def bp_total_def bp_wf_def)
  from BitMapView_Set_wf[OF w i, of True] obtain v where
    v: "BitMapView_Set (bp_bitmap_view p) i True = Some v" "bmv_wf v"
      "bmv_num_bits v = bmv_num_bits (bp_bitmap_view p)"
      "bmv_bit v = (bmv_bit (bp_bitmap_view p))(i := True)" by blast
  show thesis
  proof (rule that)
    show "BitmapPmm_MarkAllocated p i = Some (p\<lparr>bp_bitmap_view := v\<rparr>)"
      using assms i v by (simp add: BitmapPmm_MarkAllocated_def IsFree_wf bp_total_def)
  qed (use assms v in \<open>auto simp: bp_wf_def bp_total_def bp_free_pages_def\<close>)
qed

lemma MarkFree_wf:
  assumes "bp_wf p" and "i < bp_total p" and "i \<notin> bp_free_pages p"
  obtains p' where "BitmapPmm_MarkFree p i = Some p'" and "bp_wf p'"
    and "bp_total p' = bp_total p" and "bp_last_alloc_idx p' = bp_last_alloc_idx p"
    and "bp_free_pages p' = insert i (bp_free_pages p)"
proof -
  from assms have i: "i < bmv_num_bits (bp_bitmap_view p)" and w: "bmv_wf (bp_bitmap_view p)"
    by (auto simp: bp_total_def bp_wf_def)
  from BitMapView_Set_wf[OF w i, of False] obtain v where
    v: "BitMapView_Set (bp_bitmap_view p) i False = Some v" "bmv_wf v"
      "bmv_num_bits v = bmv_num_bits (bp_bitmap_view p)"
      "bmv_bit v = (bmv_bit (bp_bitmap_view p))(i := False)" by blast
  show thesis
  proof (rule that)
    show "BitmapPmm_MarkFree p i = Some (p\<lparr>bp_bitmap_view := v\<rparr>)"
      using assms v by (simp add: BitmapPmm_MarkFree_def IsAllocated_wf)
  qed (use assms v in \<open>auto simp: bp_wf_def bp_total_def bp_free_pages_def\<close>)
qed

section \<open>The loops\<close>

lemma MarkAllocated_loop_wf:
  assumes "bp_wf p" and "{i ..< e} \<subseteq> bp_free_pages p"
  shows "\<exists>p'. BitmapPmm_MarkAllocated_loop p i e = Some p' \<and> bp_wf p' \<and> bp_total p' = bp_total p \<and>
    bp_free_pages p' = bp_free_pages p - {i ..< e}"
  using assms
proof (induction "e - i" arbitrary: p i)
  case 0
  then show ?case by (simp add: BitmapPmm_MarkAllocated_loop.simps)
next
  case (Suc n)
  then have ie: "i < e" by simp
  with Suc.prems have "i \<in> bp_free_pages p" by auto
  from MarkAllocated_wf[OF Suc.prems(1) this] obtain p1 where
    p1: "BitmapPmm_MarkAllocated p i = Some p1" "bp_wf p1" "bp_total p1 = bp_total p"
      "bp_free_pages p1 = bp_free_pages p - {i}" by blast
  from Suc.prems p1 have "{Suc i ..< e} \<subseteq> bp_free_pages p1" by auto
  moreover have "n = e - Suc i" using Suc.hyps(2) by simp
  ultimately obtain p2 where
    p2: "BitmapPmm_MarkAllocated_loop p1 (Suc i) e = Some p2" "bp_wf p2" "bp_total p2 = bp_total p1"
      "bp_free_pages p2 = bp_free_pages p1 - {Suc i ..< e}"
    using Suc.hyps(1) p1(2) by blast
  have "bp_free_pages p2 = bp_free_pages p - insert i {Suc i ..< e}"
    by (simp only: p1(4) p2(4)) blast
  also have "insert i {Suc i ..< e} = {i ..< e}" using ie by auto
  finally have "bp_free_pages p2 = bp_free_pages p - {i ..< e}" .
  with p1 p2 ie show ?case
    by (simp add: BitmapPmm_MarkAllocated_loop.simps[of p i e])
qed

lemma Free_loop_wf:
  assumes "bp_wf p" and "i + n \<le> bp_total p" and "{i ..< i + n} \<inter> bp_free_pages p = {}"
  shows "\<exists>p'. BitmapPmm_Free_loop p i n = Some p' \<and> bp_wf p' \<and> bp_total p' = bp_total p \<and>
    bp_free_pages p' = bp_free_pages p \<union> {i ..< i + n}"
  using assms
proof (induction n arbitrary: p i)
  case 0
  then show ?case by simp
next
  case (Suc n)
  from Suc.prems(2) have "i < bp_total p" by simp
  moreover from Suc.prems(3) have "i \<notin> bp_free_pages p" by (simp add: disjoint_iff)
  ultimately have "i < bp_total p" "i \<notin> bp_free_pages p" .
  from MarkFree_wf[OF Suc.prems(1) this] obtain p1 where
    p1: "BitmapPmm_MarkFree p i = Some p1" "bp_wf p1" "bp_total p1 = bp_total p"
      "bp_free_pages p1 = insert i (bp_free_pages p)" by blast
  from Suc.prems have "Suc i + n \<le> bp_total p1" and "{Suc i ..< Suc i + n} \<inter> bp_free_pages p1 = {}"
    by (auto simp: p1(3,4) disjoint_iff)
  from Suc.IH[OF p1(2) this] obtain p2 where
    p2: "BitmapPmm_Free_loop p1 (Suc i) n = Some p2" "bp_wf p2" "bp_total p2 = bp_total p1"
      "bp_free_pages p2 = bp_free_pages p1 \<union> {Suc i ..< Suc i + n}" by blast
  have "bp_free_pages p2 = bp_free_pages p \<union> insert i {Suc i ..< Suc i + n}"
    by (simp only: p1(4) p2(4)) blast
  also have "insert i {Suc i ..< Suc i + n} = {i ..< i + Suc n}" by auto
  finally have "bp_free_pages p2 = bp_free_pages p \<union> {i ..< i + Suc n}" .
  with p1 p2 show ?case by simp
qed

text \<open>
  The search: \<open>count\<close> free pages have been seen right above \<open>current_pfn\<close>, fewer than
  asked for. It returns the start of a free run of the range, or reports that the range has none.
\<close>

lemma FindContiguousBlock_loop_total:
  assumes "bp_wf p" and "c < bp_total p"
  shows "\<exists>r. FindContiguousBlock_loop p lo n c k = Some r"
  using assms
proof (induction p lo n c k rule: FindContiguousBlock_loop.induct)
  case (1 p lo n c k)
  show ?case
  proof (cases "(if c \<in> bp_free_pages p then k + 1 else 0) \<noteq> n \<and> c > lo")
    case True
    with "1.IH"[of "c \<in> bp_free_pages p" "if c \<in> bp_free_pages p then k + 1 else 0"] "1.prems"
    show ?thesis by (subst FindContiguousBlock_loop.simps) (simp add: IsFree_wf Let_def)
  next
    case False
    with "1.prems" show ?thesis
      by (subst FindContiguousBlock_loop.simps) (auto simp: IsFree_wf Let_def)
  qed
qed

lemma FindContiguousBlock_loop_sound:
  assumes "bp_wf p" and "c < bp_total p" and "{c + 1 ..< c + 1 + k} \<subseteq> bp_free_pages p"
    and "lo \<le> c" and "0 < n" and "FindContiguousBlock_loop p lo n c k = Some (Inr s)"
  shows "free_run p s n \<and> lo \<le> s \<and> s + n \<le> c + 1 + k"
  using assms
proof (induction p lo n c k rule: FindContiguousBlock_loop.induct)
  case (1 p lo n c k)
  let ?k = "if c \<in> bp_free_pages p then k + 1 else 0"
  have run: "{c ..< c + ?k} \<subseteq> bp_free_pages p"
  proof (cases "c \<in> bp_free_pages p")
    case True
    then have "{c ..< c + ?k} = insert c {c + 1 ..< c + 1 + k}" by auto
    with True "1.prems"(3) show ?thesis by simp
  qed simp
  show ?case
  proof (cases "?k = n")
    case True
    with "1.prems" have "s = c" and "c \<in> bp_free_pages p"
      by (auto simp: FindContiguousBlock_loop.simps[of p lo n c k] IsFree_wf Let_def split: if_splits)
    with True run "1.prems"(4) show ?thesis by (auto simp: free_run_def)
  next
    case False
    with "1.prems" have c: "c > lo"
      and rec: "FindContiguousBlock_loop p lo n (c - 1) ?k = Some (Inr s)"
      by (auto simp: FindContiguousBlock_loop.simps[of p lo n c k] IsFree_wf Let_def split: if_splits)
    have "free_run p s n \<and> lo \<le> s \<and> s + n \<le> c - 1 + 1 + ?k"
      by (rule "1.IH"[OF IsFree_wf refl False c])
         (use "1.prems" run rec c in \<open>auto simp del: One_nat_def split: if_splits\<close>)
    with c show ?thesis by (auto split: if_splits)
  qed
qed

lemma FindContiguousBlock_loop_complete:
  assumes "bp_wf p" and "c < bp_total p" and "k < n"
    and "free_run p s n" and "lo \<le> s" and "s \<le> c" and "s + n \<le> c + 1 + k"
    and "FindContiguousBlock_loop p lo n c k = Some r"
  shows "\<exists>s'. r = Inr s'"
  using assms
proof (induction p lo n c k rule: FindContiguousBlock_loop.induct)
  case (1 p lo n c k)
  let ?k = "if c \<in> bp_free_pages p then k + 1 else 0"
  show ?case
  proof (cases "?k = n")
    case True
    with "1.prems" show ?thesis
      by (auto simp: FindContiguousBlock_loop.simps[of p lo n c k] IsFree_wf Let_def split: if_splits)
  next
    case False
    then have kn: "?k < n" using "1.prems"(3) by (auto split: if_splits)
    have sc: "s \<noteq> c"
    proof
      assume "s = c"
      with "1.prems"(3,4) have "c \<in> bp_free_pages p" by (auto simp: free_run_def)
      with False \<open>s = c\<close> "1.prems"(3,7) show False by auto
    qed
    with "1.prems"(5,6) have c: "c > lo" and sc1: "s \<le> c - 1" by auto
    have bound: "s + n \<le> c - 1 + 1 + ?k"
    proof (cases "c \<in> bp_free_pages p")
      case True
      with "1.prems"(7) c show ?thesis by simp
    next
      case notfree: False
      have "\<not> (s \<le> c \<and> c < s + n)"
        using notfree "1.prems"(4) by (auto simp: free_run_def)
      with "1.prems"(6) notfree c show ?thesis by simp
    qed
    from False c "1.prems" have rec: "FindContiguousBlock_loop p lo n (c - 1) ?k = Some r"
      by (auto simp: FindContiguousBlock_loop.simps[of p lo n c k] IsFree_wf Let_def split: if_splits)
    show ?thesis
      by (rule "1.IH"[OF IsFree_wf refl False c])
         (use "1.prems" kn sc1 bound rec c in \<open>auto simp del: One_nat_def\<close>)
  qed
qed

lemma Free_loop_panics:
  assumes "bp_wf p" and "i \<le> j" and "j < i + n" and "j \<in> bp_free_pages p \<or> bp_total p \<le> j"
  shows "BitmapPmm_Free_loop p i n = None"
  using assms
proof (induction n arbitrary: p i)
  case 0
  then show ?case by simp
next
  case (Suc n)
  show ?case
  proof (cases "i < bp_total p \<and> i \<notin> bp_free_pages p")
    case True
    with Suc.prems(1) obtain p1 where p1: "BitmapPmm_MarkFree p i = Some p1" "bp_wf p1"
      "bp_total p1 = bp_total p" "bp_free_pages p1 = insert i (bp_free_pages p)"
      using MarkFree_wf by blast
    from True Suc.prems have "Suc i \<le> j" by (cases "i = j") auto
    with Suc.IH[OF p1(2), of "Suc i"] Suc.prems p1 show ?thesis by auto
  next
    case False
    then have "BitmapPmm_MarkFree p i = None"
      using Suc.prems(1) IsAllocated_wf[of p i] BitMapView_Get_out_of_range[of "bp_bitmap_view p" i]
      by (cases "i < bp_total p")
         (auto simp: BitmapPmm_MarkFree_def BitmapPmm_IsAllocated_def bp_total_def ASSERT_bind)
    then show ?thesis by simp
  qed
qed

section \<open>The search and the allocation\<close>

lemma FindContiguousBlock_spec:
  assumes "bp_wf p" and "lo < hi" and "hi \<le> bp_total p" and "0 < n"
  obtains (found) s where "FindContiguousBlock p lo hi n = Some (Inr s)" and "free_run p s n"
      and "lo \<le> s" and "s + n \<le> hi"
  | (none) e where "FindContiguousBlock p lo hi n = Some (Inl e)"
      and "\<nexists>s. free_run p s n \<and> lo \<le> s \<and> s + n \<le> hi"
proof -
  have eq: "FindContiguousBlock p lo hi n = FindContiguousBlock_loop p lo n (hi - 1) 0"
    using assms by (simp add: FindContiguousBlock_def)
  from assms have c: "hi - 1 < bp_total p" by simp
  obtain r where r: "FindContiguousBlock_loop p lo n (hi - 1) 0 = Some r"
    using FindContiguousBlock_loop_total[OF assms(1) c] by blast
  show thesis
  proof (cases r)
    case (Inr s)
    have "free_run p s n \<and> lo \<le> s \<and> s + n \<le> hi - 1 + 1 + 0"
      by (rule FindContiguousBlock_loop_sound[OF assms(1) c]) (use assms r Inr in auto)
    with assms r Inr eq show thesis by (intro found) auto
  next
    case (Inl e)
    have "\<not> (free_run p s n \<and> lo \<le> s \<and> s + n \<le> hi)" for s
    proof
      assume s: "free_run p s n \<and> lo \<le> s \<and> s + n \<le> hi"
      have "\<exists>s'. r = Inr s'"
        by (rule FindContiguousBlock_loop_complete[OF assms(1) c assms(4)])
           (use assms s r in auto)
      with Inl show False by simp
    qed
    with r Inl eq show thesis by (intro none) auto
  qed
qed

lemma second_start_le: "l < 2 ^ 64 \<Longrightarrow> BitmapPmm_second_start l n \<le> l"
proof -
  assume l: "l < 2 ^ 64"
  then have u: "unat (of_nat l :: u64) = l" by (rule unat_of_nat_u64)
  show ?thesis
  proof (cases "(of_nat l :: u64) > n + 1")
    case True
    then have "of_nat l - (n + 1) \<le> (of_nat l :: u64)" by (simp add: word_sub_le)
    then have "unat (of_nat l - (n + 1) :: u64) \<le> l" by (metis u word_le_nat_alt)
    with True show ?thesis by (simp add: BitmapPmm_second_start_def Let_def diff_diff_eq)
  next
    case False
    then show ?thesis by (simp add: BitmapPmm_second_start_def Let_def)
  qed
qed

lemma second_start_eq:
  assumes "l < 2 ^ 64" and "unat n + 1 < 2 ^ 64"
  shows "BitmapPmm_second_start l n = l - (unat n + 1)"
proof -
  from assms(1) have u: "unat (of_nat l :: u64) = l" by (rule unat_of_nat_u64)
  from assms have n: "unat (n + 1) = unat n + 1" by (simp add: unat_word_ariths)
  show ?thesis
  proof (cases "(of_nat l :: u64) > n + 1")
    case True
    then have "unat (of_nat l - (n + 1) :: u64) = l - (unat n + 1)"
      by (simp add: unat_sub[OF less_imp_le] u n)
    with True show ?thesis by (simp add: BitmapPmm_second_start_def Let_def diff_diff_eq)
  next
    case False
    then have "l \<le> unat n + 1" by (simp add: word_less_nat_alt u n)
    with False show ?thesis by (simp add: BitmapPmm_second_start_def Let_def)
  qed
qed

lemma free_run_bound: "free_run p s n \<Longrightarrow> 0 < n \<Longrightarrow> s + n \<le> bp_total p"
proof -
  assume "free_run p s n" and "0 < n"
  then have "s + n - 1 \<in> bp_free_pages p" by (auto simp: free_run_def)
  with \<open>0 < n\<close> show ?thesis by (simp add: bp_free_pages_def) linarith
qed

lemma MarkAllocated_range_wf:
  assumes "bp_wf p" and "free_run p s n" and "0 < n"
  obtains p' where "BitmapPmm_MarkAllocated_range p s (s + n) = Some p'" and "bp_wf p'"
    and "bp_total p' = bp_total p" and "bp_free_pages p' = bp_free_pages p - {s ..< s + n}"
  using MarkAllocated_loop_wf[OF assms(1), of s "s + n"] assms
  by (auto simp: BitmapPmm_MarkAllocated_range_def free_run_def)

text \<open>The outcome of an allocation on every branch: the two searches together are complete.\<close>

lemma BitmapPmm_Alloc_cases:
  assumes wf: "bp_wf p"
  obtains (zero) "n = 0" and "BitmapPmm_Alloc p n = Some (Inl InvalidArgument, p)"
  | (oom) "n \<noteq> 0" and "\<nexists>s. free_run p s (unat n)"
      and "BitmapPmm_Alloc p n = Some (Inl OutOfMemory, p)"
  | (ok) s p' where "n \<noteq> 0" and "free_run p s (unat n)"
      and "BitmapPmm_Alloc p n = Some (Inr (PageFrameAddr (of_nat s)), p')"
      and "bp_wf p'" and "bp_total p' = bp_total p"
      and "bp_free_pages p' = bp_free_pages p - {s ..< s + unat n}"
      and "bp_last_alloc_idx p' = s"
proof (cases "n = 0")
  case True
  then show thesis by (intro zero) (auto simp: BitmapPmm_Alloc_def)
next
  case n0: False
  then have n: "0 < unat n" by (simp add: unat_gt_0)
  let ?l = "bp_last_alloc_idx p" and ?n = "unat n"
  let ?ss = "BitmapPmm_second_start ?l n"
  from wf have l: "?l < bp_total p" and total: "bp_total p * 4096 \<le> 2 ^ 64"
    by (auto simp: bp_wf_def bp_total_def)
  then have l64: "?l < 2 ^ 64" by linarith
  have ss: "?ss < bp_total p" using second_start_le[OF l64, of n] l by linarith
  have size: "BitMapView_Size (bp_bitmap_view p) = bp_total p"
    by (simp add: BitMapView_Size_def bp_total_def)
  define first where "first = (if ?l \<noteq> 0 then FindContiguousBlock p 0 ?l ?n
      else Some (Inl OutOfMemory))"
  define search where "search = (first \<bind> (\<lambda>f. case f of Inr s \<Rightarrow> Some (Inr s)
      | Inl _ \<Rightarrow> FindContiguousBlock p ?ss (bp_total p) ?n))"
  have alloc: "BitmapPmm_Alloc p n = search \<bind> (\<lambda>found. case found of
      Inl _ \<Rightarrow> Some (Inl OutOfMemory, p)
    | Inr s \<Rightarrow> do { p' \<leftarrow> BitmapPmm_MarkAllocated_range p s (s + ?n);
                   Some (Inr (PageFrameAddr (of_nat s)), p'\<lparr>bp_last_alloc_idx := s\<rparr>) })"
    using n0 by (simp add: BitmapPmm_Alloc_def search_def first_def size Let_def)
  have ok_case: thesis if "search = Some (Inr s)" and run: "free_run p s ?n" for s
  proof -
    obtain p' where p': "BitmapPmm_MarkAllocated_range p s (s + ?n) = Some p'" "bp_wf p'"
      "bp_total p' = bp_total p" "bp_free_pages p' = bp_free_pages p - {s ..< s + ?n}"
      using MarkAllocated_range_wf[OF wf run n] by blast
    have "s < bp_total p" using free_run_bound[OF run n] n by linarith
    with p' have "bp_wf (p'\<lparr>bp_last_alloc_idx := s\<rparr>)" by (simp add: bp_wf_def bp_total_def)
    with p' that n0 show thesis
      by (intro ok[of s "p'\<lparr>bp_last_alloc_idx := s\<rparr>"])
         (auto simp: alloc bp_total_def bp_free_pages_def)
  qed
  have second: thesis if first_none: "first = Some (Inl e)"
    and none: "\<nexists>s. free_run p s ?n \<and> s + ?n \<le> ?l" for e
  proof (rule FindContiguousBlock_spec[OF wf ss order.refl n])
    fix s assume "FindContiguousBlock p ?ss (bp_total p) ?n = Some (Inr s)" "free_run p s ?n"
    with first_none show thesis by (intro ok_case[of s]) (auto simp: search_def)
  next
    fix e' assume fail: "FindContiguousBlock p ?ss (bp_total p) ?n = Some (Inl e')"
      and no: "\<nexists>s. free_run p s ?n \<and> ?ss \<le> s \<and> s + ?n \<le> bp_total p"
    have "\<nexists>s. free_run p s ?n"
    proof
      assume "\<exists>s. free_run p s ?n"
      then obtain s where run: "free_run p s ?n" ..
      from free_run_bound[OF run n] have b: "s + ?n \<le> bp_total p" .
      with total have "?n + 1 < 2 ^ 64" by simp
      from second_start_eq[OF l64 this] none run have "?ss \<le> s" by force
      with no run b show False by blast
    qed
    with n0 fail first_none show thesis by (intro oom) (auto simp: alloc search_def)
  qed
  show thesis
  proof (cases "?l = 0")
    case True
    then show thesis by (intro second[of OutOfMemory]) (use n in \<open>auto simp: first_def\<close>)
  next
    case False
    then have "0 < ?l" by simp
    show thesis
    proof (rule FindContiguousBlock_spec[OF wf \<open>0 < ?l\<close> less_imp_le[OF l] n])
      fix s assume "FindContiguousBlock p 0 ?l ?n = Some (Inr s)" "free_run p s ?n"
      with False show thesis by (intro ok_case[of s]) (auto simp: search_def first_def)
    next
      fix e assume "FindContiguousBlock p 0 ?l ?n = Some (Inl e)"
        and "\<nexists>s. free_run p s ?n \<and> 0 \<le> s \<and> s + ?n \<le> ?l"
      with False show thesis by (intro second[of e]) (auto simp: first_def)
    qed
  qed
qed

section \<open>The allocator contract\<close>

definition bp_pages :: "u64 \<Rightarrow> nat" where
  "bp_pages n = unat n"

definition bp_invar :: "bitmap_pmm \<Rightarrow> (u64 \<times> u64) list \<Rightarrow> bool" where
  "bp_invar p live \<longleftrightarrow> bp_wf p \<and> live_disjoint bp_pages live \<and>
     (\<forall>a n. (a, n) \<in> set live \<longrightarrow> unat a mod 4096 = 0 \<and>
        unat a div 4096 + unat n \<le> bp_total p \<and> block_pages (unat n) a \<inter> bp_free_pages p = {})"

lemma block_pages_PageFrameAddr:
  "s * 4096 < 2 ^ 64 \<Longrightarrow> block_pages n (PageFrameAddr (of_nat s)) = {s ..< s + n}"
proof -
  assume s: "s * 4096 < 2 ^ 64"
  then have "s < 2 ^ 64" by linarith
  then have u: "unat (of_nat s :: u64) = s" by (rule unat_of_nat_u64)
  with s have "unat (PageFrameAddr (of_nat s)) = s * 4096"
    using unat_PageFrameAddr[of "of_nat s"] by simp
  then show ?thesis by (simp add: block_pages_def)
qed

lemma bp_block_start:
  assumes "bp_wf p" and "free_run p s (unat n)" and "n \<noteq> 0"
  shows "s + unat n \<le> bp_total p" and "s * 4096 < 2 ^ 64"
    and "unat (PageFrameAddr (of_nat s)) = s * 4096"
proof -
  from assms(3) have "0 < unat n" by (simp add: unat_gt_0)
  from free_run_bound[OF assms(2) this] show "s + unat n \<le> bp_total p" .
  with \<open>0 < unat n\<close> assms(1) show s: "s * 4096 < 2 ^ 64" by (simp add: bp_wf_def bp_total_def)
  then have "unat (of_nat s :: u64) = s" by (intro unat_of_nat_u64) linarith
  with s unat_PageFrameAddr[of "of_nat s"] show "unat (PageFrameAddr (of_nat s)) = s * 4096" by simp
qed

lemma bp_alloc_invar:
  assumes inv: "bp_invar p live" and al: "BitmapPmm_Alloc p n = Some (Inr a, p')"
  shows "block_pages (bp_pages n) a \<subseteq> bp_free_pages p"
    and "bp_free_pages p' = bp_free_pages p - block_pages (bp_pages n) a"
    and "bp_invar p' ((a, n) # live)"
proof -
  from inv have wf: "bp_wf p" by (simp add: bp_invar_def)
  obtain s where n0: "n \<noteq> 0" and run: "free_run p s (unat n)" and a: "a = PageFrameAddr (of_nat s)"
    and wf': "bp_wf p'" and tot: "bp_total p' = bp_total p"
    and fp: "bp_free_pages p' = bp_free_pages p - {s ..< s + unat n}"
    by (rule BitmapPmm_Alloc_cases[OF wf, of n]) (use al in auto)
  note start = bp_block_start[OF wf run n0]
  have blk: "block_pages (bp_pages n) a = {s ..< s + unat n}"
    by (simp add: a bp_pages_def block_pages_PageFrameAddr[OF start(2)])
  show sub: "block_pages (bp_pages n) a \<subseteq> bp_free_pages p" using run by (simp add: blk free_run_def)
  show fp': "bp_free_pages p' = bp_free_pages p - block_pages (bp_pages n) a" by (simp add: blk fp)
  have "block_pages (bp_pages n) a \<inter> live_pages bp_pages live = {}"
    using inv sub by (fastforce simp: bp_invar_def live_pages_def bp_pages_def)
  moreover have "block_pages (unat m) b \<inter> bp_free_pages p' = {}" if "(b, m) \<in> set live" for b m
    using that inv fp' unfolding bp_invar_def by blast
  moreover have "block_pages (unat n) a \<inter> bp_free_pages p' = {}"
    using fp' by (auto simp: bp_pages_def)
  ultimately show "bp_invar p' ((a, n) # live)"
    using inv wf' tot start by (auto simp: bp_invar_def a bp_pages_def)
qed

lemma bp_free_invar:
  assumes inv: "bp_invar p (xs @ (a, n) # ys)"
  obtains p' where "BitmapPmm_Free p a n = Some p'"
    and "bp_free_pages p' = bp_free_pages p \<union> block_pages (bp_pages n) a" and "bp_invar p' (xs @ ys)"
proof -
  let ?s = "unat a div 4096"
  from inv have wf: "bp_wf p" and al: "unat a mod 4096 = 0" and bnd: "?s + unat n \<le> bp_total p"
    and alloc: "{?s ..< ?s + unat n} \<inter> bp_free_pages p = {}"
    by (auto simp: bp_invar_def block_pages_def)
  have "unat (a div kPageSizeBytes) = ?s" by (simp only: unat_div unat_page_size)
  then have free: "BitmapPmm_Free p a n = BitmapPmm_Free_loop p ?s (unat n)"
    using al by (simp add: BitmapPmm_Free_def PageFrameNumber_def IsAligned_page)
  from Free_loop_wf[OF wf bnd alloc] obtain p' where
    p': "BitmapPmm_Free_loop p ?s (unat n) = Some p'" "bp_wf p'" "bp_total p' = bp_total p"
      "bp_free_pages p' = bp_free_pages p \<union> {?s ..< ?s + unat n}" by blast
  have disj: "block_pages (bp_pages n) a \<inter> live_pages bp_pages (xs @ ys) = {}"
    and "live_disjoint bp_pages (xs @ ys)"
    using inv by (auto simp: bp_invar_def live_disjoint_append)
  moreover have "block_pages (unat m) b \<inter> bp_free_pages p' = {}" if "(b, m) \<in> set (xs @ ys)" for b m
  proof -
    from that inv have "block_pages (unat m) b \<inter> bp_free_pages p = {}"
      unfolding bp_invar_def by fastforce
    moreover from that disj have "block_pages (unat m) b \<inter> block_pages (bp_pages n) a = {}"
      by (fastforce simp: live_pages_def bp_pages_def)
    ultimately show ?thesis by (auto simp: p'(4) block_pages_def bp_pages_def)
  qed
  ultimately have "bp_invar p' (xs @ ys)" using inv p'(2,3) by (auto simp: bp_invar_def)
  with p' free show thesis by (intro that) (auto simp: block_pages_def bp_pages_def)
qed

interpretation bitmap: page_allocator BitmapPmm_Alloc BitmapPmm_Free bp_pages bp_invar bp_free_pages
proof (unfold_locales, goal_cases)
  case (1 s live r)
  then have "bp_wf s" by (simp add: bp_invar_def)
  then show ?case by (rule BitmapPmm_Alloc_cases[of s r]) auto
next
  case (2 s live r e s')
  then have "bp_wf s" by (simp add: bp_invar_def)
  then show ?case by (rule BitmapPmm_Alloc_cases[of s r]) (use 2 in auto)
next
  case (3 s live r a s')
  then show ?case using bp_alloc_invar(1,2) by blast
next
  case (4 s live r a s')
  then show ?case using bp_alloc_invar(3) by blast
next
  case (5 s xs a r ys)
  then show ?case by (rule bp_free_invar) auto
next
  case (6 s xs a r ys s')
  then show ?case by (elim bp_free_invar) auto
next
  case (7 s xs a r ys s')
  then show ?case by (elim bp_free_invar) auto
qed

section \<open>Properties\<close>

text \<open>
  C4: on a well-formed allocator, \<open>Alloc(n)\<close> with \<open>n > 0\<close> never panics; it fails exactly when no
  \<open>n\<close> consecutive pages are free, leaving the state alone, and otherwise it returns the address of
  such a run, which is then marked allocated while every other page keeps its state. The two
  partial searches around the last allocation therefore miss nothing, whatever the 64-bit request.
\<close>

theorem BitmapPmm_Alloc_correct:
  assumes "bp_wf p" and "n \<noteq> 0"
  shows "if \<exists>s. free_run p s (unat n)
     then \<exists>s p'. BitmapPmm_Alloc p n = Some (Inr (PageFrameAddr (of_nat s)), p') \<and>
       free_run p s (unat n) \<and> bp_wf p' \<and> bp_total p' = bp_total p \<and>
       bp_free_pages p' = bp_free_pages p - {s ..< s + unat n}
     else BitmapPmm_Alloc p n = Some (Inl OutOfMemory, p)"
  using assms by (elim BitmapPmm_Alloc_cases[of p n]) auto

text \<open>
  C5: no sequence of allocations and frees of held blocks ever panics in the bitmap allocator; live
  blocks are pairwise disjoint at every moment, and the free pages together with the live ones are
  exactly the pages that were free at the start.
\<close>

theorem BitmapPmm_clients_disjoint:
  assumes "bp_wf p"
  shows "\<exists>p' live. run_client BitmapPmm_Alloc BitmapPmm_Free (p, []) ops = Some (p', live) \<and>
     live_disjoint bp_pages live \<and> bp_free_pages p' \<inter> live_pages bp_pages live = {} \<and>
     bp_free_pages p' \<union> live_pages bp_pages live = bp_free_pages p"
  by (rule bitmap.run_client_safe) (simp add: bp_invar_def assms)

text \<open>
  C6: freeing a block any page of which is already free panics (the double-free assertion of
  \<open>MarkFree\<close> is effective), as does freeing beyond the end of the bit map.
\<close>

theorem BitmapPmm_Free_double_free:
  assumes "bp_wf p" and "j \<in> block_pages (unat n) a"
    and "j \<in> bp_free_pages p \<or> bp_total p \<le> j"
  shows "BitmapPmm_Free p a n = None"
proof (cases "unat a mod 4096 = 0")
  case True
  have "unat (a div kPageSizeBytes) = unat a div 4096" by (simp only: unat_div unat_page_size)
  then have "BitmapPmm_Free p a n = BitmapPmm_Free_loop p (unat a div 4096) (unat n)"
    using True by (simp add: BitmapPmm_Free_def PageFrameNumber_def IsAligned_page)
  with Free_loop_panics[OF assms(1), of "unat a div 4096" j "unat n"] assms(2,3) show ?thesis
    by (simp add: block_pages_def)
qed (simp add: BitmapPmm_Free_def PageFrameNumber_def IsAligned_page ASSERT_bind)

section \<open>Witnesses\<close>

text \<open>Eight pages, the four low ones allocated; the last allocation was at page 3.\<close>

definition bp_example :: bitmap_pmm where
  "bp_example = \<lparr>bp_bitmap_view = \<lparr>bmv_storage = [0x0F], bmv_num_bits = 8\<rparr>,
                 bp_last_alloc_idx = 3\<rparr>"

lemma bp_example_wf: "bp_wf bp_example"
  by (simp add: bp_wf_def bp_example_def bmv_wf_def)

lemma bp_example_free: "bp_free_pages bp_example = {4, 5, 6, 7}"
proof -
  have "bp_free_pages bp_example = Set.filter (\<lambda>i. \<not> bmv_bit (bp_bitmap_view bp_example) i) {..<8}"
    by (auto simp: bp_free_pages_def bp_total_def bp_example_def)
  also have "\<dots> = set (filter (\<lambda>i. \<not> bmv_bit (bp_bitmap_view bp_example) i) [0..<8])"
    by auto
  also have "filter (\<lambda>i. \<not> bmv_bit (bp_bitmap_view bp_example) i) [0..<8] = [4, 5, 6, 7]"
    by code_simp
  finally show ?thesis by simp
qed

theorem BitmapPmm_Alloc_correct_witness:
  "bp_wf bp_example \<and> (2 :: u64) \<noteq> 0 \<and>
   (\<exists>s p'. BitmapPmm_Alloc bp_example 2 = Some (Inr (PageFrameAddr (of_nat s)), p') \<and>
      free_run bp_example s 2)"
proof -
  have "free_run bp_example 4 2" by (auto simp: free_run_def bp_example_free)
  then have "\<exists>s. free_run bp_example s (unat (2 :: u64))" by auto
  with BitmapPmm_Alloc_correct[OF bp_example_wf, of 2] bp_example_wf show ?thesis by auto
qed

theorem BitmapPmm_clients_disjoint_witness:
  "bp_wf bp_example \<and>
   (\<exists>p' live. run_client BitmapPmm_Alloc BitmapPmm_Free (bp_example, [])
        [CAlloc 2, CAlloc 1, CFree 1, CAlloc 3] = Some (p', live) \<and>
      live_disjoint bp_pages live \<and> bp_free_pages p' \<union> live_pages bp_pages live = {4, 5, 6, 7})"
  using BitmapPmm_clients_disjoint[OF bp_example_wf, of "[CAlloc 2, CAlloc 1, CFree 1, CAlloc 3]"]
    bp_example_wf
  by (auto simp: bp_example_free simp del: run_client.simps)

theorem BitmapPmm_Free_double_free_witness:
  "bp_wf bp_example \<and> 5 \<in> bp_free_pages bp_example \<and> BitmapPmm_Free bp_example 0x3000 4 = None"
proof -
  have "5 \<in> block_pages (unat (4 :: u64)) (0x3000 :: u64)" by (simp add: block_pages_def)
  with BitmapPmm_Free_double_free[OF bp_example_wf this] bp_example_wf show ?thesis
    by (simp add: bp_example_free)
qed

end
