(* ===== verification/Buddy_Pmm.thy ===== *)
theory Buddy_Pmm
  imports Page_Meta Bitmap_Pmm
begin

text \<open>
  The buddy allocator of physical pages, \<open>kernel/src/mem/phys/mngr/buddy.cpp\<close> and
  \<open>buddy.hpp\<close>. The state is the table of free list heads, one per order, and the table of page
  metadata, whose entries are the nodes of those doubly linked lists. Every pointer operation of
  the source is an operation on the table here, with the tag assertions of \<open>AsBuddy\<close>.

  The loop variables \<open>order\<close> and \<open>current_order\<close> (\<open>u8\<close>, at most 11) are natural numbers; the
  orders in the metadata are bytes. The spin lock that each public operation holds for its whole
  body makes the operations atomic, so they are state transformers.
\<close>

definition kMaxOrder :: nat where [simp]: "kMaxOrder = 10"

record buddy_pmm =
  bd_freelist_table :: "nat option list"
  bd_pmt :: page_meta_table

definition GetBuddyPfn :: "nat \<Rightarrow> nat \<Rightarrow> nat" where
  "GetBuddyPfn pfn order = pfn XOR push_bit order 1"

text \<open>\<open>sizeof(size_t) * 8 - std::countl_zero(w)\<close>: the number of bits up to the highest one.\<close>

definition countl_zero :: "u64 \<Rightarrow> nat" where
  "countl_zero w = length (takeWhile (\<lambda>i. \<not> bit w (63 - i)) [0..<64])"

definition SizeToPageOrder :: "u64 \<Rightarrow> u8" where
  "SizeToPageOrder size_bytes =
     (if size_bytes \<le> kPageSizeBytes then 0
      else of_nat (64 - countl_zero (drop_bit kPageShift (size_bytes - 1))))"

definition BuddyAreaSize :: "u8 \<Rightarrow> u64" where
  "BuddyAreaSize order = push_bit (unat order) kPageSizeBytes"

section \<open>The free lists\<close>

text \<open>\<open>if (p != nullptr) PageMeta::AsBuddy(*p).prev = v\<close>, and the same for \<open>next\<close>.\<close>

definition SetBuddyPrev :: "page_meta_table \<Rightarrow> nat option \<Rightarrow> nat option \<Rightarrow> page_meta_table option" where
  "SetBuddyPrev pmt p v = (case p of
     None \<Rightarrow> Some pmt
   | Some i \<Rightarrow> do {
       m \<leftarrow> GetPageMeta pmt i; AsBuddy m; PutPageMeta pmt i (m\<lparr>pm_buddy_prev := v\<rparr>) })"

definition SetBuddyNext :: "page_meta_table \<Rightarrow> nat option \<Rightarrow> nat option \<Rightarrow> page_meta_table option" where
  "SetBuddyNext pmt p v = (case p of
     None \<Rightarrow> Some pmt
   | Some i \<Rightarrow> do {
       m \<leftarrow> GetPageMeta pmt i; AsBuddy m; PutPageMeta pmt i (m\<lparr>pm_buddy_next := v\<rparr>) })"

definition BuddyPmm_ListRemove :: "buddy_pmm \<Rightarrow> nat \<Rightarrow> buddy_pmm option" where
  "BuddyPmm_ListRemove b meta = do {
     m \<leftarrow> GetPageMeta (bd_pmt b) meta;
     AsBuddy m;
     pmt1 \<leftarrow> SetBuddyPrev (bd_pmt b) (pm_buddy_next m) (pm_buddy_prev m);
     m1 \<leftarrow> GetPageMeta pmt1 meta;
     pmt2 \<leftarrow> SetBuddyNext pmt1 (pm_buddy_prev m1) (pm_buddy_next m1);
     m2 \<leftarrow> GetPageMeta pmt2 meta;
     head \<leftarrow> nth_opt (bd_freelist_table b) (unat (pm_order m2));
     table \<leftarrow> upd_opt (bd_freelist_table b) (unat (pm_order m2))
       (if head = Some meta then pm_buddy_next m2 else head);
     pmt3 \<leftarrow> PutPageMeta pmt2 meta (m2\<lparr>pm_buddy_next := None, pm_buddy_prev := None\<rparr>);
     Some \<lparr>bd_freelist_table = table, bd_pmt = pmt3\<rparr> }"

definition BuddyPmm_ListPush :: "buddy_pmm \<Rightarrow> nat \<Rightarrow> buddy_pmm option" where
  "BuddyPmm_ListPush b meta = do {
     m \<leftarrow> GetPageMeta (bd_pmt b) meta;
     head \<leftarrow> nth_opt (bd_freelist_table b) (unat (pm_order m));
     AsBuddy m;
     pmt1 \<leftarrow> PutPageMeta (bd_pmt b) meta (m\<lparr>pm_buddy_next := head\<rparr>);
     pmt2 \<leftarrow> SetBuddyPrev pmt1 head (Some meta);
     m2 \<leftarrow> GetPageMeta pmt2 meta;
     pmt3 \<leftarrow> PutPageMeta pmt2 meta (m2\<lparr>pm_buddy_prev := None\<rparr>);
     table \<leftarrow> upd_opt (bd_freelist_table b) (unat (pm_order m)) (Some meta);
     Some \<lparr>bd_freelist_table = table, bd_pmt = pmt3\<rparr> }"

section \<open>Splitting and merging\<close>

fun BuddyPmm_SplitBlock_loop :: "buddy_pmm \<Rightarrow> nat \<Rightarrow> nat \<Rightarrow> nat \<Rightarrow> buddy_pmm option" where
  "BuddyPmm_SplitBlock_loop b pfn target_order 0 = Some b"
| "BuddyPmm_SplitBlock_loop b pfn target_order (Suc lower_order) =
     (if target_order < Suc lower_order
      then do {
        let buddy_pfn = GetBuddyPfn pfn lower_order;
        buddy_meta \<leftarrow> GetPageMeta (bd_pmt b) buddy_pfn;
        pmt \<leftarrow> PutPageMeta (bd_pmt b) buddy_pfn (InitBuddy (of_nat lower_order) buddy_meta);
        b' \<leftarrow> BuddyPmm_ListPush (b\<lparr>bd_pmt := pmt\<rparr>) buddy_pfn;
        BuddyPmm_SplitBlock_loop b' pfn target_order lower_order }
      else Some b)"

definition BuddyPmm_SplitBlock :: "buddy_pmm \<Rightarrow> nat \<Rightarrow> u8 \<Rightarrow> (nat \<times> buddy_pmm) option" where
  "BuddyPmm_SplitBlock b block_to_split target_order = do {
     m \<leftarrow> GetPageMeta (bd_pmt b) block_to_split;
     let current_order = pm_order m;
     pfn \<leftarrow> GetPageFrameNumber (bd_pmt b) block_to_split;
     ASSERT (current_order > target_order);
     b' \<leftarrow> BuddyPmm_SplitBlock_loop b pfn (unat target_order) (unat current_order);
     final_block \<leftarrow> GetPageMeta (bd_pmt b') pfn;
     pmt \<leftarrow> PutPageMeta (bd_pmt b') pfn (final_block\<lparr>pm_order := target_order\<rparr>);
     Some (pfn, b'\<lparr>bd_pmt := pmt\<rparr>) }"

function BuddyPmm_MergeBlock_loop :: "buddy_pmm \<Rightarrow> nat \<Rightarrow> nat \<Rightarrow> (nat \<times> nat \<times> buddy_pmm) option" where
  "BuddyPmm_MergeBlock_loop b pfn order =
     (if order < kMaxOrder
      then (let buddy_pfn = GetBuddyPfn pfn order in
        if TotalPages (bd_pmt b) \<le> buddy_pfn then Some (pfn, order, b)
        else do {
          buddy_meta \<leftarrow> GetPageMeta (bd_pmt b) buddy_pfn;
          if pm_type buddy_meta = Buddy \<and> unat (pm_order buddy_meta) = order
          then do {
            b' \<leftarrow> BuddyPmm_ListRemove b buddy_pfn;
            m \<leftarrow> GetPageMeta (bd_pmt b') buddy_pfn;
            pmt \<leftarrow> PutPageMeta (bd_pmt b') buddy_pfn (m\<lparr>pm_type := Dummy\<rparr>);
            BuddyPmm_MergeBlock_loop (b'\<lparr>bd_pmt := pmt\<rparr>) (min pfn buddy_pfn) (order + 1) }
          else Some (pfn, order, b) })
      else Some (pfn, order, b))"
  by pat_completeness auto
termination
  by (relation "measure (\<lambda>(b, pfn, order). kMaxOrder - order)") auto

declare BuddyPmm_MergeBlock_loop.simps [simp del]

text \<open>The same equation in the form that evaluates: the recursive call under a case distinction.\<close>

lemma BuddyPmm_MergeBlock_loop_code [code]:
  "BuddyPmm_MergeBlock_loop b pfn order =
     (if order < kMaxOrder
      then (let buddy_pfn = GetBuddyPfn pfn order in
        if TotalPages (bd_pmt b) \<le> buddy_pfn then Some (pfn, order, b)
        else case GetPageMeta (bd_pmt b) buddy_pfn of None \<Rightarrow> None | Some buddy_meta \<Rightarrow>
          if pm_type buddy_meta = Buddy \<and> unat (pm_order buddy_meta) = order
          then case BuddyPmm_ListRemove b buddy_pfn of None \<Rightarrow> None | Some b' \<Rightarrow>
            (case GetPageMeta (bd_pmt b') buddy_pfn of None \<Rightarrow> None | Some m \<Rightarrow>
            (case PutPageMeta (bd_pmt b') buddy_pfn (m\<lparr>pm_type := Dummy\<rparr>) of None \<Rightarrow> None | Some pmt \<Rightarrow>
              BuddyPmm_MergeBlock_loop (b'\<lparr>bd_pmt := pmt\<rparr>) (min pfn buddy_pfn) (order + 1)))
          else Some (pfn, order, b))
      else Some (pfn, order, b))"
  by (subst BuddyPmm_MergeBlock_loop.simps) (simp add: Let_def split: option.split)

definition BuddyPmm_MergeBlock :: "buddy_pmm \<Rightarrow> nat \<Rightarrow> (nat \<times> buddy_pmm) option" where
  "BuddyPmm_MergeBlock b block_to_merge = do {
     m \<leftarrow> GetPageMeta (bd_pmt b) block_to_merge;
     start \<leftarrow> GetPageFrameNumber (bd_pmt b) block_to_merge;
     (pfn, order, b') \<leftarrow> BuddyPmm_MergeBlock_loop b start (unat (pm_order m));
     final_block \<leftarrow> GetPageMeta (bd_pmt b') pfn;
     pmt \<leftarrow> PutPageMeta (bd_pmt b') pfn (final_block\<lparr>pm_order := of_nat order\<rparr>);
     Some (pfn, b'\<lparr>bd_pmt := pmt\<rparr>) }"

section \<open>The public operations\<close>

definition BuddyPmm_Free :: "buddy_pmm \<Rightarrow> u64 \<Rightarrow> buddy_pmm option" where
  "BuddyPmm_Free b page = do {
     pfn64 \<leftarrow> PageFrameNumber page;
     let pfn = unat pfn64;
     meta \<leftarrow> GetPageMeta (bd_pmt b) pfn;
     ASSERT (pm_type meta = Allocated);
     (merged_block, b1) \<leftarrow> BuddyPmm_MergeBlock b pfn;
     m \<leftarrow> GetPageMeta (bd_pmt b1) merged_block;
     pmt \<leftarrow> PutPageMeta (bd_pmt b1) merged_block (InitBuddy (pm_order m) m);
     BuddyPmm_ListPush (b1\<lparr>bd_pmt := pmt\<rparr>) merged_block }"

text \<open>The search of \<open>Alloc\<close>, with \<open>n\<close> orders left to try from \<open>current_order\<close> on.\<close>

fun BuddyPmm_Alloc_loop ::
  "buddy_pmm \<Rightarrow> u8 \<Rightarrow> nat \<Rightarrow> nat \<Rightarrow> ((MemError, u64) expected \<times> buddy_pmm) option" where
  "BuddyPmm_Alloc_loop b order current_order 0 = Some (Inl OutOfMemory, b)"
| "BuddyPmm_Alloc_loop b order current_order (Suc n) = do {
     head \<leftarrow> nth_opt (bd_freelist_table b) current_order;
     case head of
       None \<Rightarrow> BuddyPmm_Alloc_loop b order (Suc current_order) n
     | Some block \<Rightarrow> do {
         b1 \<leftarrow> BuddyPmm_ListRemove b block;
         (block_to_alloc, b2) \<leftarrow> (if unat order < current_order
                                 then BuddyPmm_SplitBlock b1 block order
                                 else Some (block, b1));
         m \<leftarrow> GetPageMeta (bd_pmt b2) block_to_alloc;
         pmt \<leftarrow> PutPageMeta (bd_pmt b2) block_to_alloc (InitAllocated order m);
         pfn \<leftarrow> GetPageFrameNumber pmt block_to_alloc;
         Some (Inr (PageFrameAddr (of_nat pfn)), b2\<lparr>bd_pmt := pmt\<rparr>) } }"

definition BuddyPmm_Alloc ::
  "buddy_pmm \<Rightarrow> u8 \<Rightarrow> ((MemError, u64) expected \<times> buddy_pmm) option" where
  "BuddyPmm_Alloc b order =
     (if kMaxOrder < unat order then Some (Inl InvalidArgument, b)
      else BuddyPmm_Alloc_loop b order (unat order) (kMaxOrder + 1 - unat order))"

text \<open>\<open>Init\<close>: every page starts allocated, then the pages the bit map has free are freed.\<close>

fun BuddyPmm_Init_loop ::
  "bitmap_pmm \<Rightarrow> u64 \<Rightarrow> buddy_pmm \<Rightarrow> u64 \<Rightarrow> nat \<Rightarrow> nat \<Rightarrow> buddy_pmm option" where
  "BuddyPmm_Init_loop b_pmm page_limit b pages_freed i 0 = Some b"
| "BuddyPmm_Init_loop b_pmm page_limit b pages_freed i (Suc n) =
     (if pages_freed < page_limit
      then do {
        free \<leftarrow> BitmapPmm_IsFree b_pmm i;
        if free
        then do {
          b' \<leftarrow> BuddyPmm_Free b (PageFrameAddr (of_nat i));
          BuddyPmm_Init_loop b_pmm page_limit b' (pages_freed + 1) (Suc i) n }
        else BuddyPmm_Init_loop b_pmm page_limit b pages_freed (Suc i) n }
      else Some b)"

definition BuddyPmm_Init :: "bitmap_pmm \<Rightarrow> page_meta_table \<Rightarrow> u64 \<Rightarrow> buddy_pmm option" where
  "BuddyPmm_Init b_pmm pmt page_limit =
     BuddyPmm_Init_loop b_pmm page_limit
       \<lparr>bd_freelist_table = replicate (kMaxOrder + 1) None,
        bd_pmt = map (InitAllocated 0) pmt\<rparr> 0 0 (TotalPages pmt)"

section \<open>The lists in the metadata table\<close>

abbreviation nx :: "page_meta_table \<Rightarrow> nat \<Rightarrow> nat option" where
  "nx M \<equiv> \<lambda>i. pm_buddy_next (M ! i)"

abbreviation pv :: "page_meta_table \<Rightarrow> nat \<Rightarrow> nat option" where
  "pv M \<equiv> \<lambda>i. pm_buddy_prev (M ! i)"

abbreviation ty :: "page_meta_table \<Rightarrow> nat \<Rightarrow> PageMetaType" where
  "ty M \<equiv> \<lambda>i. pm_type (M ! i)"

abbreviation ord :: "page_meta_table \<Rightarrow> nat \<Rightarrow> nat" where
  "ord M \<equiv> \<lambda>i. unat (pm_order (M ! i))"

text \<open>
  \<open>lists_ok b F\<close>: the free lists are well-formed doubly linked lists, list \<open>k\<close> holding exactly the
  nodes of \<open>F\<close> whose order is \<open>k\<close>.
\<close>

definition lists_ok :: "buddy_pmm \<Rightarrow> nat set \<Rightarrow> bool" where
  "lists_ok b F \<longleftrightarrow> length (bd_freelist_table b) = 11 \<and>
     (\<forall>x. x \<in> F \<longrightarrow> x < length (bd_pmt b) \<and> ty (bd_pmt b) x = Buddy \<and> ord (bd_pmt b) x \<le> 10) \<and>
     (\<forall>k. k \<le> 10 \<longrightarrow> (\<exists>xs q. dll (nx (bd_pmt b)) (pv (bd_pmt b)) (bd_freelist_table b ! k) None xs None q \<and>
        set xs = {x \<in> F. ord (bd_pmt b) x = k}))"

text \<open>Two tables that agree on everything but the list pointers.\<close>

definition same_shape :: "page_meta_table \<Rightarrow> page_meta_table \<Rightarrow> bool" where
  "same_shape M M' \<longleftrightarrow> length M' = length M \<and> ty M' = ty M \<and> ord M' = ord M"

lemma same_shape_refl [simp]: "same_shape M M"
  by (simp add: same_shape_def)

lemma nx_upd: "i < length M \<Longrightarrow> nx (M[i := m]) = (nx M)(i := pm_buddy_next m)"
  by (auto simp: nth_list_update)

lemma pv_upd: "i < length M \<Longrightarrow> pv (M[i := m]) = (pv M)(i := pm_buddy_prev m)"
  by (auto simp: nth_list_update)

lemma ty_upd: "i < length M \<Longrightarrow> ty (M[i := m]) = (ty M)(i := pm_type m)"
  by (auto simp: nth_list_update)

lemma ord_upd: "i < length M \<Longrightarrow> ord (M[i := m]) = (ord M)(i := unat (pm_order m))"
  by (auto simp: nth_list_update)

lemmas meta_upd = nx_upd pv_upd ty_upd ord_upd

lemma prev_upd:
  assumes "i < length M"
  shows "ty (M[i := (M ! i)\<lparr>pm_buddy_prev := v\<rparr>]) = ty M"
    and "ord (M[i := (M ! i)\<lparr>pm_buddy_prev := v\<rparr>]) = ord M"
    and "nx (M[i := (M ! i)\<lparr>pm_buddy_prev := v\<rparr>]) = nx M"
    and "pv (M[i := (M ! i)\<lparr>pm_buddy_prev := v\<rparr>]) = (pv M)(i := v)"
  using assms by (auto simp: nth_list_update)

lemma next_upd:
  assumes "i < length M"
  shows "ty (M[i := (M ! i)\<lparr>pm_buddy_next := v\<rparr>]) = ty M"
    and "ord (M[i := (M ! i)\<lparr>pm_buddy_next := v\<rparr>]) = ord M"
    and "nx (M[i := (M ! i)\<lparr>pm_buddy_next := v\<rparr>]) = (nx M)(i := v)"
    and "pv (M[i := (M ! i)\<lparr>pm_buddy_next := v\<rparr>]) = pv M"
  using assms by (auto simp: nth_list_update)

lemma ListRemove_effect:
  assumes d: "dll (nx M) (pv M) (T ! k) None (as @ x # bs) None q"
    and nodes: "\<And>y. y \<in> set (as @ x # bs) \<Longrightarrow> y < length M \<and> ty M y = Buddy"
    and k: "ord M x = k" "k < length T"
  obtains M' where
    "BuddyPmm_ListRemove \<lparr>bd_freelist_table = T, bd_pmt = M\<rparr> x =
       Some \<lparr>bd_freelist_table = T[k := if T ! k = Some x then nx M x else T ! k], bd_pmt = M'\<rparr>"
    and "same_shape M M'" and "nx M' = unlink_nx (nx M) (pv M) x"
    and "pv M' = unlink_pv (nx M) (pv M) x"
proof -
  note nb = dll_neighbours[OF d]
  have x: "x < length M" "ty M x = Buddy" using nodes[of x] by auto
  define M1 where "M1 = (case nx M x of None \<Rightarrow> M | Some f \<Rightarrow> M[f := (M ! f)\<lparr>pm_buddy_prev := pv M x\<rparr>])"
  define M2 where "M2 = (case pv M x of None \<Rightarrow> M1 | Some l \<Rightarrow> M1[l := (M1 ! l)\<lparr>pm_buddy_next := nx M x\<rparr>])"
  define M3 where "M3 = M2[x := (M2 ! x)\<lparr>pm_buddy_next := None, pm_buddy_prev := None\<rparr>]"
  from dll_distinct[OF d] have dist: "x \<notin> set as" "x \<notin> set bs" "set as \<inter> set bs = {}" by auto
  have next_ok: "f < length M \<and> ty M f = Buddy \<and> f \<noteq> x" if "nx M x = Some f" for f
    using nb(2)[OF that] nodes[of f] dist by auto
  have prev_ok: "l < length M \<and> ty M l = Buddy \<and> l \<noteq> x" if "pv M x = Some l" for l
    using nb(1)[OF that] nodes[of l] dist by auto
  have M1: "length M1 = length M" "M1 ! x = M ! x" "ty M1 = ty M" "ord M1 = ord M" "nx M1 = nx M"
    "pv M1 = (case nx M x of None \<Rightarrow> pv M | Some f \<Rightarrow> (pv M)(f := pv M x))"
    unfolding M1_def using next_ok by (cases "nx M x"; simp add: prev_upd)+
  have M2: "length M2 = length M" "M2 ! x = M ! x" "ty M2 = ty M" "ord M2 = ord M" "pv M2 = pv M1"
    "nx M2 = (case pv M x of None \<Rightarrow> nx M | Some l \<Rightarrow> (nx M)(l := nx M x))"
    unfolding M2_def using prev_ok M1(1-5) by (cases "pv M x"; simp add: next_upd)+
  have M3: "same_shape M M3" "nx M3 = unlink_nx (nx M) (pv M) x" "pv M3 = unlink_pv (nx M) (pv M) x"
    unfolding same_shape_def M3_def unlink_nx_def unlink_pv_def using x M1 M2
    by (simp_all add: meta_upd fun_upd_idem)
  show thesis
  proof (rule that[OF _ M3])
    have step1: "SetBuddyPrev M (nx M x) (pv M x) = Some M1"
      using next_ok by (auto simp: SetBuddyPrev_def M1_def AsBuddy_def split: option.splits)
    have step2: "SetBuddyNext M1 (pv M x) (nx M x) = Some M2"
      using prev_ok M1(1,3)
      by (auto simp: SetBuddyNext_def M2_def AsBuddy_def fun_eq_iff split: option.splits)
    show "BuddyPmm_ListRemove \<lparr>bd_freelist_table = T, bd_pmt = M\<rparr> x =
       Some \<lparr>bd_freelist_table = T[k := if T ! k = Some x then nx M x else T ! k], bd_pmt = M3\<rparr>"
      using x k M1(1,2) M2(1,2)
      by (simp add: BuddyPmm_ListRemove_def AsBuddy_def[of "M ! x"] step1 step2 M3_def)
  qed
qed

lemma lists_ok_node: "lists_ok b F \<Longrightarrow> x \<in> F \<Longrightarrow>
    x < length (bd_pmt b) \<and> ty (bd_pmt b) x = Buddy \<and> ord (bd_pmt b) x \<le> 10"
  by (simp add: lists_ok_def)

lemma ListRemove_lists:
  assumes ok: "lists_ok b F" and "x \<in> F"
  obtains b' where "BuddyPmm_ListRemove b x = Some b'" and "same_shape (bd_pmt b) (bd_pmt b')"
    and "lists_ok b' (F - {x})"
proof -
  obtain T M where b: "b = \<lparr>bd_freelist_table = T, bd_pmt = M\<rparr>" by (cases b) auto
  let ?k = "ord M x"
  from ok b have T: "length T = 11" and F: "\<And>y. y \<in> F \<Longrightarrow> y < length M \<and> ty M y = Buddy \<and> ord M y \<le> 10"
    and L: "\<And>k. k \<le> 10 \<Longrightarrow> \<exists>xs q. dll (nx M) (pv M) (T ! k) None xs None q \<and> set xs = {y \<in> F. ord M y = k}"
    by (auto simp: lists_ok_def)
  from F assms(2) have k: "?k \<le> 10" by blast
  from L[OF k] obtain xs q where d: "dll (nx M) (pv M) (T ! ?k) None xs None q"
    and xs: "set xs = {y \<in> F. ord M y = ?k}" by blast
  from assms(2) xs have "x \<in> set xs" by simp
  then obtain as bs where split: "xs = as @ x # bs" by (meson split_list)
  note d = d[unfolded split]
  from T k have kT: "?k < length T" by simp
  have nodes: "y < length M \<and> ty M y = Buddy" if "y \<in> set (as @ x # bs)" for y
    using that F xs split by auto
  obtain M' where rm: "BuddyPmm_ListRemove b x =
      Some \<lparr>bd_freelist_table = T[?k := if T ! ?k = Some x then nx M x else T ! ?k], bd_pmt = M'\<rparr>"
    and sh: "same_shape M M'" and nx': "nx M' = unlink_nx (nx M) (pv M) x"
    and pv': "pv M' = unlink_pv (nx M) (pv M) x"
    using ListRemove_effect[OF d nodes refl kT] b by metis
  from sh have len: "length M' = length M" and tyo: "\<And>y. ty M' y = ty M y" "\<And>y. ord M' y = ord M y"
    by (auto simp: same_shape_def fun_eq_iff)
  have "\<exists>ys q. dll (nx M') (pv M') (T[?k := if T ! ?k = Some x then nx M x else T ! ?k] ! k) None ys None q \<and>
      set ys = {y \<in> F - {x}. ord M' y = k}" if "k \<le> 10" for k
  proof (cases "k = ?k")
    case True
    have "set (as @ bs) = {y \<in> F - {x}. ord M y = ?k}"
      using dll_distinct[OF d] xs split by auto
    with dll_unlink[OF d] kT True show ?thesis unfolding nx' pv' tyo
      by (intro exI[of _ "as @ bs"] exI[of _ "if q = Some x then pv M x else q"]) auto
  next
    case False
    from L[OF that] obtain ys r where ys: "dll (nx M) (pv M) (T ! k) None ys None r"
      "set ys = {y \<in> F. ord M y = k}" by blast
    have "y \<notin> set (as @ x # bs)" if "y \<in> set ys" for y using that ys(2) False xs split by auto
    with ys(1) have "dll (nx M') (pv M') (T ! k) None ys None r" unfolding nx' pv'
      using unlink_outside[OF d] by (subst dll_cong[of _ _ "nx M" _ "pv M"]) auto
    moreover have "set ys = {y \<in> F - {x}. ord M' y = k}" using ys(2) False unfolding tyo by auto
    ultimately show ?thesis using False by auto
  qed
  with T F len tyo have "lists_ok \<lparr>bd_freelist_table =
      T[?k := if T ! ?k = Some x then nx M x else T ! ?k], bd_pmt = M'\<rparr> (F - {x})"
    by (simp add: lists_ok_def)
  with rm sh b show thesis by (intro that) auto
qed

lemma ListPush_effect:
  assumes d: "dll (nx M) (pv M) (T ! k) None xs None q"
    and nodes: "\<And>y. y \<in> set xs \<Longrightarrow> y < length M \<and> ty M y = Buddy"
    and x: "x \<notin> set xs" "x < length M" "ty M x = Buddy"
    and k: "ord M x = k" "k < length T"
  obtains M' where
    "BuddyPmm_ListPush \<lparr>bd_freelist_table = T, bd_pmt = M\<rparr> x =
       Some \<lparr>bd_freelist_table = T[k := Some x], bd_pmt = M'\<rparr>"
    and "same_shape M M'" and "nx M' = (nx M)(x := T ! k)"
    and "pv M' = (case T ! k of None \<Rightarrow> pv M | Some h \<Rightarrow> (pv M)(h := Some x))(x := None)"
proof -
  define M1 where "M1 = M[x := (M ! x)\<lparr>pm_buddy_next := T ! k\<rparr>]"
  define M2 where "M2 = (case T ! k of None \<Rightarrow> M1 | Some h \<Rightarrow> M1[h := (M1 ! h)\<lparr>pm_buddy_prev := Some x\<rparr>])"
  define M3 where "M3 = M2[x := (M2 ! x)\<lparr>pm_buddy_prev := None\<rparr>]"
  have head_ok: "h < length M \<and> ty M h = Buddy \<and> h \<noteq> x" if "T ! k = Some h" for h
    using dll_head[OF d] that nodes x by (auto split: list.splits)
  have M1: "length M1 = length M" "ty M1 = ty M" "ord M1 = ord M" "nx M1 = (nx M)(x := T ! k)" "pv M1 = pv M"
    unfolding M1_def using x by (simp_all add: next_upd)
  have M2: "length M2 = length M" "ty M2 = ty M" "ord M2 = ord M" "nx M2 = (nx M)(x := T ! k)"
    "pv M2 = (case T ! k of None \<Rightarrow> pv M | Some h \<Rightarrow> (pv M)(h := Some x))"
    unfolding M2_def using head_ok M1 by (cases "T ! k"; simp add: prev_upd)+
  have M3: "same_shape M M3" "nx M3 = (nx M)(x := T ! k)"
    "pv M3 = (case T ! k of None \<Rightarrow> pv M | Some h \<Rightarrow> (pv M)(h := Some x))(x := None)"
    unfolding same_shape_def M3_def using x M2 by (simp_all add: prev_upd)
  show thesis
  proof (rule that[OF _ M3])
    have step: "SetBuddyPrev M1 (T ! k) (Some x) = Some M2"
      using head_ok M1 by (auto simp: SetBuddyPrev_def M2_def AsBuddy_def fun_eq_iff split: option.splits)
    show "BuddyPmm_ListPush \<lparr>bd_freelist_table = T, bd_pmt = M\<rparr> x =
       Some \<lparr>bd_freelist_table = T[k := Some x], bd_pmt = M3\<rparr>"
      using x k M1(1) M2(1)
      by (simp add: BuddyPmm_ListPush_def AsBuddy_def[of "M ! x"] M1_def[symmetric] step M3_def)
  qed
qed

lemma ListPush_lists:
  assumes ok: "lists_ok b F" and "x \<notin> F" and "x < length (bd_pmt b)"
    and "ty (bd_pmt b) x = Buddy" and "ord (bd_pmt b) x \<le> 10"
  obtains b' where "BuddyPmm_ListPush b x = Some b'" and "same_shape (bd_pmt b) (bd_pmt b')"
    and "lists_ok b' (insert x F)"
proof -
  obtain T M where b: "b = \<lparr>bd_freelist_table = T, bd_pmt = M\<rparr>" by (cases b) auto
  let ?k = "ord M x"
  from ok b have T: "length T = 11" and F: "\<And>y. y \<in> F \<Longrightarrow> y < length M \<and> ty M y = Buddy \<and> ord M y \<le> 10"
    and L: "\<And>k. k \<le> 10 \<Longrightarrow> \<exists>xs q. dll (nx M) (pv M) (T ! k) None xs None q \<and> set xs = {y \<in> F. ord M y = k}"
    by (auto simp: lists_ok_def)
  from assms b have x: "x < length M" "ty M x = Buddy" and k: "?k \<le> 10" by auto
  from L[OF k] obtain xs q where d: "dll (nx M) (pv M) (T ! ?k) None xs None q"
    and xs: "set xs = {y \<in> F. ord M y = ?k}" by blast
  from T k have kT: "?k < length T" by simp
  have nodes: "y < length M \<and> ty M y = Buddy" if "y \<in> set xs" for y using that F xs by auto
  from xs assms(2) have xn: "x \<notin> set xs" by simp
  obtain M' where push: "BuddyPmm_ListPush b x = Some \<lparr>bd_freelist_table = T[?k := Some x], bd_pmt = M'\<rparr>"
    and sh: "same_shape M M'" and nx': "nx M' = (nx M)(x := T ! ?k)"
    and pv': "pv M' = (case T ! ?k of None \<Rightarrow> pv M | Some h \<Rightarrow> (pv M)(h := Some x))(x := None)"
    using ListPush_effect[OF d nodes xn x refl kT] b by metis
  from sh have len: "length M' = length M" and tyo: "\<And>y. ty M' y = ty M y" "\<And>y. ord M' y = ord M y"
    by (auto simp: same_shape_def fun_eq_iff)
  have "\<exists>ys q. dll (nx M') (pv M') (T[?k := Some x] ! k) None ys None q \<and>
      set ys = {y \<in> insert x F. ord M' y = k}" if "k \<le> 10" for k
  proof (cases "k = ?k")
    case True
    have "set (x # xs) = {y \<in> insert x F. ord M y = ?k}" using xs by auto
    with dll_push_front[OF d xn] kT True show ?thesis unfolding nx' pv' tyo
      by (intro exI[of _ "x # xs"] exI[of _ "if xs = [] then Some x else q"]) auto
  next
    case False
    from L[OF that] obtain ys r where ys: "dll (nx M) (pv M) (T ! k) None ys None r"
      "set ys = {y \<in> F. ord M y = k}" by blast
    have "y \<noteq> x \<and> T ! ?k \<noteq> Some y" if "y \<in> set ys" for y
      using that ys(2) False assms(2) dll_head[OF d] xs by (auto split: list.splits)
    with ys(1) have "dll (nx M') (pv M') (T ! k) None ys None r" unfolding nx' pv'
      by (subst dll_cong[of _ _ "nx M" _ "pv M"]) (auto split: option.splits)
    moreover have "set ys = {y \<in> insert x F. ord M' y = k}" using ys(2) False unfolding tyo by auto
    ultimately show ?thesis using False by auto
  qed
  with T F len tyo x k have "lists_ok \<lparr>bd_freelist_table = T[?k := Some x], bd_pmt = M'\<rparr> (insert x F)"
    by (simp add: lists_ok_def)
  with push sh b show thesis by (intro that) auto
qed

text \<open>A node off the lists may be changed freely.\<close>

lemma lists_ok_put:
  assumes "lists_ok b F" and "x \<notin> F" and "x < length (bd_pmt b)"
  shows "lists_ok (b\<lparr>bd_pmt := (bd_pmt b)[x := m]\<rparr>) F"
proof -
  let ?M = "bd_pmt b"
  have keep: "?M[x := m] ! y = ?M ! y" if "y \<in> F" for y using that assms(2) by (metis nth_list_update_neq)
  have "\<exists>xs q. dll (nx (?M[x := m])) (pv (?M[x := m])) (bd_freelist_table b ! k) None xs None q \<and>
      set xs = {y \<in> F. ord (?M[x := m]) y = k}" if "k \<le> 10" for k
  proof -
    from assms(1) that obtain xs q where xs: "dll (nx ?M) (pv ?M) (bd_freelist_table b ! k) None xs None q"
      "set xs = {y \<in> F. ord ?M y = k}" unfolding lists_ok_def by blast
    then have "dll (nx (?M[x := m])) (pv (?M[x := m])) (bd_freelist_table b ! k) None xs None q"
      using keep by (subst dll_cong[of _ _ "nx ?M" _ "pv ?M"]) auto
    moreover have "set xs = {y \<in> F. ord (?M[x := m]) y = k}" using xs(2) keep by auto
    ultimately show ?thesis by blast
  qed
  with assms keep show ?thesis by (simp add: lists_ok_def)
qed

section \<open>Blocks and their buddies\<close>

definition blk :: "nat \<Rightarrow> nat \<Rightarrow> nat set" where
  "blk x k = {x ..< x + 2 ^ k}"

lemma self_in_blk [simp]: "x \<in> blk x k"
  by (simp add: blk_def)

lemma GetBuddyPfn_eq: "GetBuddyPfn x k = (if bit x k then x - 2 ^ k else x + 2 ^ k)"
proof -
  have "GetBuddyPfn x k = flip_bit k x" by (simp add: GetBuddyPfn_def flip_bit_eq_xor)
  moreover have "unset_bit k x + 2 ^ k = x" if "bit x k"
  proof -
    have "set_bit k (unset_bit k x) = unset_bit k x + 2 ^ k"
      by (simp add: set_bit_eq bit_unset_bit_iff)
    moreover have "set_bit k (unset_bit k x) = x"
      by (rule bit_eqI) (use that in \<open>auto simp: bit_set_bit_iff bit_unset_bit_iff\<close>)
    ultimately show ?thesis by simp
  qed
  ultimately show ?thesis by (auto simp: flip_bit_eq_if set_bit_eq)
qed

lemma GetBuddyPfn_invol: "GetBuddyPfn (GetBuddyPfn x k) k = x"
  by (simp add: GetBuddyPfn_def xor.assoc)

lemma buddy_low: "2 ^ Suc k dvd x \<Longrightarrow> GetBuddyPfn x k = x + 2 ^ k"
  by (auto simp: GetBuddyPfn_eq bit_iff_odd elim!: dvdE)

lemma buddy_cases:
  assumes "2 ^ k dvd x"
  obtains (low) "GetBuddyPfn x k = x + 2 ^ k" "2 ^ Suc k dvd x"
    | (high) y where "x = y + 2 ^ k" "GetBuddyPfn x k = y" "2 ^ Suc k dvd y"
proof (cases "even (x div 2 ^ k)")
  case True
  with assms have "2 ^ Suc k dvd x" by (auto elim!: dvdE)
  with buddy_low low show thesis by blast
next
  case False
  with assms obtain j where j: "x = 2 ^ k * (2 * j + 1)" by (auto elim!: dvdE oddE)
  let ?y = "2 ^ Suc k * j"
  have x: "x = ?y + 2 ^ k" using j by (simp add: algebra_simps)
  have "GetBuddyPfn ?y k = x" using x buddy_low[of k ?y] by simp
  then have "GetBuddyPfn x k = ?y" using GetBuddyPfn_invol by metis
  with high[of ?y] x show thesis by simp
qed

lemma blk_Suc: "blk x (Suc k) = blk x k \<union> blk (x + 2 ^ k) k" "blk x k \<inter> blk (x + 2 ^ k) k = {}"
  by (auto simp: blk_def)

lemma buddy_union:
  assumes "2 ^ k dvd x"
  shows "2 ^ Suc k dvd min x (GetBuddyPfn x k)"
    and "blk (min x (GetBuddyPfn x k)) (Suc k) = blk x k \<union> blk (GetBuddyPfn x k) k"
    and "GetBuddyPfn x k \<noteq> x"
proof -
  have "2 ^ Suc k dvd min x (GetBuddyPfn x k) \<and>
    blk (min x (GetBuddyPfn x k)) (Suc k) = blk x k \<union> blk (GetBuddyPfn x k) k \<and>
    GetBuddyPfn x k \<noteq> x"
    using assms
  proof (cases rule: buddy_cases)
    case low
    then show ?thesis unfolding low(1) by (simp add: blk_Suc(1))
  next
    case (high y)
    then have "min x (GetBuddyPfn x k) = y" by simp
    then show ?thesis using high blk_Suc(1)[of y k] by auto
  qed
  then show "2 ^ Suc k dvd min x (GetBuddyPfn x k)"
    and "blk (min x (GetBuddyPfn x k)) (Suc k) = blk x k \<union> blk (GetBuddyPfn x k) k"
    and "GetBuddyPfn x k \<noteq> x" by blast+
qed

section \<open>Free blocks, held blocks and coalescing\<close>

text \<open>
  \<open>F\<close> is a set of block heads, \<open>o\<close> gives the order of each. \<open>geo\<close>: the blocks are aligned, inside
  the \<open>n\<close> pages, and pairwise disjoint. \<open>held\<close>: a block that is aligned, inside, and disjoint from
  the free ones. \<open>coalesced\<close>: no two buddies of the same order are both free.
\<close>

definition fpages :: "(nat \<Rightarrow> nat) \<Rightarrow> nat set \<Rightarrow> nat set" where
  "fpages od F = (\<Union>x\<in>F. blk x (od x))"

definition geo :: "nat \<Rightarrow> (nat \<Rightarrow> nat) \<Rightarrow> nat set \<Rightarrow> bool" where
  "geo n od F \<longleftrightarrow> (\<forall>x\<in>F. 2 ^ od x dvd x \<and> x + 2 ^ od x \<le> n) \<and>
     (\<forall>x\<in>F. \<forall>y\<in>F. x \<noteq> y \<longrightarrow> blk x (od x) \<inter> blk y (od y) = {})"

definition held :: "nat \<Rightarrow> (nat \<Rightarrow> nat) \<Rightarrow> nat set \<Rightarrow> nat \<Rightarrow> nat \<Rightarrow> bool" where
  "held n od F x k \<longleftrightarrow> 2 ^ k dvd x \<and> x + 2 ^ k \<le> n \<and> blk x k \<inter> fpages od F = {}"

definition coalesced :: "(nat \<Rightarrow> nat) \<Rightarrow> nat set \<Rightarrow> bool" where
  "coalesced od F \<longleftrightarrow>
     (\<forall>x\<in>F. od x < kMaxOrder \<longrightarrow> \<not> (GetBuddyPfn x (od x) \<in> F \<and> od (GetBuddyPfn x (od x)) = od x))"

lemma fpages_cong: "(\<And>x. x \<in> F \<Longrightarrow> od x = od' x) \<Longrightarrow> fpages od F = fpages od' F"
  by (simp add: fpages_def)

lemma geo_cong: "(\<And>x. x \<in> F \<Longrightarrow> od x = od' x) \<Longrightarrow> geo n od F = geo n od' F"
  by (simp add: geo_def)

lemma coalesced_cong:
  assumes "\<And>x. x \<in> F \<Longrightarrow> od x = od' x" shows "coalesced od F = coalesced od' F"
proof -
  have "(x \<in> F \<longrightarrow> od x < kMaxOrder \<longrightarrow> \<not> (GetBuddyPfn x (od x) \<in> F \<and> od (GetBuddyPfn x (od x)) = od x)) =
    (x \<in> F \<longrightarrow> od' x < kMaxOrder \<longrightarrow> \<not> (GetBuddyPfn x (od' x) \<in> F \<and> od' (GetBuddyPfn x (od' x)) = od' x))"
    for x using assms[of x] assms[of "GetBuddyPfn x (od x)"] by auto
  then show ?thesis unfolding coalesced_def Ball_def by blast
qed

lemma coalesced_mono: "coalesced od F \<Longrightarrow> F' \<subseteq> F \<Longrightarrow> coalesced od F'"
  by (auto simp: coalesced_def)

lemma held_bound: "held n od F x k \<Longrightarrow> x < n"
proof -
  assume "held n od F x k"
  moreover have "0 < (2 :: nat) ^ k" by simp
  ultimately show ?thesis unfolding held_def by linarith
qed

lemma free_in_fpages: "x \<in> F \<Longrightarrow> x \<in> fpages od F"
  unfolding fpages_def by (rule UN_I[of x]) (assumption, rule self_in_blk)

lemma held_outside: "held n od F x k \<Longrightarrow> z \<in> blk x k \<Longrightarrow> z \<notin> F"
  using free_in_fpages[of z F od] by (auto simp: held_def)

lemma held_not_free: "held n od F x k \<Longrightarrow> x \<notin> F"
  using held_outside[of n od F x k x] by simp

lemma held_cong:
  assumes "\<And>x. x \<in> F \<Longrightarrow> od x = od' x" shows "held n od F x k = held n od' F x k"
  using fpages_cong[of F od od'] assms by (simp add: held_def)

lemma fpages_insert: "x \<notin> F \<Longrightarrow> fpages (od(x := k)) (insert x F) = fpages od F \<union> blk x k"
  by (auto simp: fpages_def split: if_splits)

lemma geo_remove:
  assumes "geo n od F" and "x \<in> F"
  shows "geo n od (F - {x})" and "held n od (F - {x}) x (od x)"
    and "fpages od (F - {x}) = fpages od F - blk x (od x)"
proof -
  show "geo n od (F - {x})" using assms by (simp add: geo_def)
  show "held n od (F - {x}) x (od x)" "fpages od (F - {x}) = fpages od F - blk x (od x)"
    using assms unfolding held_def fpages_def geo_def by blast+
qed

lemma geo_insert:
  assumes "geo n od F" and "held n od F x k"
  shows "geo n (od(x := k)) (insert x F)"
proof -
  have "x \<notin> F" using assms(2) by (rule held_not_free)
  moreover have "blk x k \<inter> blk y (od y) = {}" if "y \<in> F" for y
    using that assms(2) by (auto simp: held_def fpages_def)
  ultimately show ?thesis using assms by (auto simp: geo_def held_def)
qed

lemma held_split:
  assumes "held n od F x (Suc l)"
  shows "held n od F (x + 2 ^ l) l" and "held n (od(x + 2 ^ l := l)) (insert (x + 2 ^ l) F) x l"
    and "fpages (od(x + 2 ^ l := l)) (insert (x + 2 ^ l) F) \<union> blk x l = fpages od F \<union> blk x (Suc l)"
proof -
  from assms have dvd: "2 ^ l dvd x" by (auto simp: held_def elim: dvd_trans[rotated])
  show up: "held n od F (x + 2 ^ l) l"
    using assms dvd by (auto simp: held_def blk_Suc(1))
  note ins = fpages_insert[OF held_not_free[OF up], of od l]
  show "held n (od(x + 2 ^ l := l)) (insert (x + 2 ^ l) F) x l"
    using assms dvd blk_Suc(2)[of x l] unfolding held_def ins by (auto simp: blk_Suc(1))
  show "fpages (od(x + 2 ^ l := l)) (insert (x + 2 ^ l) F) \<union> blk x l = fpages od F \<union> blk x (Suc l)"
    unfolding ins by (auto simp: blk_Suc(1))
qed

lemma held_merge:
  assumes "geo n od F" and "held n od F x k" and "GetBuddyPfn x k \<in> F" and "od (GetBuddyPfn x k) = k"
  shows "held n od (F - {GetBuddyPfn x k}) (min x (GetBuddyPfn x k)) (Suc k)"
proof -
  let ?y = "GetBuddyPfn x k"
  from assms(2) have dvd: "2 ^ k dvd x" by (simp add: held_def)
  note u = buddy_union[OF dvd]
  from geo_remove[OF assms(1,3)] assms(4) have y: "held n od (F - {?y}) ?y k"
    and fp: "fpages od (F - {?y}) = fpages od F - blk ?y k" by auto
  have "min x ?y + 2 ^ Suc k \<le> n"
    by (rule buddy_cases[OF dvd]) (use assms(2) y in \<open>auto simp: held_def\<close>)
  with u y fp assms(2) show ?thesis by (auto simp: held_def)
qed

lemma coalesced_insert:
  assumes "coalesced od F" and "x \<notin> F"
    and "k < kMaxOrder \<Longrightarrow> GetBuddyPfn x k \<in> F \<Longrightarrow> od (GetBuddyPfn x k) \<noteq> k"
    and "2 ^ k dvd x"
  shows "coalesced (od(x := k)) (insert x F)"
proof -
  have "GetBuddyPfn x k \<noteq> x" using buddy_union(3)[OF assms(4)] .
  moreover have "GetBuddyPfn z (od z) = x \<Longrightarrow> od z = k \<Longrightarrow> GetBuddyPfn x k = z" for z
    using GetBuddyPfn_invol by metis
  ultimately show ?thesis using assms(1,2,3) unfolding coalesced_def by (auto split: if_splits)
qed

text \<open>
  What coalescing buys: an aligned run of free pages always lies inside one free block.
\<close>

lemma aligned_block_inside:
  assumes "2 ^ k dvd x" and "2 ^ j dvd (y :: nat)" and "k \<le> j" and "x \<in> blk y j"
  shows "blk x k \<subseteq> blk y j"
proof -
  have "2 ^ k dvd (2 :: nat) ^ j" using assms(3) by (rule le_imp_power_dvd)
  with assms(2) obtain a b where y: "y = 2 ^ k * a" and j: "(2 :: nat) ^ j = 2 ^ k * b"
    by (meson dvdE dvd_trans)
  from assms(1) obtain c where x: "x = 2 ^ k * c" by blast
  from assms(4) have "2 ^ k * a \<le> 2 ^ k * c" "2 ^ k * c < 2 ^ k * (a + b)"
    by (simp_all add: blk_def x y j distrib_left)
  then have "a \<le> c" "c < a + b" by simp_all
  then have "2 ^ k * (c + 1) \<le> 2 ^ k * (a + b)" by (intro mult_le_mono2) simp
  with \<open>a \<le> c\<close> show ?thesis by (auto simp: blk_def x y j distrib_left intro: order_trans)
qed

lemma coalesced_run:
  assumes "geo n od F" and "coalesced od F" and "k \<le> kMaxOrder" and "2 ^ k dvd x"
    and "blk x k \<subseteq> fpages od F"
  obtains y where "y \<in> F" and "k \<le> od y" and "blk x k \<subseteq> blk y (od y)"
  using assms(3-5)
proof (induction k arbitrary: x thesis)
  case 0
  then have "x \<in> fpages od F" by (auto simp: blk_def)
  then show ?case using 0(1) by (auto simp: fpages_def blk_def)
next
  case (Suc k)
  from Suc.prems have d: "2 ^ k dvd x" "2 ^ k dvd x + 2 ^ k" by (auto elim: dvd_trans[rotated])
  from Suc.prems(4) have sub: "blk x k \<subseteq> fpages od F" "blk (x + 2 ^ k) k \<subseteq> fpages od F"
    by (simp_all add: blk_Suc)
  from Suc.IH[OF _ _ d(1) sub(1)] Suc.prems(2) obtain y where
    y: "y \<in> F" "k \<le> od y" "blk x k \<subseteq> blk y (od y)" by auto
  from Suc.IH[OF _ _ d(2) sub(2)] Suc.prems(2) obtain z where
    z: "z \<in> F" "k \<le> od z" "blk (x + 2 ^ k) k \<subseteq> blk z (od z)" by auto
  from assms(1) y z have al: "2 ^ od y dvd y" "2 ^ od z dvd z" by (auto simp: geo_def)
  show ?case
  proof (cases "od y = k \<and> od z = k")
    case True
    then have "y = x" "z = x + 2 ^ k" using y(3) z(3) by (auto simp: blk_def)
    with assms(2) y z True buddy_low[OF Suc.prems(3)] Suc.prems(2) show ?thesis
      by (auto simp: coalesced_def)
  next
    case False
    then consider "Suc k \<le> od y" | "Suc k \<le> od z" using y z by fastforce
    then show ?thesis
    proof cases
      case 1
      have "x \<in> blk y (od y)" using y(3) self_in_blk by blast
      then show ?thesis
        by (rule Suc.prems(1)[OF y(1) 1 aligned_block_inside[OF Suc.prems(3) al(1) 1]])
    next
      case 2
      have "2 ^ Suc k dvd z" using al(2) 2 by (meson dvd_trans le_imp_power_dvd)
      then obtain m c where m: "z = 2 ^ Suc k * m" and c: "x = 2 ^ Suc k * c"
        using Suc.prems(3) by (meson dvdE)
      have *: "x + 2 ^ k \<in> blk z (od z)" using z(3) self_in_blk by blast
      then have "2 ^ Suc k * m < 2 ^ Suc k * (c + 1)"
        unfolding blk_def m c distrib_left by (auto intro: le_less_trans[of _ "2 ^ Suc k * c + 2 ^ k"])
      then have "m < c + 1" by (simp only: mult_less_cancel1)
      then have "m \<le> c" by simp
      then have "z \<le> x" unfolding m c by (rule mult_le_mono2)
      with * have "x \<in> blk z (od z)" by (simp add: blk_def)
      show ?thesis
        by (rule Suc.prems(1)[OF z(1) 2 aligned_block_inside[OF Suc.prems(3) al(2) 2]]) fact
    qed
  qed
qed

section \<open>The operations on well-formed states\<close>

definition buddies :: "page_meta_table \<Rightarrow> nat set" where
  "buddies M = {x. x < length M \<and> ty M x = Buddy}"

text \<open>The free lists hold every entry tagged \<open>Buddy\<close>, and these head disjoint aligned blocks.\<close>

definition bgeo :: "buddy_pmm \<Rightarrow> bool" where
  "bgeo b \<longleftrightarrow> lists_ok b (buddies (bd_pmt b)) \<and>
     geo (length (bd_pmt b)) (ord (bd_pmt b)) (buddies (bd_pmt b))"

definition bheld :: "buddy_pmm \<Rightarrow> nat \<Rightarrow> nat \<Rightarrow> bool" where
  "bheld b x k \<longleftrightarrow> held (length (bd_pmt b)) (ord (bd_pmt b)) (buddies (bd_pmt b)) x k"

definition bd_free_pages :: "buddy_pmm \<Rightarrow> nat set" where
  "bd_free_pages b = fpages (ord (bd_pmt b)) (buddies (bd_pmt b))"

definition bcoalesced :: "buddy_pmm \<Rightarrow> bool" where
  "bcoalesced b \<longleftrightarrow> coalesced (ord (bd_pmt b)) (buddies (bd_pmt b))"

lemma take_buddy:
  assumes b: "bgeo b" and y: "y \<in> buddies (bd_pmt b)"
  obtains b1 b2 where "BuddyPmm_ListRemove b y = Some b1" and "y < length (bd_pmt b1)"
    and "b2 = b1\<lparr>bd_pmt := (bd_pmt b1)[y := (bd_pmt b1 ! y)\<lparr>pm_type := Dummy\<rparr>]\<rparr>"
    and "bgeo b2" and "buddies (bd_pmt b2) = buddies (bd_pmt b) - {y}"
    and "length (bd_pmt b2) = length (bd_pmt b)" and "ord (bd_pmt b2) = ord (bd_pmt b)"
    and "ty (bd_pmt b2) = (ty (bd_pmt b))(y := Dummy)"
proof -
  let ?M = "bd_pmt b"
  from b have ok: "lists_ok b (buddies ?M)" and g: "geo (length ?M) (ord ?M) (buddies ?M)"
    by (simp_all add: bgeo_def)
  from ListRemove_lists[OF ok y] obtain b1 where b1: "BuddyPmm_ListRemove b y = Some b1"
    "same_shape ?M (bd_pmt b1)" "lists_ok b1 (buddies ?M - {y})" by blast
  let ?M1 = "bd_pmt b1"
  define b2 where "b2 = b1\<lparr>bd_pmt := ?M1[y := (?M1 ! y)\<lparr>pm_type := Dummy\<rparr>]\<rparr>"
  from b1(2) have sh: "length ?M1 = length ?M" "ty ?M1 = ty ?M" "ord ?M1 = ord ?M"
    by (simp_all add: same_shape_def)
  from y have yl: "y < length ?M1" by (simp add: buddies_def sh)
  have M2: "length (bd_pmt b2) = length ?M" "ord (bd_pmt b2) = ord ?M" "ty (bd_pmt b2) = (ty ?M)(y := Dummy)"
    using yl sh by (auto simp: b2_def nth_list_update fun_eq_iff)
  have bs: "buddies (bd_pmt b2) = buddies ?M - {y}"
    using fun_cong[OF M2(3)] by (auto simp: buddies_def M2(1))
  have "lists_ok b2 (buddies ?M - {y})"
    unfolding b2_def by (rule lists_ok_put[OF b1(3) _ yl]) simp
  with geo_remove(1)[OF g y] have "bgeo b2" by (simp add: bgeo_def bs M2(1,2))
  with that[OF b1(1) yl b2_def] bs M2 show thesis by blast
qed

lemma MergeBlock_loop_ok:
  assumes "bgeo b" and "bheld b x k" and "k \<le> 10"
  shows "\<exists>x' k' b'. BuddyPmm_MergeBlock_loop b x k = Some (x', k', b') \<and> bgeo b' \<and> bheld b' x' k' \<and>
     k' \<le> 10 \<and> length (bd_pmt b') = length (bd_pmt b) \<and> ord (bd_pmt b') = ord (bd_pmt b) \<and>
     buddies (bd_pmt b') \<subseteq> buddies (bd_pmt b) \<and>
     bd_free_pages b' \<union> blk x' k' = bd_free_pages b \<union> blk x k \<and> blk x k \<subseteq> blk x' k' \<and>
     (\<forall>z. z \<notin> blk x' k' \<longrightarrow> ty (bd_pmt b') z = ty (bd_pmt b) z) \<and>
     (k' < 10 \<longrightarrow> GetBuddyPfn x' k' \<in> buddies (bd_pmt b') \<longrightarrow>
        ord (bd_pmt b') (GetBuddyPfn x' k') \<noteq> k')"
  using assms
proof (induction b x k rule: BuddyPmm_MergeBlock_loop.induct)
  case (1 b x k)
  let ?M = "bd_pmt b" and ?y = "GetBuddyPfn x k"
  show ?case
  proof (cases "k < 10 \<and> ?y \<in> buddies ?M \<and> ord ?M ?y = k")
    case False
    then have "BuddyPmm_MergeBlock_loop b x k = Some (x, k, b)"
      by (auto simp: BuddyPmm_MergeBlock_loop.simps[of b x k] buddies_def TotalPages_def Let_def)
    with False 1(2-4) show ?thesis by auto
  next
    case True
    then have y: "?y \<in> buddies ?M" "ord ?M ?y = k" and yl: "?y < length ?M" "ty ?M ?y = Buddy"
      by (simp_all add: buddies_def)
    obtain b1 b2 where rm: "BuddyPmm_ListRemove b ?y = Some b1" and yl1: "?y < length (bd_pmt b1)"
      and b2: "b2 = b1\<lparr>bd_pmt := (bd_pmt b1)[?y := (bd_pmt b1 ! ?y)\<lparr>pm_type := Dummy\<rparr>]\<rparr>"
      and g2: "bgeo b2" and bs2: "buddies (bd_pmt b2) = buddies ?M - {?y}"
      and len2: "length (bd_pmt b2) = length ?M" and ord2: "ord (bd_pmt b2) = ord ?M"
      and ty2: "ty (bd_pmt b2) = (ty ?M)(?y := Dummy)"
      by (rule take_buddy[OF 1(2) y(1)])
    have loop: "BuddyPmm_MergeBlock_loop b x k = BuddyPmm_MergeBlock_loop b2 (min x ?y) (k + 1)"
      using True yl rm yl1 by (subst BuddyPmm_MergeBlock_loop.simps) (simp add: TotalPages_def b2 Let_def)
    have g: "geo (length ?M) (ord ?M) (buddies ?M)" using 1(2) by (simp add: bgeo_def)
    have h2: "bheld b2 (min x ?y) (k + 1)"
      using held_merge[OF g _ y] 1(3) by (simp add: bheld_def bs2 len2 ord2)
    from 1(3) have dvd: "2 ^ k dvd x" by (simp add: bheld_def held_def)
    note u = buddy_union[OF dvd]
    have fp2: "bd_free_pages b2 \<union> blk (min x ?y) (k + 1) = bd_free_pages b \<union> blk x k"
    proof -
      have "blk ?y k \<subseteq> bd_free_pages b"
        using UN_upper[OF y(1), of "\<lambda>z. blk z (ord ?M z)"] y(2) by (simp add: bd_free_pages_def fpages_def)
      moreover have "bd_free_pages b2 = bd_free_pages b - blk ?y k"
        using geo_remove(3)[OF g y(1)] y(2) by (simp add: bd_free_pages_def bs2 ord2)
      ultimately show ?thesis using u(2) by auto
    qed
    have "\<exists>x' k' b'. BuddyPmm_MergeBlock_loop b2 (min x ?y) (k + 1) = Some (x', k', b') \<and>
     bgeo b' \<and> bheld b' x' k' \<and>
     k' \<le> 10 \<and> length (bd_pmt b') = length (bd_pmt b2) \<and> ord (bd_pmt b') = ord (bd_pmt b2) \<and>
     buddies (bd_pmt b') \<subseteq> buddies (bd_pmt b2) \<and>
     bd_free_pages b' \<union> blk x' k' = bd_free_pages b2 \<union> blk (min x ?y) (k + 1) \<and> blk (min x ?y) (k + 1) \<subseteq> blk x' k' \<and>
     (\<forall>z. z \<notin> blk x' k' \<longrightarrow> ty (bd_pmt b') z = ty (bd_pmt b2) z) \<and>
     (k' < 10 \<longrightarrow> GetBuddyPfn x' k' \<in> buddies (bd_pmt b') \<longrightarrow>
        ord (bd_pmt b') (GetBuddyPfn x' k') \<noteq> k')"
      unfolding b2
      by (rule 1(1)[OF _ refl _ _ _ rm, of "?M ! ?y" "bd_pmt b1 ! ?y"])
        (use True yl yl1 g2 h2 in \<open>auto simp: b2 TotalPages_def\<close>)
    then obtain x' k' b' where *: "BuddyPmm_MergeBlock_loop b2 (min x ?y) (k + 1) = Some (x', k', b')"
      "bgeo b'" "bheld b' x' k'" "k' \<le> 10" "length (bd_pmt b') = length (bd_pmt b2)"
      "ord (bd_pmt b') = ord (bd_pmt b2)" "buddies (bd_pmt b') \<subseteq> buddies (bd_pmt b2)"
      "bd_free_pages b' \<union> blk x' k' = bd_free_pages b2 \<union> blk (min x ?y) (k + 1)"
      "blk (min x ?y) (k + 1) \<subseteq> blk x' k'"
      "\<And>z. z \<notin> blk x' k' \<Longrightarrow> ty (bd_pmt b') z = ty (bd_pmt b2) z"
      "k' < 10 \<Longrightarrow> GetBuddyPfn x' k' \<in> buddies (bd_pmt b') \<Longrightarrow> ord (bd_pmt b') (GetBuddyPfn x' k') \<noteq> k'"
      by blast
    have yin: "?y \<in> blk x' k'" and xin: "blk x k \<subseteq> blk x' k'" using *(9) u(2) by auto
    have "ty (bd_pmt b') z = ty ?M z" if "z \<notin> blk x' k'" for z
      using *(10)[OF that] that yin fun_cong[OF ty2, of z] by auto
    with * loop fp2 bs2 len2 ord2 xin show ?thesis by auto
  qed
qed

lemma push_block:
  assumes ok: "lists_ok b F" and "x \<notin> F" and xl: "x < length (bd_pmt b)" and "k \<le> 10"
    and "pm_type m = Buddy" and "unat (pm_order m) = k"
  obtains b' where "BuddyPmm_ListPush (b\<lparr>bd_pmt := (bd_pmt b)[x := m]\<rparr>) x = Some b'"
    and "lists_ok b' (insert x F)" and "length (bd_pmt b') = length (bd_pmt b)"
    and "ord (bd_pmt b') = (ord (bd_pmt b))(x := k)" and "ty (bd_pmt b') = (ty (bd_pmt b))(x := Buddy)"
proof -
  let ?b = "b\<lparr>bd_pmt := (bd_pmt b)[x := m]\<rparr>"
  from lists_ok_put[OF ok assms(2) xl, of m] have ok1: "lists_ok ?b F" .
  have M1: "length (bd_pmt ?b) = length (bd_pmt b)" "ord (bd_pmt ?b) = (ord (bd_pmt b))(x := k)"
    "ty (bd_pmt ?b) = (ty (bd_pmt b))(x := Buddy)" "bd_pmt ?b ! x = m"
    using xl assms(5,6) by (auto simp: nth_list_update)
  from ListPush_lists[OF ok1 assms(2)] M1 xl assms(4-6) obtain b' where
    b': "BuddyPmm_ListPush ?b x = Some b'" "same_shape (bd_pmt ?b) (bd_pmt b')" "lists_ok b' (insert x F)"
    by metis
  from b'(2) M1(1-3) show thesis by (intro that[OF b'(1,3)]) (simp_all only: same_shape_def)
qed

lemma MergeBlock_ok:
  assumes "bgeo b" and "bheld b x k" and "k \<le> 10" and "ord (bd_pmt b) x = k"
  obtains x' k' b' m where "BuddyPmm_MergeBlock b x = Some (x', b'\<lparr>bd_pmt := (bd_pmt b')[x' := m]\<rparr>)"
    and "unat (pm_order m) = k'" and "bgeo b'" and "bheld b' x' k'" and "k' \<le> 10"
    and "length (bd_pmt b') = length (bd_pmt b)" and "ord (bd_pmt b') = ord (bd_pmt b)"
    and "buddies (bd_pmt b') \<subseteq> buddies (bd_pmt b)"
    and "bd_free_pages b' \<union> blk x' k' = bd_free_pages b \<union> blk x k"
    and "\<And>z. z \<notin> blk x' k' \<Longrightarrow> ty (bd_pmt b') z = ty (bd_pmt b) z"
    and "k' < 10 \<Longrightarrow> GetBuddyPfn x' k' \<in> buddies (bd_pmt b') \<Longrightarrow>
        ord (bd_pmt b') (GetBuddyPfn x' k') \<noteq> k'"
proof -
  from assms(2) have xl: "x < length (bd_pmt b)"
    unfolding bheld_def by (rule held_bound)
  from MergeBlock_loop_ok[OF assms(1-3)] obtain x' k' b' where
    loop: "BuddyPmm_MergeBlock_loop b x k = Some (x', k', b')" and g: "bgeo b'" and h: "bheld b' x' k'"
    and k': "k' \<le> 10" and len: "length (bd_pmt b') = length (bd_pmt b)"
    and rest: "ord (bd_pmt b') = ord (bd_pmt b)" "buddies (bd_pmt b') \<subseteq> buddies (bd_pmt b)"
      "bd_free_pages b' \<union> blk x' k' = bd_free_pages b \<union> blk x k"
      "\<And>z. z \<notin> blk x' k' \<Longrightarrow> ty (bd_pmt b') z = ty (bd_pmt b) z"
      "k' < 10 \<Longrightarrow> GetBuddyPfn x' k' \<in> buddies (bd_pmt b') \<Longrightarrow> ord (bd_pmt b') (GetBuddyPfn x' k') \<noteq> k'"
    by blast
  have xl': "x' < length (bd_pmt b')"
    using h
    unfolding bheld_def by (rule held_bound)
  let ?m = "(bd_pmt b' ! x')\<lparr>pm_order := of_nat k'\<rparr>"
  have mb: "BuddyPmm_MergeBlock b x = Some (x', b'\<lparr>bd_pmt := (bd_pmt b')[x' := ?m]\<rparr>)"
    using xl xl' assms(4) loop by (simp add: BuddyPmm_MergeBlock_def)
  have "unat (pm_order ?m) = k'" using k' by (simp add: unat_of_nat)
  with that[OF mb] g h k' len rest show thesis by blast
qed

lemma Free_ok:
  assumes g: "bgeo b" and co: "bcoalesced b" and h: "bheld b x k" and k: "k \<le> 10"
    and al: "ty (bd_pmt b) x = Allocated" and od: "ord (bd_pmt b) x = k"
    and sz: "length (bd_pmt b) * 4096 \<le> 2 ^ 64"
  obtains b' where "BuddyPmm_Free b (PageFrameAddr (of_nat x)) = Some b'" and "bgeo b'" and "bcoalesced b'"
    and "bd_free_pages b' = bd_free_pages b \<union> blk x k" and "length (bd_pmt b') = length (bd_pmt b)"
    and "\<And>z. z \<notin> bd_free_pages b' \<Longrightarrow> ty (bd_pmt b') z = ty (bd_pmt b) z \<and> ord (bd_pmt b') z = ord (bd_pmt b) z"
proof -
  let ?M = "bd_pmt b"
  from h have xl: "x < length ?M"
    unfolding bheld_def by (rule held_bound)
  obtain x' k' b1 m where mb: "BuddyPmm_MergeBlock b x = Some (x', b1\<lparr>bd_pmt := (bd_pmt b1)[x' := m]\<rparr>)"
    and mo: "unat (pm_order m) = k'" and g1: "bgeo b1" and h1: "bheld b1 x' k'" and k': "k' \<le> 10"
    and len1: "length (bd_pmt b1) = length ?M" and ord1: "ord (bd_pmt b1) = ord ?M"
    and sub1: "buddies (bd_pmt b1) \<subseteq> buddies ?M"
    and fp1: "bd_free_pages b1 \<union> blk x' k' = bd_free_pages b \<union> blk x k"
    and ty1: "\<And>z. z \<notin> blk x' k' \<Longrightarrow> ty (bd_pmt b1) z = ty ?M z"
    and stop: "k' < 10 \<Longrightarrow> GetBuddyPfn x' k' \<in> buddies (bd_pmt b1) \<Longrightarrow> ord (bd_pmt b1) (GetBuddyPfn x' k') \<noteq> k'"
    by (rule MergeBlock_ok[OF g h k od]) blast
  let ?F = "buddies (bd_pmt b1)"
  have xl1: "x' < length (bd_pmt b1)"
    using h1
    unfolding bheld_def by (rule held_bound)
  from h1 have xF: "x' \<notin> ?F" unfolding bheld_def by (rule held_not_free)
  from g1 have ok1: "lists_ok b1 ?F" and geo1: "geo (length (bd_pmt b1)) (ord (bd_pmt b1)) ?F"
    by (simp_all add: bgeo_def)
  obtain b' where push: "BuddyPmm_ListPush (b1\<lparr>bd_pmt := (bd_pmt b1)[x' := InitBuddy (pm_order m) m]\<rparr>) x' = Some b'"
    and ok': "lists_ok b' (insert x' ?F)" and len': "length (bd_pmt b') = length (bd_pmt b1)"
    and ord': "ord (bd_pmt b') = (ord (bd_pmt b1))(x' := k')" and ty': "ty (bd_pmt b') = (ty (bd_pmt b1))(x' := Buddy)"
    by (rule push_block[OF ok1 xF xl1 k', of "InitBuddy (pm_order m) m"]) (auto simp: mo)
  have bs': "buddies (bd_pmt b') = insert x' ?F"
    using fun_cong[OF ty'] xl1 by (auto simp: buddies_def len')
  have fr: "BuddyPmm_Free b (PageFrameAddr (of_nat x)) = Some b'"
  proof -
    have "x < 2 ^ 64" using sz xl by linarith
    then have "unat (of_nat x :: u64) = x" by (rule unat_of_nat_u64)
    then have "PageFrameNumber (PageFrameAddr (of_nat x)) = Some (of_nat x)"
      using PageFrameNumber_PageFrameAddr[of "of_nat x"] sz xl by simp
    with \<open>unat (of_nat x :: u64) = x\<close> xl al mb xl1 push show ?thesis
      by (simp add: BuddyPmm_Free_def)
  qed
  have fp': "bd_free_pages b' = bd_free_pages b \<union> blk x k"
    unfolding bd_free_pages_def bs' ord' fpages_insert[OF xF]
    using fp1 by (simp add: bd_free_pages_def)
  have "bgeo b'"
    using ok' geo_insert[OF geo1] h1 by (simp add: bgeo_def bheld_def bs' ord' len')
  moreover have "bcoalesced b'"
    unfolding bcoalesced_def bs' ord'
  proof (rule coalesced_insert[OF _ xF])
    show "coalesced (ord (bd_pmt b1)) ?F"
      using co sub1 unfolding bcoalesced_def ord1 by (rule coalesced_mono)
    show "2 ^ k' dvd x'" using h1 by (simp add: bheld_def held_def)
  qed (use stop in auto)
  moreover have "ty (bd_pmt b') z = ty ?M z \<and> ord (bd_pmt b') z = ord ?M z" if "z \<notin> bd_free_pages b'" for z
  proof -
    have "z \<notin> blk x' k'" using that fp1 fp' by auto
    moreover have "z \<noteq> x'" using \<open>z \<notin> blk x' k'\<close> by auto
    ultimately show ?thesis using fun_cong[OF ty', of z] fun_cong[OF ord', of z] ty1[of z] fun_cong[OF ord1, of z]
      by simp
  qed
  ultimately show thesis using fr fp' len' len1 by (intro that[of b']) auto
qed

text \<open>
  Splitting. While \<open>SplitBlock\<close> runs, the entry of the block being split keeps its tag although
  it is off the lists, so the set of listed blocks is explicit here.
\<close>

definition split_inv :: "buddy_pmm \<Rightarrow> nat set \<Rightarrow> nat \<Rightarrow> nat \<Rightarrow> bool" where
  "split_inv b F x i \<longleftrightarrow> lists_ok b F \<and> geo (length (bd_pmt b)) (ord (bd_pmt b)) F \<and>
     held (length (bd_pmt b)) (ord (bd_pmt b)) F x i \<and> coalesced (ord (bd_pmt b)) F \<and>
     buddies (bd_pmt b) \<subseteq> insert x F"

lemma split_step:
  assumes inv: "split_inv b F x (Suc l)" and l: "l < 10"
  obtains b' where "BuddyPmm_ListPush (b\<lparr>bd_pmt := (bd_pmt b)[x + 2 ^ l :=
      InitBuddy (of_nat l) (bd_pmt b ! (x + 2 ^ l))]\<rparr>) (x + 2 ^ l) = Some b'"
    and "split_inv b' (insert (x + 2 ^ l) F) x l" and "length (bd_pmt b') = length (bd_pmt b)"
    and "fpages (ord (bd_pmt b')) (insert (x + 2 ^ l) F) \<union> blk x l = fpages (ord (bd_pmt b)) F \<union> blk x (Suc l)"
    and "\<And>z. z \<notin> blk x (Suc l) \<Longrightarrow> ty (bd_pmt b') z = ty (bd_pmt b) z \<and> ord (bd_pmt b') z = ord (bd_pmt b) z"
proof -
  let ?M = "bd_pmt b" and ?y = "x + 2 ^ l"
  from inv have ok: "lists_ok b F" and g: "geo (length ?M) (ord ?M) F"
    and h: "held (length ?M) (ord ?M) F x (Suc l)" and co: "coalesced (ord ?M) F"
    and bs: "buddies ?M \<subseteq> insert x F" by (simp_all add: split_inv_def)
  note hs = held_split[OF h]
  from hs(1) have yF: "?y \<notin> F" by (rule held_not_free)
  from hs(1) have yl: "?y < length ?M" by (rule held_bound)
  have mt: "pm_type (InitBuddy (of_nat l) (?M ! ?y)) = Buddy" by simp
  have mo: "unat (pm_order (InitBuddy (of_nat l) (?M ! ?y))) = l" using l by (simp add: unat_of_nat)
  obtain b' where push: "BuddyPmm_ListPush (b\<lparr>bd_pmt := ?M[?y := InitBuddy (of_nat l) (?M ! ?y)]\<rparr>) ?y = Some b'"
    and ok': "lists_ok b' (insert ?y F)" and len': "length (bd_pmt b') = length ?M"
    and ord': "ord (bd_pmt b') = (ord ?M)(?y := l)" and ty': "ty (bd_pmt b') = (ty ?M)(?y := Buddy)"
    by (rule push_block[OF ok yF yl less_imp_le[OF l] mt mo])
  from h have dvd: "2 ^ Suc l dvd x" by (simp add: held_def)
  have xF: "x \<notin> F" using h by (rule held_not_free)
  have buddy: "GetBuddyPfn ?y l = x" using GetBuddyPfn_invol[of x l] unfolding buddy_low[OF dvd] .
  have "coalesced ((ord ?M)(?y := l)) (insert ?y F)"
  proof (rule coalesced_insert[OF co yF])
    show "2 ^ l dvd ?y" using hs(1) by (simp add: held_def)
  qed (simp add: buddy xF)
  moreover have "buddies (bd_pmt b') \<subseteq> insert x (insert ?y F)"
  proof
    fix z assume z: "z \<in> buddies (bd_pmt b')"
    show "z \<in> insert x (insert ?y F)"
    proof (cases "z = ?y")
      case False
      with z fun_cong[OF ty', of z] have "z \<in> buddies ?M" by (simp add: buddies_def len')
      with bs show ?thesis by blast
    qed simp
  qed
  ultimately have "split_inv b' (insert ?y F) x l"
    using ok' geo_insert[OF g hs(1)] hs(2) by (simp add: split_inv_def len' ord')
  moreover have "ty (bd_pmt b') z = ty ?M z \<and> ord (bd_pmt b') z = ord ?M z" if "z \<notin> blk x (Suc l)" for z
  proof -
    have "?y \<in> blk x (Suc l)" by (simp add: blk_def)
    with that have "z \<noteq> ?y" by blast
    then show ?thesis using fun_cong[OF ty', of z] fun_cong[OF ord', of z] by simp
  qed
  ultimately show thesis using hs(3) by (intro that[OF push]) (simp_all add: len' ord')
qed

lemma SplitBlock_loop_ok:
  assumes "split_inv b F x i" and "t \<le> i" and "i \<le> 10"
  shows "\<exists>b' F'. BuddyPmm_SplitBlock_loop b x t i = Some b' \<and> split_inv b' F' x t \<and>
     length (bd_pmt b') = length (bd_pmt b) \<and>
     fpages (ord (bd_pmt b')) F' \<union> blk x t = fpages (ord (bd_pmt b)) F \<union> blk x i \<and>
     (\<forall>z. z \<notin> blk x i \<longrightarrow> ty (bd_pmt b') z = ty (bd_pmt b) z \<and> ord (bd_pmt b') z = ord (bd_pmt b) z)"
  using assms
proof (induction i arbitrary: b F)
  case 0
  then show ?case by (intro exI[of _ b] exI[of _ F]) simp
next
  case (Suc l)
  show ?case
  proof (cases "t = Suc l")
    case True
    with Suc.prems show ?thesis by (intro exI[of _ b] exI[of _ F]) simp
  next
    case False
    with Suc.prems have t: "t \<le> l" "l < 10" by auto
    obtain b1 where push: "BuddyPmm_ListPush (b\<lparr>bd_pmt := (bd_pmt b)[x + 2 ^ l :=
        InitBuddy (of_nat l) (bd_pmt b ! (x + 2 ^ l))]\<rparr>) (x + 2 ^ l) = Some b1"
      and inv1: "split_inv b1 (insert (x + 2 ^ l) F) x l" and len1: "length (bd_pmt b1) = length (bd_pmt b)"
      and fp1: "fpages (ord (bd_pmt b1)) (insert (x + 2 ^ l) F) \<union> blk x l = fpages (ord (bd_pmt b)) F \<union> blk x (Suc l)"
      and out1: "\<And>z. z \<notin> blk x (Suc l) \<Longrightarrow> ty (bd_pmt b1) z = ty (bd_pmt b) z \<and> ord (bd_pmt b1) z = ord (bd_pmt b) z"
      by (rule split_step[OF Suc.prems(1) t(2)]) blast
    from Suc.prems(1) have h: "held (length (bd_pmt b)) (ord (bd_pmt b)) F x (Suc l)" by (simp add: split_inv_def)
    then have dvd: "2 ^ Suc l dvd x" by (simp add: held_def)
    have yl: "x + 2 ^ l < length (bd_pmt b)" using held_split(1)[OF h] by (rule held_bound)
    have loop: "BuddyPmm_SplitBlock_loop b x t (Suc l) = BuddyPmm_SplitBlock_loop b1 x t l"
      using t yl push buddy_low[OF dvd] by (simp add: Let_def)
    from Suc.IH[OF inv1 t(1) less_imp_le[OF t(2)]] obtain b' F' where
      *: "BuddyPmm_SplitBlock_loop b1 x t l = Some b'" "split_inv b' F' x t"
      "length (bd_pmt b') = length (bd_pmt b1)"
      "fpages (ord (bd_pmt b')) F' \<union> blk x t = fpages (ord (bd_pmt b1)) (insert (x + 2 ^ l) F) \<union> blk x l"
      "\<And>z. z \<notin> blk x l \<Longrightarrow> ty (bd_pmt b') z = ty (bd_pmt b1) z \<and> ord (bd_pmt b') z = ord (bd_pmt b1) z"
      by blast
    have "ty (bd_pmt b') z = ty (bd_pmt b) z \<and> ord (bd_pmt b') z = ord (bd_pmt b) z" if "z \<notin> blk x (Suc l)" for z
      using *(5)[of z] out1[OF that] that by (auto simp: blk_Suc(1))
    with loop * len1 fp1 show ?thesis by (intro exI[of _ b'] exI[of _ F']) simp
  qed
qed

text \<open>Tagging the block that is handed out ends the allocation.\<close>

lemma finish_alloc:
  assumes inv: "split_inv b F x k" and k: "unat order = k" and m: "m = InitAllocated order m0"
    and b': "b' = b\<lparr>bd_pmt := (bd_pmt b)[x := m]\<rparr>"
  shows "bgeo b'" and "bcoalesced b'" and "bd_free_pages b' = fpages (ord (bd_pmt b)) F"
    and "ty (bd_pmt b') = (ty (bd_pmt b))(x := Allocated)" and "ord (bd_pmt b') = (ord (bd_pmt b))(x := k)"
    and "length (bd_pmt b') = length (bd_pmt b)"
proof -
  let ?M = "bd_pmt b"
  from inv have ok: "lists_ok b F" and g: "geo (length ?M) (ord ?M) F"
    and h: "held (length ?M) (ord ?M) F x k" and co: "coalesced (ord ?M) F"
    and bs: "buddies ?M \<subseteq> insert x F" by (simp_all add: split_inv_def)
  from h have xF: "x \<notin> F" by (rule held_not_free)
  from h have xl: "x < length ?M" by (rule held_bound)
  show ty': "ty (bd_pmt b') = (ty ?M)(x := Allocated)" and ord': "ord (bd_pmt b') = (ord ?M)(x := k)"
    and len': "length (bd_pmt b') = length ?M"
    using xl k m by (auto simp: b' nth_list_update)
  have keep: "ord (bd_pmt b') z = ord ?M z" if "z \<in> F" for z
    using that xF fun_cong[OF ord', of z] by auto
  have bs': "buddies (bd_pmt b') = F"
  proof (intro set_eqI iffI)
    fix z assume "z \<in> buddies (bd_pmt b')"
    with fun_cong[OF ty', of z] bs show "z \<in> F" by (auto simp: buddies_def len' split: if_splits)
  next
    fix z assume z: "z \<in> F"
    with lists_ok_node[OF ok z] fun_cong[OF ty', of z] xF show "z \<in> buddies (bd_pmt b')"
      by (auto simp: buddies_def len')
  qed
  have "lists_ok b' F" unfolding b' by (rule lists_ok_put[OF ok xF xl])
  moreover have "geo (length ?M) (ord (bd_pmt b')) F"
    using g geo_cong[of F "ord (bd_pmt b')" "ord ?M", OF keep] by blast
  ultimately show "bgeo b'" by (simp add: bgeo_def bs' len')
  show "bcoalesced b'" using co coalesced_cong[of F "ord (bd_pmt b')" "ord ?M", OF keep]
    unfolding bcoalesced_def bs' by blast
  show "bd_free_pages b' = fpages (ord ?M) F" unfolding bd_free_pages_def bs'
    by (rule fpages_cong) (rule keep)
qed

section \<open>Allocation\<close>

lemma list_head:
  assumes ok: "lists_ok b F" and k: "k \<le> 10"
  shows "bd_freelist_table b ! k = None \<longleftrightarrow> (\<forall>x\<in>F. ord (bd_pmt b) x \<noteq> k)"
    and "bd_freelist_table b ! k = Some x \<Longrightarrow> x \<in> F \<and> ord (bd_pmt b) x = k"
proof -
  from ok k obtain xs q where d: "dll (nx (bd_pmt b)) (pv (bd_pmt b)) (bd_freelist_table b ! k) None xs None q"
    and xs: "set xs = {x \<in> F. ord (bd_pmt b) x = k}" unfolding lists_ok_def by blast
  show "bd_freelist_table b ! k = None \<longleftrightarrow> (\<forall>x\<in>F. ord (bd_pmt b) x \<noteq> k)"
    using dll_head[OF d] xs by (cases xs) auto
  show "bd_freelist_table b ! k = Some x \<Longrightarrow> x \<in> F \<and> ord (bd_pmt b) x = k"
    using dll_head[OF d] xs by (cases xs) auto
qed

text \<open>What a successful allocation of a block of the given order promises.\<close>

definition alloc_post :: "buddy_pmm \<Rightarrow> nat \<Rightarrow> nat \<Rightarrow> buddy_pmm \<Rightarrow> bool" where
  "alloc_post b k x b' \<longleftrightarrow> bgeo b' \<and> bcoalesced b' \<and> 2 ^ k dvd x \<and> blk x k \<subseteq> bd_free_pages b \<and>
     bd_free_pages b' = bd_free_pages b - blk x k \<and> length (bd_pmt b') = length (bd_pmt b) \<and>
     ty (bd_pmt b') x = Allocated \<and> ord (bd_pmt b') x = k \<and> x + 2 ^ k \<le> length (bd_pmt b) \<and>
     (\<forall>z. z \<notin> bd_free_pages b \<longrightarrow>
        ty (bd_pmt b') z = ty (bd_pmt b) z \<and> ord (bd_pmt b') z = ord (bd_pmt b) z)"

lemma split_block_ok:
  assumes inv: "split_inv b F x c" and c: "ord (bd_pmt b) x = c" "c \<le> 10" and lt: "unat order \<le> c"
  obtains b2 F' where
    "(if unat order < c then BuddyPmm_SplitBlock b x order else Some (x, b)) = Some (x, b2)"
    and "split_inv b2 F' x (unat order)" and "length (bd_pmt b2) = length (bd_pmt b)"
    and "fpages (ord (bd_pmt b2)) F' \<union> blk x (unat order) = fpages (ord (bd_pmt b)) F \<union> blk x c"
    and "\<And>z. z \<notin> blk x c \<Longrightarrow> ty (bd_pmt b2) z = ty (bd_pmt b) z \<and> ord (bd_pmt b2) z = ord (bd_pmt b) z"
proof (cases "unat order < c")
  case False
  with lt have "unat order = c" by simp
  with inv show thesis by (intro that[of b F]) auto
next
  case True
  from SplitBlock_loop_ok[OF inv lt c(2)] obtain b1 F' where
    loop: "BuddyPmm_SplitBlock_loop b x (unat order) c = Some b1" and inv1: "split_inv b1 F' x (unat order)"
    and len1: "length (bd_pmt b1) = length (bd_pmt b)"
    and fp1: "fpages (ord (bd_pmt b1)) F' \<union> blk x (unat order) = fpages (ord (bd_pmt b)) F \<union> blk x c"
    and out1: "\<And>z. z \<notin> blk x c \<Longrightarrow> ty (bd_pmt b1) z = ty (bd_pmt b) z \<and> ord (bd_pmt b1) z = ord (bd_pmt b) z"
    by blast
  let ?b2 = "b1\<lparr>bd_pmt := (bd_pmt b1)[x := (bd_pmt b1 ! x)\<lparr>pm_order := order\<rparr>]\<rparr>"
  from inv1 have h1: "held (length (bd_pmt b1)) (ord (bd_pmt b1)) F' x (unat order)" by (simp add: split_inv_def)
  have xl1: "x < length (bd_pmt b1)" using h1 by (rule held_bound)
  have xF: "x \<notin> F'" using h1 by (rule held_not_free)
  have "order < pm_order (bd_pmt b ! x)" using True c(1) by (simp add: word_less_nat_alt)
  then have sp: "BuddyPmm_SplitBlock b x order = Some (x, ?b2)"
    using xl1 len1 loop c(1) by (simp add: BuddyPmm_SplitBlock_def Let_def)
  have M2: "length (bd_pmt ?b2) = length (bd_pmt b1)" "ty (bd_pmt ?b2) = ty (bd_pmt b1)"
    "ord (bd_pmt ?b2) = (ord (bd_pmt b1))(x := unat order)"
    using xl1 by (auto simp: nth_list_update)
  have keep: "ord (bd_pmt ?b2) z = ord (bd_pmt b1) z" if "z \<in> F'" for z
    using that xF fun_cong[OF M2(3), of z] by auto
  have "buddies (bd_pmt ?b2) = buddies (bd_pmt b1)"
    using fun_cong[OF M2(2)] M2(1) by (auto simp: buddies_def)
  then have "split_inv ?b2 F' x (unat order)"
    using inv1 lists_ok_put[OF _ xF xl1] geo_cong[of F' "ord (bd_pmt ?b2)" "ord (bd_pmt b1)", OF keep]
      held_cong[of F' "ord (bd_pmt ?b2)" "ord (bd_pmt b1)", OF keep]
      coalesced_cong[of F' "ord (bd_pmt ?b2)" "ord (bd_pmt b1)", OF keep]
    unfolding split_inv_def M2(1) by simp
  moreover have "fpages (ord (bd_pmt ?b2)) F' = fpages (ord (bd_pmt b1)) F'" by (rule fpages_cong) (rule keep)
  moreover have "ty (bd_pmt ?b2) z = ty (bd_pmt b) z \<and> ord (bd_pmt ?b2) z = ord (bd_pmt b) z" if "z \<notin> blk x c" for z
  proof -
    from that have "z \<noteq> x" by auto
    with out1[OF that] fun_cong[OF M2(2), of z] fun_cong[OF M2(3), of z] show ?thesis by simp
  qed
  ultimately show thesis using True sp fp1 M2(1) len1 by (intro that[of ?b2 F']) auto
qed

lemma Alloc_take:
  assumes g: "bgeo b" and co: "bcoalesced b" and x: "x \<in> buddies (bd_pmt b)" "ord (bd_pmt b) x = c"
    and lt: "unat order \<le> c"
  obtains b1 b2 where "BuddyPmm_ListRemove b x = Some b1"
    and "(if unat order < c then BuddyPmm_SplitBlock b1 x order else Some (x, b1)) = Some (x, b2)"
    and "x < length (bd_pmt b2)"
    and "alloc_post b (unat order) x
      (b2\<lparr>bd_pmt := (bd_pmt b2)[x := InitAllocated order (bd_pmt b2 ! x)]\<rparr>)"
proof -
  let ?M = "bd_pmt b" and ?F = "buddies (bd_pmt b) - {x}" and ?k = "unat order"
  from g have ok: "lists_ok b (buddies ?M)" and gg: "geo (length ?M) (ord ?M) (buddies ?M)"
    by (simp_all add: bgeo_def)
  from lists_ok_node[OF ok x(1)] x(2) have c: "c \<le> 10" by simp
  from ListRemove_lists[OF ok x(1)] obtain b1 where b1: "BuddyPmm_ListRemove b x = Some b1"
    "same_shape ?M (bd_pmt b1)" "lists_ok b1 ?F" by blast
  from b1(2) have sh: "length (bd_pmt b1) = length ?M" "ty (bd_pmt b1) = ty ?M" "ord (bd_pmt b1) = ord ?M"
    by (simp_all add: same_shape_def)
  have bs1: "buddies (bd_pmt b1) = buddies ?M" using fun_cong[OF sh(2)] sh(1) by (auto simp: buddies_def)
  have inv1: "split_inv b1 ?F x c"
    using b1(3) geo_remove(1,2)[OF gg x(1)] coalesced_mono[of "ord ?M" "buddies ?M" ?F] co x(2)
    unfolding split_inv_def sh(1,3) bs1 bcoalesced_def by auto
  have c1: "ord (bd_pmt b1) x = c" using fun_cong[OF sh(3), of x] x(2) by simp
  obtain b2 F' where sp: "(if ?k < c then BuddyPmm_SplitBlock b1 x order else Some (x, b1)) = Some (x, b2)"
    and inv2: "split_inv b2 F' x ?k" and len2: "length (bd_pmt b2) = length (bd_pmt b1)"
    and fp2: "fpages (ord (bd_pmt b2)) F' \<union> blk x ?k = fpages (ord (bd_pmt b1)) ?F \<union> blk x c"
    and out2: "\<And>z. z \<notin> blk x c \<Longrightarrow> ty (bd_pmt b2) z = ty (bd_pmt b1) z \<and> ord (bd_pmt b2) z = ord (bd_pmt b1) z"
    by (rule split_block_ok[OF inv1 c1 c lt]) blast
  let ?b3 = "b2\<lparr>bd_pmt := (bd_pmt b2)[x := InitAllocated order (bd_pmt b2 ! x)]\<rparr>"
  note fin = finish_alloc[OF inv2 refl refl refl, of "bd_pmt b2 ! x"]
  from inv2 have h2: "held (length (bd_pmt b2)) (ord (bd_pmt b2)) F' x ?k" by (simp add: split_inv_def)
  have inside: "blk x c \<subseteq> bd_free_pages b"
    using UN_upper[OF x(1), of "\<lambda>z. blk z (ord ?M z)"] x(2) by (simp add: bd_free_pages_def fpages_def)
  have "fpages (ord (bd_pmt b1)) ?F = bd_free_pages b - blk x c"
    unfolding sh(3) using geo_remove(3)[OF gg x(1)] x(2) by (simp add: bd_free_pages_def)
  with fp2 inside have "fpages (ord (bd_pmt b2)) F' \<union> blk x ?k = bd_free_pages b" by auto
  with h2 have fp: "bd_free_pages ?b3 = bd_free_pages b - blk x ?k" "blk x ?k \<subseteq> bd_free_pages b"
    unfolding fin(3) held_def by auto
  have "ty (bd_pmt ?b3) z = ty ?M z \<and> ord (bd_pmt ?b3) z = ord ?M z" if "z \<notin> bd_free_pages b" for z
  proof -
    have z: "z \<notin> blk x c" "z \<noteq> x" using that inside subsetD[OF inside self_in_blk] by auto
    have "ty (bd_pmt b1) z = ty ?M z" "ord (bd_pmt b1) z = ord ?M z"
      using fun_cong[OF sh(2), of z] fun_cong[OF sh(3), of z] by simp_all
    with z out2[of z] show ?thesis using fun_cong[OF fin(4), of z] fun_cong[OF fin(5), of z] by simp
  qed
  moreover have "ty (bd_pmt ?b3) x = Allocated" "ord (bd_pmt ?b3) x = ?k"
    using fun_cong[OF fin(4), of x] fun_cong[OF fin(5), of x] by simp_all
  ultimately have "alloc_post b ?k x ?b3"
    using fin(1,2,6) fp h2 len2 sh(1) unfolding alloc_post_def held_def by simp
  with that[OF b1(1) sp held_bound[OF h2]] show thesis .
qed

lemma Alloc_loop_ok:
  assumes g: "bgeo b" and co: "bcoalesced b" and "c + n = 11" and "unat order \<le> c"
  shows "if \<exists>y\<in>buddies (bd_pmt b). c \<le> ord (bd_pmt b) y
    then \<exists>x b'. BuddyPmm_Alloc_loop b order c n = Some (Inr (PageFrameAddr (of_nat x)), b') \<and>
      alloc_post b (unat order) x b'
    else BuddyPmm_Alloc_loop b order c n = Some (Inl OutOfMemory, b)"
  using assms(3,4)
proof (induction n arbitrary: c)
  case 0
  have "\<not> c \<le> ord (bd_pmt b) y" if "y \<in> buddies (bd_pmt b)" for y
    using lists_ok_node[of b, OF _ that] g 0 by (simp add: bgeo_def)
  then have "\<not> (\<exists>y\<in>buddies (bd_pmt b). c \<le> ord (bd_pmt b) y)" by blast
  then show ?case by simp
next
  case (Suc n)
  from g have ok: "lists_ok b (buddies (bd_pmt b))" by (simp add: bgeo_def)
  then have T: "length (bd_freelist_table b) = 11" by (simp add: lists_ok_def)
  from Suc.prems have c: "c \<le> 10" by simp
  show ?case
  proof (cases "bd_freelist_table b ! c")
    case None
    with list_head(1)[OF ok c] have none: "\<forall>y\<in>buddies (bd_pmt b). ord (bd_pmt b) y \<noteq> c" by simp
    have "BuddyPmm_Alloc_loop b order c (Suc n) = BuddyPmm_Alloc_loop b order (Suc c) n"
      using None T c by simp
    moreover have "(\<exists>y\<in>buddies (bd_pmt b). c \<le> ord (bd_pmt b) y) \<longleftrightarrow>
        (\<exists>y\<in>buddies (bd_pmt b). Suc c \<le> ord (bd_pmt b) y)"
      using none by (intro bex_cong refl) (auto simp: Suc_le_eq order.order_iff_strict)
    ultimately show ?thesis using Suc.IH[of "Suc c"] Suc.prems by (simp only: ) simp
  next
    case (Some x)
    with list_head(2)[OF ok c] have x: "x \<in> buddies (bd_pmt b)" "ord (bd_pmt b) x = c" by auto
    obtain b1 b2 where rm: "BuddyPmm_ListRemove b x = Some b1"
      and sp: "(if unat order < c then BuddyPmm_SplitBlock b1 x order else Some (x, b1)) = Some (x, b2)"
      and xl: "x < length (bd_pmt b2)"
      and post: "alloc_post b (unat order) x
        (b2\<lparr>bd_pmt := (bd_pmt b2)[x := InitAllocated order (bd_pmt b2 ! x)]\<rparr>)"
      by (rule Alloc_take[OF g co x Suc.prems(2)])
    have "BuddyPmm_Alloc_loop b order c (Suc n) =
      Some (Inr (PageFrameAddr (of_nat x)), b2\<lparr>bd_pmt := (bd_pmt b2)[x := InitAllocated order (bd_pmt b2 ! x)]\<rparr>)"
      using Some T c rm sp xl by simp
    with post x show ?thesis by auto
  qed
qed

section \<open>The allocator contract\<close>

definition bd_pages :: "u8 \<Rightarrow> nat" where
  "bd_pages order = 2 ^ unat order"

definition bd_wf :: "buddy_pmm \<Rightarrow> bool" where
  "bd_wf b \<longleftrightarrow> bgeo b \<and> bcoalesced b \<and> length (bd_pmt b) * 4096 \<le> 2 ^ 64"

definition bd_live :: "buddy_pmm \<Rightarrow> u64 \<Rightarrow> u8 \<Rightarrow> bool" where
  "bd_live b a r \<longleftrightarrow> unat r \<le> 10 \<and> (\<exists>x. a = PageFrameAddr (of_nat x) \<and> bheld b x (unat r) \<and>
     ty (bd_pmt b) x = Allocated \<and> ord (bd_pmt b) x = unat r)"

definition bd_invar :: "buddy_pmm \<Rightarrow> (u64 \<times> u8) list \<Rightarrow> bool" where
  "bd_invar b live \<longleftrightarrow> bd_wf b \<and> live_disjoint bd_pages live \<and>
     (\<forall>a r. (a, r) \<in> set live \<longrightarrow> bd_live b a r)"

lemma block_pages_blk:
  "bheld b x k \<Longrightarrow> bd_wf b \<Longrightarrow> block_pages (2 ^ k) (PageFrameAddr (of_nat x)) = blk x k"
  unfolding bheld_def bd_wf_def blk_def
  by (rule block_pages_PageFrameAddr) (auto dest: held_bound)

lemma Alloc_ok:
  assumes "bd_wf b" and "unat order \<le> 10"
  shows "if \<exists>y\<in>buddies (bd_pmt b). unat order \<le> ord (bd_pmt b) y
    then \<exists>x b'. BuddyPmm_Alloc b order = Some (Inr (PageFrameAddr (of_nat x)), b') \<and>
      alloc_post b (unat order) x b'
    else BuddyPmm_Alloc b order = Some (Inl OutOfMemory, b)"
  using Alloc_loop_ok[of b "unat order" "11 - unat order" order] assms
  by (simp add: BuddyPmm_Alloc_def bd_wf_def)

lemma Alloc_cases:
  assumes "bd_wf b"
  obtains (err) e where "BuddyPmm_Alloc b order = Some (Inl e, b)"
  | (ok) x b' where "unat order \<le> 10"
      and "BuddyPmm_Alloc b order = Some (Inr (PageFrameAddr (of_nat x)), b')"
      and "alloc_post b (unat order) x b'"
proof (cases "unat order \<le> 10")
  case True
  with Alloc_ok[OF assms True] err ok show thesis by (auto split: if_splits)
next
  case False
  with err show thesis by (simp add: BuddyPmm_Alloc_def)
qed

lemma alloc_post_wf: "bd_wf b \<Longrightarrow> alloc_post b k x b' \<Longrightarrow> bd_wf b'"
  by (simp add: bd_wf_def alloc_post_def)

lemma alloc_post_held: "alloc_post b k x b' \<Longrightarrow> bheld b' x k"
  by (auto simp: alloc_post_def bheld_def held_def bd_free_pages_def)

lemma bheld_iff: "bheld b x k \<longleftrightarrow> 2 ^ k dvd x \<and> x + 2 ^ k \<le> length (bd_pmt b) \<and> blk x k \<inter> bd_free_pages b = {}"
  by (simp add: bheld_def held_def bd_free_pages_def)

lemma bd_alloc_invar:
  assumes inv: "bd_invar b live" and al: "BuddyPmm_Alloc b r = Some (Inr a, b')"
  shows "block_pages (bd_pages r) a \<subseteq> bd_free_pages b"
    and "bd_free_pages b' = bd_free_pages b - block_pages (bd_pages r) a"
    and "bd_invar b' ((a, r) # live)"
proof -
  from inv have wf: "bd_wf b" by (simp add: bd_invar_def)
  obtain x where r: "unat r \<le> 10" and a: "a = PageFrameAddr (of_nat x)" and post: "alloc_post b (unat r) x b'"
    by (rule Alloc_cases[OF wf, of r]) (use al in auto)
  note wf' = alloc_post_wf[OF wf post] and h' = alloc_post_held[OF post]
  have blk: "block_pages (bd_pages r) a = blk x (unat r)"
    unfolding a bd_pages_def by (rule block_pages_blk[OF h' wf'])
  from post show sub: "block_pages (bd_pages r) a \<subseteq> bd_free_pages b"
    and fp: "bd_free_pages b' = bd_free_pages b - block_pages (bd_pages r) a"
    unfolding blk by (simp_all add: alloc_post_def)
  have old: "block_pages (bd_pages s) c \<inter> bd_free_pages b = {} \<and> bd_live b' c s" if "(c, s) \<in> set live" for c s
  proof -
    from that inv obtain y where y: "unat s \<le> 10" "c = PageFrameAddr (of_nat y)" "bheld b y (unat s)"
      "ty (bd_pmt b) y = Allocated" "ord (bd_pmt b) y = unat s" unfolding bd_invar_def bd_live_def by blast
    then have "bheld b' y (unat s)" using post by (auto simp: bheld_iff alloc_post_def)
    moreover have "y \<notin> bd_free_pages b" using y(3) self_in_blk[of y "unat s"] unfolding bheld_iff by blast
    ultimately have "bd_live b' c s" using y post by (auto simp: bd_live_def alloc_post_def)
    moreover have "block_pages (bd_pages s) c = blk y (unat s)"
      unfolding y(2) bd_pages_def by (rule block_pages_blk[OF y(3) wf])
    ultimately show ?thesis using y(3) by (simp add: bheld_iff)
  qed
  then have "block_pages (bd_pages r) a \<inter> live_pages bd_pages live = {}"
    unfolding live_pages_disjoint using sub by blast
  moreover have "bd_live b' a r" using r a h' post by (auto simp: bd_live_def alloc_post_def)
  ultimately show "bd_invar b' ((a, r) # live)" using inv wf' old by (auto simp: bd_invar_def)
qed

lemma bd_free_invar:
  assumes inv: "bd_invar b (xs @ (a, r) # ys)"
  obtains b' where "BuddyPmm_Free b a = Some b'"
    and "bd_free_pages b' = bd_free_pages b \<union> block_pages (bd_pages r) a" and "bd_invar b' (xs @ ys)"
proof -
  from inv have wf: "bd_wf b" and "bd_live b a r" by (auto simp: bd_invar_def)
  then obtain x where r: "unat r \<le> 10" and a: "a = PageFrameAddr (of_nat x)" and h: "bheld b x (unat r)"
    and meta: "ty (bd_pmt b) x = Allocated" "ord (bd_pmt b) x = unat r" by (auto simp: bd_live_def)
  from wf have g: "bgeo b" and co: "bcoalesced b" and sz: "length (bd_pmt b) * 4096 \<le> 2 ^ 64"
    by (simp_all add: bd_wf_def)
  obtain b' where fr: "BuddyPmm_Free b (PageFrameAddr (of_nat x)) = Some b'" and g': "bgeo b'" and co': "bcoalesced b'"
    and fp: "bd_free_pages b' = bd_free_pages b \<union> blk x (unat r)" and len: "length (bd_pmt b') = length (bd_pmt b)"
    and out: "\<And>z. z \<notin> bd_free_pages b' \<Longrightarrow> ty (bd_pmt b') z = ty (bd_pmt b) z \<and> ord (bd_pmt b') z = ord (bd_pmt b) z"
    by (rule Free_ok[OF g co h r meta sz]) blast
  have blk: "block_pages (bd_pages r) a = blk x (unat r)"
    unfolding a bd_pages_def by (rule block_pages_blk[OF h wf])
  have wf': "bd_wf b'" using g' co' sz len by (simp add: bd_wf_def)
  have disj: "block_pages (bd_pages r) a \<inter> live_pages bd_pages (xs @ ys) = {}"
    and dj: "live_disjoint bd_pages (xs @ ys)"
    using inv by (auto simp: bd_invar_def live_disjoint_append)
  have "bd_live b' c s" if cs: "(c, s) \<in> set (xs @ ys)" for c s
  proof -
    from cs inv have "bd_live b c s" unfolding bd_invar_def by auto
    then obtain y where y: "unat s \<le> 10" "c = PageFrameAddr (of_nat y)" "bheld b y (unat s)"
      "ty (bd_pmt b) y = Allocated" "ord (bd_pmt b) y = unat s" unfolding bd_live_def by blast
    have "block_pages (bd_pages s) c = blk y (unat s)"
      unfolding y(2) bd_pages_def by (rule block_pages_blk[OF y(3) wf])
    with cs disj blk have "blk y (unat s) \<inter> blk x (unat r) = {}"
      unfolding live_pages_disjoint by blast
    with y(3) fp len have h': "bheld b' y (unat s)" by (auto simp: bheld_iff)
    then have "y \<notin> bd_free_pages b'" using self_in_blk[of y "unat s"] unfolding bheld_iff by blast
    with out[of y] y h' show ?thesis by (auto simp: bd_live_def)
  qed
  with wf' dj have "bd_invar b' (xs @ ys)" by (simp add: bd_invar_def)
  with that fr fp show thesis unfolding a[symmetric] blk by blast
qed

text \<open>A client frees by address only; the order of the block is read back from the metadata.\<close>

definition BuddyPmm_Free_req :: "buddy_pmm \<Rightarrow> u64 \<Rightarrow> u8 \<Rightarrow> buddy_pmm option" where
  "BuddyPmm_Free_req b a r = BuddyPmm_Free b a"

interpretation buddy: page_allocator BuddyPmm_Alloc BuddyPmm_Free_req bd_pages bd_invar bd_free_pages
proof (unfold_locales, goal_cases)
  case (1 s live r)
  then have "bd_wf s" by (simp add: bd_invar_def)
  then show ?case by (rule Alloc_cases[of s r]) auto
next
  case (2 s live r e s')
  then have "bd_wf s" by (simp add: bd_invar_def)
  then show ?case by (rule Alloc_cases[of s r]) (use 2 in auto)
next
  case (3 s live r a s')
  then show ?case using bd_alloc_invar(1,2) by blast
next
  case (4 s live r a s')
  then show ?case using bd_alloc_invar(3) by blast
next
  case (5 s xs a r ys)
  then show ?case unfolding BuddyPmm_Free_req_def by (rule bd_free_invar) auto
next
  case (6 s xs a r ys s')
  then show ?case unfolding BuddyPmm_Free_req_def by (elim bd_free_invar) auto
next
  case (7 s xs a r ys s')
  then show ?case unfolding BuddyPmm_Free_req_def by (elim bd_free_invar) auto
qed

section \<open>Initialisation\<close>

lemma unat_bound_u64: "unat (w :: u64) < 2 ^ 64"
  by (rule order.strict_trans2[OF unsigned_less]) simp

lemma page_not_in_blk0: "blk x 0 = {x}"
  by (auto simp: blk_def)

lemma Init_loop_ok:
  assumes "bd_wf b" and "bp_wf p" and "length (bd_pmt b) = i + n" and "i + n \<le> bp_total p"
    and "unat freed \<le> i"
    and "\<And>j. i \<le> j \<Longrightarrow> j < i + n \<Longrightarrow>
      j \<notin> bd_free_pages b \<and> ty (bd_pmt b) j = Allocated \<and> ord (bd_pmt b) j = 0"
  shows "\<exists>b'. BuddyPmm_Init_loop p limit b freed i n = Some b' \<and> bd_wf b' \<and>
     length (bd_pmt b') = length (bd_pmt b) \<and>
     bd_free_pages b' = bd_free_pages b \<union>
       set (take (unat limit - unat freed) (filter (\<lambda>j. j \<in> bp_free_pages p) [i..<i + n]))"
  using assms
proof (induction n arbitrary: b i freed)
  case 0
  then show ?case by simp
next
  case (Suc n)
  let ?fs = "\<lambda>i n. filter (\<lambda>j. j \<in> bp_free_pages p) [i..<i + n]"
  have up: "[i..<i + Suc n] = i # [Suc i..<Suc i + n]" by (simp add: upt_conv_Cons)
  show ?case
  proof (cases "freed < limit")
    case False
    then have "unat limit - unat freed = 0" by (simp add: word_less_nat_alt)
    with False Suc.prems(1) show ?thesis by simp
  next
    case lt: True
    then have ltn: "unat freed < unat limit" by (simp add: word_less_nat_alt)
    have free: "BitmapPmm_IsFree p i = Some (i \<in> bp_free_pages p)"
      using IsFree_wf[OF Suc.prems(2), of i] Suc.prems(4) by simp
    have rest: "j \<notin> bd_free_pages b \<and> ty (bd_pmt b) j = Allocated \<and> ord (bd_pmt b) j = 0"
      if "Suc i \<le> j" "j < Suc i + n" for j using Suc.prems(6)[of j] that by simp
    show ?thesis
    proof (cases "i \<in> bp_free_pages p")
      case False
      then have "BuddyPmm_Init_loop p limit b freed i (Suc n) = BuddyPmm_Init_loop p limit b freed (Suc i) n"
        using lt free by simp
      moreover have "?fs i (Suc n) = ?fs (Suc i) n" using False unfolding up by simp
      moreover obtain b' where "BuddyPmm_Init_loop p limit b freed (Suc i) n = Some b'" "bd_wf b'" "length (bd_pmt b') = length (bd_pmt b)"
        "bd_free_pages b' = bd_free_pages b \<union> set (take (unat limit - unat freed) (?fs (Suc i) n))"
        using Suc.IH[OF Suc.prems(1,2), of "Suc i" freed] Suc.prems(3-5) rest by auto
      ultimately show ?thesis by (simp only: ) blast
    next
      case True
      have h: "bheld b i 0" using Suc.prems(3) Suc.prems(6)[of i] by (simp add: bheld_iff page_not_in_blk0)
      from Suc.prems(6)[of i] have meta: "ty (bd_pmt b) i = Allocated" "ord (bd_pmt b) i = 0" by auto
      from Suc.prems(1) have g: "bgeo b" and co: "bcoalesced b" and sz: "length (bd_pmt b) * 4096 \<le> 2 ^ 64"
        by (simp_all add: bd_wf_def)
      obtain b1 where fr: "BuddyPmm_Free b (PageFrameAddr (of_nat i)) = Some b1" and g1: "bgeo b1" "bcoalesced b1"
        and fp: "bd_free_pages b1 = bd_free_pages b \<union> blk i 0" and len: "length (bd_pmt b1) = length (bd_pmt b)"
        and out: "\<And>z. z \<notin> bd_free_pages b1 \<Longrightarrow> ty (bd_pmt b1) z = ty (bd_pmt b) z \<and> ord (bd_pmt b1) z = ord (bd_pmt b) z"
        by (rule Free_ok[OF g co h _ meta sz]) auto
      have wf1: "bd_wf b1" using g1 sz len by (simp add: bd_wf_def)
      have "unat freed + 1 < 2 ^ 64" using ltn unat_bound_u64[of limit] by simp
      then have f1: "unat (freed + 1) = unat freed + 1" by (simp add: unat_word_ariths)
      have rest1: "j \<notin> bd_free_pages b1 \<and> ty (bd_pmt b1) j = Allocated \<and> ord (bd_pmt b1) j = 0"
        if "Suc i \<le> j" "j < Suc i + n" for j
      proof -
        have "j \<notin> bd_free_pages b1" using rest[OF that] that by (auto simp: fp page_not_in_blk0)
        with out[of j] rest[OF that] show ?thesis by simp
      qed
      have "BuddyPmm_Init_loop p limit b freed i (Suc n) = BuddyPmm_Init_loop p limit b1 (freed + 1) (Suc i) n"
        using lt free True fr by simp
      moreover obtain b' where "BuddyPmm_Init_loop p limit b1 (freed + 1) (Suc i) n = Some b'" "bd_wf b'" "length (bd_pmt b') = length (bd_pmt b)"
        "bd_free_pages b' = bd_free_pages b1 \<union> set (take (unat limit - unat (freed + 1)) (?fs (Suc i) n))"
        using Suc.IH[OF wf1 Suc.prems(2), of "Suc i" "freed + 1"] Suc.prems(3-5) rest1 len f1 by auto
      moreover have "take (unat limit - unat freed) (?fs i (Suc n)) = i # take (unat limit - unat (freed + 1)) (?fs (Suc i) n)"
        using True ltn f1 unfolding up by (simp add: take_Cons' del: upt_Suc)
      ultimately show ?thesis
        by (auto simp: fp page_not_in_blk0 simp del: BuddyPmm_Init_loop.simps upt_Suc)
    qed
  qed
qed

lemma dll_Nil: "dll nxt prv None None [] None None"
  by simp

lemma bd_initial:
  fixes pmt :: page_meta_table
  assumes "length pmt * 4096 \<le> 2 ^ 64"
  defines "b \<equiv> \<lparr>bd_freelist_table = replicate 11 None, bd_pmt = map (InitAllocated 0) pmt\<rparr>"
  shows "bd_wf b" and "bd_free_pages b = {}"
    and "\<And>j. j < length pmt \<Longrightarrow> ty (bd_pmt b) j = Allocated \<and> ord (bd_pmt b) j = 0"
proof -
  have none: "buddies (bd_pmt b) = {}" by (auto simp: b_def buddies_def)
  have "lists_ok b {}" unfolding lists_ok_def by (auto simp: b_def intro!: exI[of _ "[]"])
  moreover have "length (bd_pmt b) = length pmt" by (simp add: b_def)
  ultimately show "bd_wf b" using assms(1)
    by (simp add: bd_wf_def bgeo_def bcoalesced_def none geo_def coalesced_def)
  show "bd_free_pages b = {}" by (simp add: bd_free_pages_def none fpages_def)
  show "\<And>j. j < length pmt \<Longrightarrow> ty (bd_pmt b) j = Allocated \<and> ord (bd_pmt b) j = 0"
    by (simp add: b_def)
qed

lemma BuddyPmm_Init_ok:
  assumes "bp_wf p" and "length pmt \<le> bp_total p"
  shows "\<exists>b. BuddyPmm_Init p pmt page_limit = Some b \<and> bd_wf b \<and> length (bd_pmt b) = length pmt \<and>
     bd_free_pages b = set (take (unat page_limit) (filter (\<lambda>i. i \<in> bp_free_pages p) [0..<length pmt]))"
proof -
  have sz: "length pmt * 4096 \<le> 2 ^ 64" using assms by (simp add: bp_wf_def bp_total_def)
  note init = bd_initial[OF sz]
  show ?thesis
    using Init_loop_ok[OF init(1) assms(1), of 0 "length pmt" 0 page_limit] init(2,3) assms(2)
    by (simp add: BuddyPmm_Init_def TotalPages_def)
qed

section \<open>Size to order\<close>

lemma countl_zero_bounds:
  assumes "w \<noteq> 0"
  obtains c where "countl_zero w = c" and "c < 64" and "2 ^ (63 - c) \<le> unat w" and "unat w < 2 ^ (64 - c)"
proof -
  let ?P = "\<lambda>i. \<not> bit w (63 - i)"
  define c where "c = countl_zero w"
  from assms obtain k where k: "bit w k" by (auto simp: bit_eq_iff)
  then have k64: "k < 64" using bit_imp_le_length[OF k] by simp
  have "c < 64"
  proof (rule ccontr)
    assume "\<not> c < 64"
    moreover have "c \<le> 64" unfolding c_def countl_zero_def using length_takeWhile_le[of ?P "[0..<64]"] by simp
    ultimately have "takeWhile ?P [0..<64] = [0..<64]"
      unfolding c_def countl_zero_def
      by (metis length_upt minus_nat.diff_0 nat_neq_iff order.strict_iff_order takeWhile_eq_take take_all_iff verit_comp_simplify1(2))
    then have "\<forall>i\<in>set [0..<64]. ?P i" by (simp add: takeWhile_eq_all_conv)
    with k k64 show False by (auto dest: bspec[of _ _ "63 - k"])
  qed
  have zero: "\<not> bit w (63 - i)" if "i < c" for i
  proof -
    have "takeWhile ?P [0..<64] ! i = [0..<64] ! i" using that unfolding c_def countl_zero_def by (rule takeWhile_nth)
    moreover have "takeWhile ?P [0..<64] ! i \<in> set (takeWhile ?P [0..<64])"
      using that unfolding c_def countl_zero_def by simp
    ultimately show ?thesis using that \<open>c < 64\<close> by (auto dest: set_takeWhileD)
  qed
  have one: "bit w (63 - c)"
    using nth_length_takeWhile[of ?P "[0..<64]"] \<open>c < 64\<close> by (simp add: c_def countl_zero_def)
  have "2 ^ (63 - c) \<le> unat w"
  proof -
    have "bit (unat w) (63 - c)" using one by (simp add: bit_unsigned_iff)
    then have "unat w div 2 ^ (63 - c) \<noteq> 0" by (metis bit_iff_odd even_zero)
    then show ?thesis by (metis div_less not_le)
  qed
  moreover have "unat w < 2 ^ (64 - c)"
  proof -
    have "take_bit (64 - c) w = w"
    proof (rule bit_word_eqI)
      fix n assume "n < LENGTH(64)"
      then show "bit (take_bit (64 - c) w) n = bit w n"
        using zero[of "63 - n"] by (cases "63 - n < c") (auto simp: bit_take_bit_iff)
    qed
    then have "take_bit (64 - c) (unat w) = unat w" by (metis unsigned_take_bit_eq)
    then show ?thesis by (metis take_bit_nat_less_exp)
  qed
  ultimately show thesis using that \<open>c < 64\<close> c_def by blast
qed

section \<open>Properties\<close>

text \<open>
  C1: on a well-formed buddy allocator \<open>Alloc(order)\<close> never panics. An order above \<open>kMaxOrder\<close> is an
  invalid argument; otherwise the request fails exactly when no naturally aligned run of
  \<open>2 ^ order\<close> free pages exists (coalescing leaves no such run spread over several free blocks), and
  when it succeeds it returns such a run, which leaves the free pages while all others stay.
\<close>

theorem BuddyPmm_Alloc_complete:
  assumes wf: "bd_wf b"
  shows "if kMaxOrder < unat order then BuddyPmm_Alloc b order = Some (Inl InvalidArgument, b)
     else if \<exists>x. 2 ^ unat order dvd x \<and> {x ..< x + 2 ^ unat order} \<subseteq> bd_free_pages b
     then \<exists>x b'. BuddyPmm_Alloc b order = Some (Inr (PageFrameAddr (of_nat x)), b') \<and> bd_wf b' \<and>
       2 ^ unat order dvd x \<and> {x ..< x + 2 ^ unat order} \<subseteq> bd_free_pages b \<and>
       bd_free_pages b' = bd_free_pages b - {x ..< x + 2 ^ unat order}
     else BuddyPmm_Alloc b order = Some (Inl OutOfMemory, b)"
proof (cases "kMaxOrder < unat order")
  case True
  then show ?thesis by (simp add: BuddyPmm_Alloc_def)
next
  case False
  then have k: "unat order \<le> kMaxOrder" "unat order \<le> 10" by auto
  from wf have g: "geo (length (bd_pmt b)) (ord (bd_pmt b)) (buddies (bd_pmt b))"
    and co: "coalesced (ord (bd_pmt b)) (buddies (bd_pmt b))"
    by (simp_all add: bd_wf_def bgeo_def bcoalesced_def)
  note al = Alloc_ok[OF wf k(2)]
  show ?thesis
  proof (cases "\<exists>y\<in>buddies (bd_pmt b). unat order \<le> ord (bd_pmt b) y")
    case True
    with al obtain x b' where x: "BuddyPmm_Alloc b order = Some (Inr (PageFrameAddr (of_nat x)), b')"
      and post: "alloc_post b (unat order) x b'" by auto
    have "2 ^ unat order dvd x \<and> {x ..< x + 2 ^ unat order} \<subseteq> bd_free_pages b \<and>
        bd_free_pages b' = bd_free_pages b - {x ..< x + 2 ^ unat order}"
      using post by (simp add: alloc_post_def blk_def)
    with x alloc_post_wf[OF wf post] False show ?thesis by auto
  next
    case none: False
    have "\<not> {x ..< x + 2 ^ unat order} \<subseteq> bd_free_pages b" if "2 ^ unat order dvd x" for x
      using coalesced_run[OF g co k(1) that] none unfolding bd_free_pages_def blk_def by blast
    with al none False show ?thesis by auto
  qed
qed

text \<open>
  C2: no sequence of allocations and frees of held blocks ever panics in the buddy allocator; live
  blocks are pairwise disjoint at every moment, free and live pages together are the pages that were
  free at the start, and the allocator stays well-formed: its lists are intact and fully coalesced.
\<close>

theorem BuddyPmm_clients_disjoint:
  assumes "bd_wf b"
  shows "\<exists>b' live. run_client BuddyPmm_Alloc BuddyPmm_Free_req (b, []) ops = Some (b', live) \<and>
     bd_wf b' \<and> live_disjoint bd_pages live \<and> bd_free_pages b' \<inter> live_pages bd_pages live = {} \<and>
     bd_free_pages b' \<union> live_pages bd_pages live = bd_free_pages b"
proof -
  have "buddy.client_ok (bd_free_pages b) (b, [])"
    using assms by (simp add: buddy.client_ok_def bd_invar_def)
  from buddy.run_client_ok[OF this, of ops] show ?thesis
    unfolding buddy.client_ok_def bd_invar_def by auto
qed

text \<open>
  C3: \<open>Init\<close> builds a well-formed allocator whose free pages are exactly the first \<open>page_limit\<close>
  pages that the bit map allocator has free.
\<close>

theorem BuddyPmm_Init_correct:
  assumes "bp_wf p" and "length pmt \<le> bp_total p"
  shows "\<exists>b. BuddyPmm_Init p pmt page_limit = Some b \<and> bd_wf b \<and>
     bd_free_pages b = set (take (unat page_limit) (filter (\<lambda>i. i \<in> bp_free_pages p) [0..<length pmt]))"
  using BuddyPmm_Init_ok[OF assms, of page_limit] by blast

text \<open>
  C7: \<open>SizeToPageOrder\<close> yields the smallest order whose block holds the requested number of bytes,
  for every 64-bit size.
\<close>

theorem SizeToPageOrder_minimal:
  "unat size_bytes \<le> 4096 * 2 ^ unat (SizeToPageOrder size_bytes) \<and>
   (SizeToPageOrder size_bytes = 0 \<or> 4096 * 2 ^ (unat (SizeToPageOrder size_bytes) - 1) < unat size_bytes)"
proof (cases "size_bytes \<le> kPageSizeBytes")
  case True
  then have "unat size_bytes \<le> 4096" by (simp add: word_le_nat_alt unat_page_size)
  with True show ?thesis by (simp add: SizeToPageOrder_def)
next
  case False
  then have big: "4096 < unat size_bytes" by (simp add: word_le_nat_alt unat_page_size)
  let ?w = "drop_bit kPageShift (size_bytes - 1)"
  have "size_bytes \<noteq> 0" using big by auto
  then have "unat (size_bytes - 1) = unat size_bytes - 1" by (rule unat_minus_one)
  then have w: "unat ?w = (unat size_bytes - 1) div 4096"
    by (simp add: kPageShift_def drop_bit_eq_div unat_div)
  with big have "?w \<noteq> 0" by (auto simp: unat_eq_0[symmetric] div_eq_0_iff)
  then obtain c where c: "countl_zero ?w = c" "c < 64" "2 ^ (63 - c) \<le> unat ?w" "unat ?w < 2 ^ (64 - c)"
    by (rule countl_zero_bounds)
  have o: "unat (SizeToPageOrder size_bytes) = 64 - c"
    using False c(1) by (simp add: SizeToPageOrder_def unat_of_nat)
  have "unat size_bytes - 1 < 4096 * 2 ^ (64 - c)" using c(4) unfolding w by (simp add: div_less_iff_less_mult)
  moreover have "4096 * 2 ^ (63 - c) \<le> unat size_bytes - 1" using c(3) unfolding w by (simp add: less_eq_div_iff_mult_less_eq)
  ultimately have "unat size_bytes \<le> 4096 * 2 ^ (64 - c)" "4096 * 2 ^ (63 - c) < unat size_bytes"
    using big by linarith+
  moreover have "64 - c - 1 = 63 - c" using c(2) by simp
  ultimately show ?thesis unfolding o by simp
qed

definition zero_meta :: page_meta where
  "zero_meta = \<lparr>pm_buddy_next = None, pm_buddy_prev = None, pm_slab_next = None, pm_slab_prev = None,
     pm_slab_cache = None, pm_slab_freelist = None, pm_slab_inuse = 0, pm_ref_count = 0,
     pm_type = Dummy, pm_order = 0\<rparr>"

definition bd_all_allocated :: buddy_pmm where
  "bd_all_allocated = \<lparr>bd_freelist_table = replicate 11 None,
     bd_pmt = replicate 4 (InitAllocated 0 zero_meta)\<rparr>"

fun free_pages_in_turn :: "buddy_pmm \<Rightarrow> u64 list \<Rightarrow> buddy_pmm option" where
  "free_pages_in_turn b [] = Some b"
| "free_pages_in_turn b (a # as) =
     (case BuddyPmm_Free b a of None \<Rightarrow> None | Some b' \<Rightarrow> free_pages_in_turn b' as)"

fun alloc_in_turn :: "buddy_pmm \<Rightarrow> u8 list \<Rightarrow> (MemError, u64) expected list option" where
  "alloc_in_turn b [] = Some []"
| "alloc_in_turn b (k # ks) = (case BuddyPmm_Alloc b k of None \<Rightarrow> None
     | Some p \<Rightarrow> (case alloc_in_turn (snd p) ks of None \<Rightarrow> None | Some rs \<Rightarrow> Some (fst p # rs)))"


section \<open>Witnesses\<close>

text \<open>Four pages under the buddy allocator, of which pages 2 and 3 were free in the bit map.\<close>

definition bd_example_bitmap :: bitmap_pmm where
  "bd_example_bitmap = \<lparr>bp_bitmap_view = \<lparr>bmv_storage = [0x03], bmv_num_bits = 4\<rparr>,
                        bp_last_alloc_idx = 0\<rparr>"

lemma bd_example_bitmap_wf: "bp_wf bd_example_bitmap"
  by (simp add: bp_wf_def bd_example_bitmap_def bmv_wf_def)

lemma bd_example_bitmap_free:
  "filter (\<lambda>i. i \<in> bp_free_pages bd_example_bitmap) [0..<4] = [2, 3]"
proof -
  have "filter (\<lambda>i. i \<in> bp_free_pages bd_example_bitmap) [0..<4] =
    filter (\<lambda>i. \<not> bmv_bit (bp_bitmap_view bd_example_bitmap) i) [0..<4]"
    by (rule filter_cong) (auto simp: bp_free_pages_def bp_total_def bd_example_bitmap_def)
  also have "\<dots> = [2, 3]" by code_simp
  finally show ?thesis .
qed

lemma bd_example_pages:
  "length (replicate 4 zero_meta) \<le> bp_total bd_example_bitmap"
  "set (take (unat (2 :: u64)) (filter (\<lambda>i. i \<in> bp_free_pages bd_example_bitmap)
     [0..<length (replicate 4 zero_meta)])) = {2, 3}"
proof -
  show "length (replicate 4 zero_meta) \<le> bp_total bd_example_bitmap"
    by (simp add: bp_total_def bd_example_bitmap_def)
  show "set (take (unat (2 :: u64)) (filter (\<lambda>i. i \<in> bp_free_pages bd_example_bitmap)
     [0..<length (replicate 4 zero_meta)])) = {2, 3}"
    unfolding length_replicate bd_example_bitmap_free by simp
qed

theorem BuddyPmm_Init_correct_witness:
  "bp_wf bd_example_bitmap \<and> length (replicate 4 zero_meta) \<le> bp_total bd_example_bitmap \<and>
   (\<exists>b. BuddyPmm_Init bd_example_bitmap (replicate 4 zero_meta) 2 = Some b \<and> bd_wf b \<and>
      bd_free_pages b = {2, 3})"
  using BuddyPmm_Init_correct[OF bd_example_bitmap_wf bd_example_pages(1), of 2]
    bd_example_bitmap_wf bd_example_pages(1)
  unfolding bd_example_pages(2) by blast

lemma bd_example:
  obtains b where "bd_wf b" and "bd_free_pages b = {2, 3}" and "length (bd_pmt b) = 4"
proof -
  from BuddyPmm_Init_ok[OF bd_example_bitmap_wf bd_example_pages(1), of 2, unfolded bd_example_pages(2)]
  obtain b where "bd_wf b" "length (bd_pmt b) = length (replicate 4 zero_meta)" "bd_free_pages b = {2, 3}"
    by (elim exE conjE)
  then show thesis unfolding length_replicate using that by blast
qed

theorem BuddyPmm_Alloc_complete_witness:
  "\<exists>b x b'. bd_wf b \<and> BuddyPmm_Alloc b 1 = Some (Inr (PageFrameAddr (of_nat x)), b') \<and>
     {x ..< x + 2} \<subseteq> bd_free_pages b"
proof -
  obtain b where b: "bd_wf b" "bd_free_pages b = {2, 3}" using bd_example by blast
  have two: "2 ^ unat (1 :: u8) = (2 :: nat)" by simp
  have "{2 ..< 2 + 2} \<subseteq> bd_free_pages b" unfolding b(2) by (simp add: atLeastLessThan_def subset_iff) presburger
  then have run: "\<exists>x. 2 ^ unat (1 :: u8) dvd x \<and> {x ..< x + 2 ^ unat (1 :: u8)} \<subseteq> bd_free_pages b"
    unfolding two by (intro exI[of _ 2] conjI dvd_refl)
  have lim: "\<not> kMaxOrder < unat (1 :: u8)" by simp
  from BuddyPmm_Alloc_complete[OF b(1), of 1, unfolded if_not_P[OF lim] if_P[OF run]] obtain x b'
    where x: "BuddyPmm_Alloc b 1 = Some (Inr (PageFrameAddr (of_nat x)), b')"
    and free: "{x ..< x + 2 ^ unat (1 :: u8)} \<subseteq> bd_free_pages b" by (elim exE conjE)
  show ?thesis by (rule exI[of _ b], rule exI[of _ x], rule exI[of _ b'])
      (rule conjI[OF b(1) conjI[OF x free[unfolded two]]])
qed

theorem BuddyPmm_clients_disjoint_witness:
  "\<exists>b b' live. bd_wf b \<and>
     run_client BuddyPmm_Alloc BuddyPmm_Free_req (b, []) [CAlloc 0, CAlloc 0, CFree 1, CAlloc 1] = Some (b', live) \<and>
     bd_free_pages b' \<union> live_pages bd_pages live = {2, 3}"
proof -
  obtain b where b: "bd_wf b" "bd_free_pages b = {2, 3}" using bd_example by blast
  from BuddyPmm_clients_disjoint[OF b(1), of "[CAlloc 0, CAlloc 0, CFree 1, CAlloc 1]", unfolded b(2)]
  obtain b' live where
    run: "run_client BuddyPmm_Alloc BuddyPmm_Free_req (b, []) [CAlloc 0, CAlloc 0, CFree 1, CAlloc 1] = Some (b', live)"
    and pages: "bd_free_pages b' \<union> live_pages bd_pages live = {2, 3}" by (elim exE conjE)
  show ?thesis by (rule exI[of _ b], rule exI[of _ b'], rule exI[of _ live]) (rule conjI[OF b(1) conjI[OF run pages]])
qed

end
