(* ===== verification/Page_Tables.thy ===== *)
theory Page_Tables
  imports Buddy_Pmm
begin

text \<open>
  The x86-64 page tables: the entry formats of \<open>kernel/arch/x86_64/src/mem/page_map.hpp\<close>, the MMU
  operations of \<open>kernel/arch/x86_64/src/hal/impl/mmu.tpp\<close>, \<open>mmu.cpp\<close> and
  \<open>kernel/src/hal/mmu.hpp\<close>, and the kernel's MMU context (\<open>kernel/src/mem/mmu/contexts.hpp\<close>), which
  takes table pages from the buddy allocator and keeps their use counts in the page metadata.

  An entry is the 64-bit word it occupies. The tables live in physical memory; the part of it that
  holds tables is a function from the physical address of a table and an index to an entry. The
  kernel reads it through the direct map, so \<open>PhysToVirt\<close> on a table address is the identity here.
  A level is a number from 4 (the root) down to 1, as the template parameter of the source.
\<close>

section \<open>Entries\<close>

definition kPresentBit :: u64 where "kPresentBit = 1"
definition kWriteBit :: u64 where "kWriteBit = push_bit 1 1"
definition kUserAccessibleBit :: u64 where "kUserAccessibleBit = push_bit 2 1"
definition kWriteThroughCachingBit :: u64 where "kWriteThroughCachingBit = push_bit 3 1"
definition kDisableCacheBit :: u64 where "kDisableCacheBit = push_bit 4 1"
definition kGlobalBit :: u64 where "kGlobalBit = push_bit 8 1"
definition kHugePageBit :: u64 where "kHugePageBit = push_bit 7 1"
definition kNoExecuteBit :: u64 where "kNoExecuteBit = push_bit 63 1"

definition PME_IsPresent :: "u64 \<Rightarrow> bool" where
  "PME_IsPresent e = bit e 0"

text \<open>Level 4 and level 1 entries are never huge; at the levels 3 and 2 it is the bit \<open>page_size\<close>.\<close>

definition PME_IsHuge :: "nat \<Rightarrow> u64 \<Rightarrow> bool" where
  "PME_IsHuge level e = ((level = 3 \<or> level = 2) \<and> bit e 7)"

text \<open>The bit field \<open>frame : 40\<close> at offset 12.\<close>

definition PME_frame :: "u64 \<Rightarrow> u64" where
  "PME_frame e = take_bit 40 (drop_bit 12 e)"

definition PME_GetNextLevelTable :: "u64 \<Rightarrow> u64" where
  "PME_GetNextLevelTable e = push_bit 12 (PME_frame e)"

definition PME_SetNextLevelTable :: "u64 \<Rightarrow> u64 \<Rightarrow> u64 \<Rightarrow> u64" where
  "PME_SetNextLevelTable e table_addr flags =
     ((e AND NOT (push_bit 12 (mask 40))) OR push_bit 12 (take_bit 40 (drop_bit 12 table_addr)))
       OR flags"

definition PME_GetFrameAddress :: "u64 \<Rightarrow> u64" where
  "PME_GetFrameAddress e = push_bit 12 (PME_frame e)"

definition PME_SetFrameAddress :: "u64 \<Rightarrow> u64 \<Rightarrow> u64" where
  "PME_SetFrameAddress page_addr flags = push_bit 12 (take_bit 40 (drop_bit 12 page_addr)) OR flags"

definition PME_GetFrameAddress_2M :: "u64 \<Rightarrow> u64" where
  "PME_GetFrameAddress_2M e = push_bit 21 (take_bit 31 (drop_bit 21 e))"

definition PME_GetFrameAddress_1G :: "u64 \<Rightarrow> u64" where
  "PME_GetFrameAddress_1G e = push_bit 30 (take_bit 22 (drop_bit 30 e))"

definition PME_Clear :: "u64 \<Rightarrow> u64" where
  "PME_Clear e = 0"

record PageFlags =
  pf_Present :: bool
  pf_Writable :: bool
  pf_UserAccessible :: bool
  pf_WriteThrough :: bool
  pf_CacheDisable :: bool
  pf_Global :: bool
  pf_NoExecute :: bool

definition ToArchFlags :: "PageFlags \<Rightarrow> u64" where
  "ToArchFlags flags =
     (if pf_Present flags then kPresentBit else 0) OR
     (if pf_Writable flags then kWriteBit else 0) OR
     (if pf_UserAccessible flags then kUserAccessibleBit else 0) OR
     (if pf_WriteThrough flags then kWriteThroughCachingBit else 0) OR
     (if pf_CacheDisable flags then kDisableCacheBit else 0) OR
     (if pf_Global flags then kGlobalBit else 0) OR
     (if pf_NoExecute flags then kNoExecuteBit else 0)"

definition PmeIdx :: "nat \<Rightarrow> u64 \<Rightarrow> nat" where
  "PmeIdx level vaddr = unat (drop_bit (12 + (level - 1) * 9) vaddr AND mask 9)"

section \<open>The kernel's MMU context\<close>

type_synonym page_tables = "u64 \<Rightarrow> nat \<Rightarrow> u64"

record mmu_mem =
  mm_tables :: page_tables
  mm_buddy :: buddy_pmm

definition put_entry :: "page_tables \<Rightarrow> u64 \<Rightarrow> nat \<Rightarrow> u64 \<Rightarrow> page_tables" where
  "put_entry T t i e = T(t := (T t)(i := e))"

definition update_meta :: "mmu_mem \<Rightarrow> u64 \<Rightarrow> (page_meta \<Rightarrow> page_meta option) \<Rightarrow> mmu_mem option" where
  "update_meta st ptr f = do {
     pfn \<leftarrow> PageFrameNumber_ptr ptr;
     m \<leftarrow> GetPageMeta (bd_pmt (mm_buddy st)) (unat pfn);
     m' \<leftarrow> f m;
     pmt \<leftarrow> PutPageMeta (bd_pmt (mm_buddy st)) (unat pfn) m';
     Some (st\<lparr>mm_buddy := (mm_buddy st)\<lparr>bd_pmt := pmt\<rparr>\<rparr>) }"

definition AllocateTable :: "mmu_mem \<Rightarrow> u8 \<Rightarrow> ((MemError, u64) expected \<times> mmu_mem) option" where
  "AllocateTable st level = do {
     (res, b) \<leftarrow> BuddyPmm_Alloc (mm_buddy st) 0;
     case res of
       Inl e \<Rightarrow> Some (Inl e, st\<lparr>mm_buddy := b\<rparr>)
     | Inr ptr \<Rightarrow> do {
         st' \<leftarrow> update_meta \<lparr>mm_tables = (mm_tables st)(ptr := (\<lambda>_. 0)), mm_buddy = b\<rparr> ptr
                 (\<lambda>m. Some (InitPageTable level m));
         Some (Inr ptr, st') } }"

definition FreeTable :: "mmu_mem \<Rightarrow> u64 \<Rightarrow> mmu_mem option" where
  "FreeTable st table = do {
     st' \<leftarrow> update_meta st table (\<lambda>m. Some (InitAllocated 0 m));
     b \<leftarrow> BuddyPmm_Free (mm_buddy st') table;
     Some (st'\<lparr>mm_buddy := b\<rparr>) }"

definition IncreaseUsage :: "mmu_mem \<Rightarrow> u64 \<Rightarrow> mmu_mem option" where
  "IncreaseUsage st table = update_meta st table (\<lambda>m. do {
     AsPageTable m; Some (m\<lparr>pm_ref_count := pm_ref_count m + 1\<rparr>) })"

definition DecreaseUsage :: "mmu_mem \<Rightarrow> u64 \<Rightarrow> (bool \<times> mmu_mem) option" where
  "DecreaseUsage st table = do {
     st' \<leftarrow> update_meta st table (\<lambda>m. do {
       AsPageTable m;
       Some (if pm_ref_count m > 0 then m\<lparr>pm_ref_count := pm_ref_count m - 1\<rparr> else m) });
     pfn \<leftarrow> PageFrameNumber_ptr table;
     m \<leftarrow> GetPageMeta (bd_pmt (mm_buddy st')) (unat pfn);
     Some (pm_ref_count m = 0, st') }"

section \<open>MMU operations\<close>

definition kDefTableFlags :: u64 where
  "kDefTableFlags = kPresentBit OR kWriteBit OR kUserAccessibleBit"

text \<open>
  The step that \<open>Map\<close> repeats for the levels 4, 3 and 2: follow the entry of a table, allocating
  the table of the level below when the entry is not present.
\<close>

definition Mmu_NextTable ::
  "mmu_mem \<Rightarrow> u64 \<Rightarrow> nat \<Rightarrow> u8 \<Rightarrow> ((MemError, u64) expected \<times> mmu_mem) option" where
  "Mmu_NextTable st table idx new_level =
     (let e = mm_tables st table idx in
      if \<not> PME_IsPresent e then do {
        (res, st1) \<leftarrow> AllocateTable st new_level;
        case res of
          Inl err \<Rightarrow> Some (Inl err, st1)
        | Inr new_table \<Rightarrow> do {
            let e' = PME_SetNextLevelTable (mm_tables st1 table idx) new_table kDefTableFlags;
            let st2 = st1\<lparr>mm_tables := put_entry (mm_tables st1) table idx e'\<rparr>;
            st3 \<leftarrow> IncreaseUsage st2 table;
            Some (Inr (PME_GetNextLevelTable e'), st3) } }
      else Some (Inr (PME_GetNextLevelTable e), st))"

definition Mmu_Map ::
  "mmu_mem \<Rightarrow> u64 \<Rightarrow> u64 \<Rightarrow> u64 \<Rightarrow> PageFlags \<Rightarrow> ((MemError, unit) expected \<times> mmu_mem) option" where
  "Mmu_Map st root vaddr paddr flags = do {
     (r3, st1) \<leftarrow> Mmu_NextTable st root (PmeIdx 4 vaddr) 3;
     case r3 of Inl e \<Rightarrow> Some (Inl e, st1) | Inr pdpt \<Rightarrow> do {
       (r2, st2) \<leftarrow> Mmu_NextTable st1 pdpt (PmeIdx 3 vaddr) 2;
       case r2 of Inl e \<Rightarrow> Some (Inl e, st2) | Inr pd \<Rightarrow> do {
         (r1, st3) \<leftarrow> Mmu_NextTable st2 pd (PmeIdx 2 vaddr) 1;
         case r1 of Inl e \<Rightarrow> Some (Inl e, st3) | Inr pt \<Rightarrow>
           if PME_IsPresent (mm_tables st3 pt (PmeIdx 1 vaddr)) then Some (Inl InvalidArgument, st3)
           else do {
             st4 \<leftarrow> IncreaseUsage
               (st3\<lparr>mm_tables := put_entry (mm_tables st3) pt (PmeIdx 1 vaddr)
                  (PME_SetFrameAddress paddr (ToArchFlags flags))\<rparr>) pt;
             Some (Inr (), st4) } } } }"

definition clear_entry :: "mmu_mem \<Rightarrow> u64 \<Rightarrow> nat \<Rightarrow> mmu_mem" where
  "clear_entry st t i = st\<lparr>mm_tables := put_entry (mm_tables st) t i (PME_Clear (mm_tables st t i))\<rparr>"

definition Mmu_Unmap :: "mmu_mem \<Rightarrow> u64 \<Rightarrow> u64 \<Rightarrow> mmu_mem option" where
  "Mmu_Unmap st root vaddr =
     (let i4 = PmeIdx 4 vaddr; i3 = PmeIdx 3 vaddr; i2 = PmeIdx 2 vaddr; i1 = PmeIdx 1 vaddr;
          pml4e = mm_tables st root i4 in
      if \<not> PME_IsPresent pml4e then Some st else
      let pdpt = PME_GetNextLevelTable pml4e; pdpte = mm_tables st pdpt i3 in
      if \<not> PME_IsPresent pdpte then Some st else
      let pd = PME_GetNextLevelTable pdpte; pde = mm_tables st pd i2 in
      if \<not> PME_IsPresent pde then Some st else
      let pt = PME_GetNextLevelTable pde; pte = mm_tables st pt i1 in
      if \<not> PME_IsPresent pte then Some st else do {
        (pt_empty, st1) \<leftarrow> DecreaseUsage (clear_entry st pt i1) pt;
        if \<not> pt_empty then Some st1 else do {
          st2 \<leftarrow> FreeTable st1 pt;
          (pd_empty, st3) \<leftarrow> DecreaseUsage (clear_entry st2 pd i2) pd;
          if \<not> pd_empty then Some st3 else do {
            st4 \<leftarrow> FreeTable st3 pd;
            (pdpt_empty, st5) \<leftarrow> DecreaseUsage (clear_entry st4 pdpt i3) pdpt;
            if \<not> pdpt_empty then Some st5 else do {
              st6 \<leftarrow> FreeTable st5 pdpt;
              (_, st7) \<leftarrow> DecreaseUsage (clear_entry st6 root i4) root;
              Some st7 } } } })"

definition Mmu_Translate :: "page_tables \<Rightarrow> u64 \<Rightarrow> u64 \<Rightarrow> (MemError, u64) expected" where
  "Mmu_Translate T root vaddr =
     (let pml4e = T root (PmeIdx 4 vaddr) in
      if \<not> PME_IsPresent pml4e then Inl NotFound else
      let pdpte = T (PME_GetNextLevelTable pml4e) (PmeIdx 3 vaddr) in
      if \<not> PME_IsPresent pdpte then Inl NotFound else
      if PME_IsHuge 3 pdpte then Inr (PME_GetFrameAddress_1G pdpte + (vaddr AND mask 30)) else
      let pde = T (PME_GetNextLevelTable pdpte) (PmeIdx 2 vaddr) in
      if \<not> PME_IsPresent pde then Inl NotFound else
      if PME_IsHuge 2 pde then Inr (PME_GetFrameAddress_2M pde + (vaddr AND mask 21)) else
      let pte = T (PME_GetNextLevelTable pde) (PmeIdx 1 vaddr) in
      if \<not> PME_IsPresent pte then Inl NotFound else
      Inr (PME_GetFrameAddress pte + (vaddr AND mask 12)))"

definition Mmu_SetPageFlags ::
  "page_tables \<Rightarrow> u64 \<Rightarrow> u64 \<Rightarrow> PageFlags \<Rightarrow> (MemError, unit) expected \<times> page_tables" where
  "Mmu_SetPageFlags T root vaddr flags =
     (let pml4e = T root (PmeIdx 4 vaddr) in
      if \<not> PME_IsPresent pml4e then (Inl NotFound, T) else
      let pdpte = T (PME_GetNextLevelTable pml4e) (PmeIdx 3 vaddr) in
      if \<not> PME_IsPresent pdpte then (Inl NotFound, T) else
      if PME_IsHuge 3 pdpte then (Inl InvalidArgument, T) else
      let pde = T (PME_GetNextLevelTable pdpte) (PmeIdx 2 vaddr) in
      if \<not> PME_IsPresent pde then (Inl NotFound, T) else
      if PME_IsHuge 2 pde then (Inl InvalidArgument, T) else
      let pt = PME_GetNextLevelTable pde; pte = T pt (PmeIdx 1 vaddr) in
      if \<not> PME_IsPresent pte then (Inl NotFound, T) else
      (Inr (), put_entry T pt (PmeIdx 1 vaddr)
         (PME_SetFrameAddress (PME_GetFrameAddress pte) (ToArchFlags flags))))"

definition Mmu_CopyKernelSpace :: "page_tables \<Rightarrow> u64 \<Rightarrow> u64 \<Rightarrow> page_tables" where
  "Mmu_CopyKernelSpace T dst_root kernel_root =
     T(dst_root := (\<lambda>i. if 256 \<le> i \<and> i < 512 then T kernel_root i else T dst_root i))"

definition Mmu_SyncMapping :: "page_tables \<Rightarrow> u64 \<Rightarrow> u64 \<Rightarrow> u64 \<Rightarrow> bool \<times> page_tables" where
  "Mmu_SyncMapping T dst_root src_root vaddr =
     (let idx = PmeIdx 4 vaddr; src_entry = T src_root idx; dst_entry = T dst_root idx in
      if idx < 256 then (False, T)
      else if PME_IsPresent src_entry \<and>
        (\<not> PME_IsPresent dst_entry \<or> PME_frame dst_entry \<noteq> PME_frame src_entry)
      then (True, put_entry T dst_root idx src_entry)
      else (False, T))"

text \<open>\<open>DestroyTable\<close>: the tables below first, then the table itself.\<close>

primrec Mmu_RecDestroy :: "nat \<Rightarrow> mmu_mem \<Rightarrow> u64 \<Rightarrow> mmu_mem option" where
  "Mmu_RecDestroy 0 = (\<lambda>st table. None)"
| "Mmu_RecDestroy (Suc l) = (\<lambda>st table. do {
     st' \<leftarrow> foldM (\<lambda>st i. do {
         let entry = mm_tables st table i;
         st1 \<leftarrow> (if 0 < l \<and> PME_IsPresent entry \<and> \<not> PME_IsHuge (Suc l) entry
                then Mmu_RecDestroy l st (PME_GetNextLevelTable entry) else Some st);
         Some (clear_entry st1 table i) }) st [0..<512];
     FreeTable st' table })"

definition Mmu_DestroyTable :: "mmu_mem \<Rightarrow> u64 \<Rightarrow> nat \<Rightarrow> mmu_mem option" where
  "Mmu_DestroyTable st table_phys level =
     (if 1 \<le> level \<and> level \<le> 4 then Mmu_RecDestroy level st table_phys else Some st)"

definition Mmu_ClearUserMappings :: "mmu_mem \<Rightarrow> u64 \<Rightarrow> mmu_mem option" where
  "Mmu_ClearUserMappings st root =
     foldM (\<lambda>st i. let entry = mm_tables st root i in
       if PME_IsPresent entry then do {
         st1 \<leftarrow> Mmu_DestroyTable st (PME_GetNextLevelTable entry) 3;
         Some (clear_entry st1 root i) }
       else Some st) st [0..<256]"

text \<open>
  The page addresses of \<open>for (v = s; v < e; v += kPageSizeBytes)\<close>. In every use both ends are
  page-aligned, so that the addition never wraps below \<open>e\<close>.
\<close>

definition page_range :: "u64 \<Rightarrow> u64 \<Rightarrow> u64 list" where
  "page_range s e = map (\<lambda>i. s + of_nat (4096 * i)) [0..<(unat e - unat s) div 4096]"

definition Mmu_UnmapRange :: "mmu_mem \<Rightarrow> u64 \<Rightarrow> u64 \<Rightarrow> u64 \<Rightarrow> mmu_mem option" where
  "Mmu_UnmapRange st root start size_bytes =
     foldM (\<lambda>st addr. Mmu_Unmap st root addr) st
       (page_range (AlignDown start kPageSizeBytes) (AlignUp (start + size_bytes) kPageSizeBytes))"

definition Mmu_MapRange ::
  "mmu_mem \<Rightarrow> u64 \<Rightarrow> u64 \<Rightarrow> u64 \<Rightarrow> u64 \<Rightarrow> PageFlags \<Rightarrow> ((MemError, unit) expected \<times> mmu_mem) option" where
  "Mmu_MapRange st root vaddr_start paddr_start size_bytes flags =
     (let vaddr = AlignDown vaddr_start kPageSizeBytes;
          paddr = AlignDown paddr_start kPageSizeBytes;
          e = AlignUp (vaddr_start + size_bytes) kPageSizeBytes in
      foldE (\<lambda>st v. Mmu_Map st root v (paddr + (v - vaddr)) flags) st (page_range vaddr e))"

section \<open>Entry fields\<close>

lemma bit_PME_SetNextLevelTable:
  "bit (PME_SetNextLevelTable e a fl) n \<longleftrightarrow>
     (if 12 \<le> n \<and> n < 52 then bit a n \<or> bit fl n else bit e n \<or> bit fl n)"
  unfolding PME_SetNextLevelTable_def
  by (auto simp: bit_simps dest: bit_imp_le_length)

lemma bit_push_one: "bit (push_bit k (1 :: u64)) n \<longleftrightarrow> n = k \<and> k < 64"
  by (auto simp: bit_simps)

lemma kBits:
  "bit kPresentBit n \<longleftrightarrow> n = 0" "bit kWriteBit n \<longleftrightarrow> n = 1" "bit kUserAccessibleBit n \<longleftrightarrow> n = 2"
  "bit kWriteThroughCachingBit n \<longleftrightarrow> n = 3" "bit kDisableCacheBit n \<longleftrightarrow> n = 4"
  "bit kGlobalBit n \<longleftrightarrow> n = 8" "bit kNoExecuteBit n \<longleftrightarrow> n = 63"
  unfolding kPresentBit_def kWriteBit_def kUserAccessibleBit_def
    kWriteThroughCachingBit_def kDisableCacheBit_def kGlobalBit_def kNoExecuteBit_def bit_push_one
  by (auto simp: bit_1_iff)

lemma bit_if_zero: "bit (if c then w else 0 :: u64) n \<longleftrightarrow> c \<and> bit w n"
  by simp

lemma flags_bits:
  "bit kDefTableFlags n \<longleftrightarrow> n \<in> {0, 1, 2}"
  "bit (ToArchFlags fl) n \<Longrightarrow> n \<in> {0, 1, 2, 3, 4, 8, 63}"
  "bit (ToArchFlags fl) 0 = pf_Present fl"
  unfolding kDefTableFlags_def ToArchFlags_def
  by (auto simp: bit_or_iff kBits bit_if_zero)

text \<open>Physical addresses that the 40-bit frame field can hold.\<close>

definition frame_addr :: "u64 \<Rightarrow> bool" where
  "frame_addr a \<longleftrightarrow> (\<forall>n. bit a n \<longrightarrow> 12 \<le> n \<and> n < 52)"

lemma PME_next_frame:
  "bit (PME_GetNextLevelTable e) n \<longleftrightarrow> 12 \<le> n \<and> n < 52 \<and> bit e n"
  by (auto simp: PME_GetNextLevelTable_def PME_frame_def bit_simps dest: bit_imp_le_length)

lemma PME_next_set:
  assumes "frame_addr a"
  shows "PME_GetNextLevelTable (PME_SetNextLevelTable e a kDefTableFlags) = a"
  by (rule bit_word_eqI)
    (use assms in \<open>auto simp: PME_next_frame bit_PME_SetNextLevelTable flags_bits(1) frame_addr_def\<close>)

lemma PME_frame_set:
  assumes "frame_addr a"
  shows "PME_GetFrameAddress (PME_SetFrameAddress a (ToArchFlags fl)) = a"
proof (rule bit_word_eqI)
  fix n
  have "bit (PME_GetFrameAddress (PME_SetFrameAddress a (ToArchFlags fl))) n \<longleftrightarrow>
      12 \<le> n \<and> n < 52 \<and> (bit a n \<or> bit (ToArchFlags fl) n)"
    by (auto simp: PME_GetFrameAddress_def PME_SetFrameAddress_def PME_frame_def bit_simps dest: bit_imp_le_length)
  with assms flags_bits(2)[of fl n] show "bit (PME_GetFrameAddress (PME_SetFrameAddress a (ToArchFlags fl))) n = bit a n"
    by (auto simp: frame_addr_def)
qed

lemma PME_set_present:
  "PME_IsPresent (PME_SetNextLevelTable e a kDefTableFlags)"
  "PME_IsPresent (PME_SetFrameAddress a (ToArchFlags fl)) \<longleftrightarrow> pf_Present fl"
  "PME_IsHuge l (PME_SetNextLevelTable e a kDefTableFlags) \<longleftrightarrow> PME_IsHuge l e"
  by (auto simp: PME_IsPresent_def PME_IsHuge_def bit_PME_SetNextLevelTable flags_bits(1)
      PME_SetFrameAddress_def bit_or_iff bit_push_bit_iff flags_bits(3))

lemma frame_addr_pfn:
  assumes "x < 2 ^ 40"
  shows "frame_addr (PageFrameAddr (of_nat x))"
proof -
  have "PageFrameAddr (of_nat x) = push_bit 12 (of_nat x)"
    by (simp add: PageFrameAddr_def kPageSizeBytes_def push_bit_eq_mult mult.commute)
  moreover have "take_bit 40 (of_nat x :: u64) = of_nat x"
    using assms by (metis take_bit_nat_eq_self take_bit_of_nat)
  then have "bit (of_nat x :: u64) n \<Longrightarrow> n < 40" for n by (metis bit_take_bit_iff)
  ultimately show ?thesis by (fastforce simp: frame_addr_def bit_push_bit_iff)
qed

section \<open>Paths and the tree of tables\<close>

text \<open>
  \<open>tab T root v d\<close> is the table at depth \<open>d\<close> (level \<open>4 - d\<close>) on the path of the address \<open>v\<close>, when
  the entries above it are present and none of them is a huge page.
\<close>

fun tab :: "page_tables \<Rightarrow> u64 \<Rightarrow> u64 \<Rightarrow> nat \<Rightarrow> u64 option" where
  "tab T root v 0 = Some root"
| "tab T root v (Suc d) = (case tab T root v d of None \<Rightarrow> None | Some t \<Rightarrow>
     if PME_IsPresent (T t (PmeIdx (4 - d) v)) \<and> \<not> PME_IsHuge (4 - d) (T t (PmeIdx (4 - d) v))
     then Some (PME_GetNextLevelTable (T t (PmeIdx (4 - d) v))) else None)"

definition agree :: "u64 \<Rightarrow> u64 \<Rightarrow> nat \<Rightarrow> bool" where
  "agree v w d \<longleftrightarrow> (\<forall>k<d. PmeIdx (4 - k) v = PmeIdx (4 - k) w)"

lemma agree_0 [simp]: "agree v w 0"
  by (simp add: agree_def)

lemma agree_refl [simp]: "agree v v d"
  by (simp add: agree_def)

lemma agree_Suc: "agree v w (Suc d) \<longleftrightarrow> agree v w d \<and> PmeIdx (4 - d) v = PmeIdx (4 - d) w"
  by (auto simp: agree_def less_Suc_eq)

lemma agree_mono: "agree v w d \<Longrightarrow> d' \<le> d \<Longrightarrow> agree v w d'"
  by (auto simp: agree_def)

lemma agree_trans: "agree v w d \<Longrightarrow> agree v w' d \<Longrightarrow> agree w w' d"
  by (auto simp: agree_def)

lemma tab_agree: "agree v w d \<Longrightarrow> tab T root v d = tab T root w d"
  by (induction d) (auto simp: agree_Suc split: option.splits)

lemma tab_None_mono: "tab T root v d = None \<Longrightarrow> d \<le> d' \<Longrightarrow> tab T root v d' = None"
  by (induction d') (auto simp: le_Suc_eq)

text \<open>\<open>same_path\<close>: the entries that a walk for \<open>v\<close> reads are the same in both memories.\<close>

definition same_path :: "page_tables \<Rightarrow> page_tables \<Rightarrow> u64 \<Rightarrow> u64 \<Rightarrow> bool" where
  "same_path T T' root v \<longleftrightarrow>
     (\<forall>d t. d \<le> 3 \<longrightarrow> tab T root v d = Some t \<longrightarrow> T' t (PmeIdx (4 - d) v) = T t (PmeIdx (4 - d) v))"

lemma same_path_tab: "same_path T T' root v \<Longrightarrow> d \<le> 4 \<Longrightarrow> tab T' root v d = tab T root v d"
proof (induction d)
  case (Suc d)
  then show ?case by (cases "tab T root v d") (auto simp: same_path_def)
qed simp

lemma level_numerals: "4 - Suc 0 = (3 :: nat)" "4 - Suc (Suc 0) = (2 :: nat)" "4 - Suc (Suc (Suc 0)) = (1 :: nat)"
  by simp_all

lemma IsHuge_4 [simp]: "\<not> PME_IsHuge 4 e"
  by (simp add: PME_IsHuge_def)

lemma tab_unfold:
  "tab T root v 1 = (let e = T root (PmeIdx 4 v) in
     if PME_IsPresent e then Some (PME_GetNextLevelTable e) else None)"
  "tab T root v 2 = (case tab T root v 1 of None \<Rightarrow> None | Some t \<Rightarrow> let e = T t (PmeIdx 3 v) in
     if PME_IsPresent e \<and> \<not> PME_IsHuge 3 e then Some (PME_GetNextLevelTable e) else None)"
  "tab T root v 3 = (case tab T root v 2 of None \<Rightarrow> None | Some t \<Rightarrow> let e = T t (PmeIdx 2 v) in
     if PME_IsPresent e \<and> \<not> PME_IsHuge 2 e then Some (PME_GetNextLevelTable e) else None)"
  by (simp_all add: numeral_2_eq_2 numeral_3_eq_3 Let_def)

lemma same_path_Translate:
  assumes "same_path T T' root v"
  shows "Mmu_Translate T' root v = Mmu_Translate T root v"
proof -
  have e: "tab T root v 0 = Some t \<Longrightarrow> T' t (PmeIdx 4 v) = T t (PmeIdx 4 v)"
    "tab T root v 1 = Some t \<Longrightarrow> T' t (PmeIdx 3 v) = T t (PmeIdx 3 v)"
    "tab T root v 2 = Some t \<Longrightarrow> T' t (PmeIdx 2 v) = T t (PmeIdx 2 v)"
    "tab T root v 3 = Some t \<Longrightarrow> T' t (PmeIdx 1 v) = T t (PmeIdx 1 v)" for t
    using assms[unfolded same_path_def, rule_format, of 0 t] assms[unfolded same_path_def, rule_format, of 1 t]
      assms[unfolded same_path_def, rule_format, of 2 t] assms[unfolded same_path_def, rule_format, of 3 t]
    by simp_all
  show ?thesis
    using e unfolding Mmu_Translate_def tab_unfold Let_def by (auto split: option.splits)
qed

lemma Translate_leaf:
  assumes "tab T root v 3 = Some pt"
  shows "Mmu_Translate T root v = (if PME_IsPresent (T pt (PmeIdx 1 v))
     then Inr (PME_GetFrameAddress (T pt (PmeIdx 1 v)) + (v AND mask 12)) else Inl NotFound)"
  using assms unfolding Mmu_Translate_def tab_unfold Let_def by (auto split: option.splits if_splits)

lemma Translate_absent:
  assumes "tab T root v d = Some t" and "d \<le> 3" and "\<not> PME_IsPresent (T t (PmeIdx (4 - d) v))"
  shows "Mmu_Translate T root v = Inl NotFound"
proof -
  from assms(2) consider "d = 0" | "d = 1" | "d = 2" | "d = 3" by linarith
  then show ?thesis
    using assms(1,3) unfolding Mmu_Translate_def
    by cases (auto simp: tab_unfold Let_def split: option.splits if_splits)
qed

text \<open>
  The tables form a tree: a table on two paths is at the same depth of both, and the paths agree
  down to it.
\<close>

definition pt_tree :: "page_tables \<Rightarrow> u64 \<Rightarrow> bool" where
  "pt_tree T root \<longleftrightarrow> (\<forall>v w d d' t. d \<le> 3 \<longrightarrow> d' \<le> 3 \<longrightarrow>
     tab T root v d = Some t \<longrightarrow> tab T root w d' = Some t \<longrightarrow> d = d' \<and> agree v w d)"

lemma pt_treeD:
  "pt_tree T root \<Longrightarrow> tab T root v d = Some t \<Longrightarrow> tab T root w d' = Some t \<Longrightarrow> d \<le> 3 \<Longrightarrow> d' \<le> 3 \<Longrightarrow>
   d = d' \<and> agree v w d"
  unfolding pt_tree_def by blast

text \<open>Changing an entry only matters to the addresses whose path runs through it.\<close>

lemma put_entry_other:
  assumes tree: "pt_tree T root" and t: "tab T root v d = Some t" and d: "d \<le> 3"
    and w: "\<not> agree v w (Suc d)"
  shows "same_path T (put_entry T t (PmeIdx (4 - d) v) e) root w"
  unfolding same_path_def
proof (intro allI impI)
  fix d' t' assume "d' \<le> 3" and t': "tab T root w d' = Some t'"
  show "put_entry T t (PmeIdx (4 - d) v) e t' (PmeIdx (4 - d') w) = T t' (PmeIdx (4 - d') w)"
  proof (cases "t' = t \<and> PmeIdx (4 - d') w = PmeIdx (4 - d) v")
    case True
    with pt_treeD[OF tree t, of w d'] t' d \<open>d' \<le> 3\<close> have "d' = d" "agree v w d" by auto
    with True w show ?thesis by (auto simp: agree_Suc)
  qed (auto simp: put_entry_def)
qed

lemma put_entry_above:
  assumes tree: "pt_tree T root" and t: "tab T root v d = Some t" and d: "d \<le> 3" and "d' \<le> d"
  shows "tab (put_entry T t i e) root w d' = tab T root w d'"
  using assms(4)
proof (induction d')
  case (Suc d')
  then have IH: "tab (put_entry T t i e) root w d' = tab T root w d'" by simp
  show ?case
  proof (cases "tab T root w d'")
    case (Some t')
    have "t' \<noteq> t" using pt_treeD[OF tree t, of w d'] Some Suc.prems d by auto
    then have "put_entry T t i e t' = T t'" by (simp add: put_entry_def)
    with IH Some show ?thesis by simp
  qed (use IH in simp)
qed simp


section \<open>A new table\<close>

text \<open>What \<open>Mmu_NextTable\<close> does to the memory when it allocates the zeroed table \<open>f\<close>.\<close>

definition new_table :: "page_tables \<Rightarrow> u64 \<Rightarrow> u64 \<Rightarrow> u64 \<Rightarrow> u64 \<Rightarrow> u64 \<Rightarrow> nat \<Rightarrow> bool" where
  "new_table T root v t f e d \<longleftrightarrow> pt_tree T root \<and> tab T root v d = Some t \<and> d \<le> 2 \<and>
     \<not> PME_IsPresent (T t (PmeIdx (4 - d) v)) \<and>
     (\<forall>w d'. d' \<le> 3 \<longrightarrow> tab T root w d' \<noteq> Some f) \<and>
     PME_IsPresent e \<and> \<not> PME_IsHuge (4 - d) e \<and> PME_GetNextLevelTable e = f"

definition new_table_mem :: "page_tables \<Rightarrow> u64 \<Rightarrow> u64 \<Rightarrow> u64 \<Rightarrow> u64 \<Rightarrow> nat \<Rightarrow> page_tables" where
  "new_table_mem T v t f e d = put_entry (T(f := (\<lambda>_. 0))) t (PmeIdx (4 - d) v) e"

lemma new_tableD:
  assumes "new_table T root v t f e d"
  shows "pt_tree T root" "tab T root v d = Some t" "d \<le> 2" "\<not> PME_IsPresent (T t (PmeIdx (4 - d) v))"
    "\<And>w d'. d' \<le> 3 \<Longrightarrow> tab T root w d' \<noteq> Some f" "PME_IsPresent e" "\<not> PME_IsHuge (4 - d) e"
    "PME_GetNextLevelTable e = f" "t \<noteq> f"
proof -
  show "pt_tree T root" "tab T root v d = Some t" "d \<le> 2" "\<not> PME_IsPresent (T t (PmeIdx (4 - d) v))"
    "\<And>w d'. d' \<le> 3 \<Longrightarrow> tab T root w d' \<noteq> Some f" "PME_IsPresent e" "\<not> PME_IsHuge (4 - d) e"
    "PME_GetNextLevelTable e = f" using assms by (simp_all add: new_table_def)
  have all: "\<And>w d'. d' \<le> 3 \<Longrightarrow> tab T root w d' \<noteq> Some f" and t: "tab T root v d = Some t" and "d \<le> 3"
    using assms by (simp_all add: new_table_def)
  show "t \<noteq> f" using all[OF \<open>d \<le> 3\<close>, of v] t by simp
qed

lemma new_table_entry:
  "x \<noteq> f \<Longrightarrow> \<not> (x = t \<and> i = PmeIdx (4 - d) v) \<Longrightarrow> new_table_mem T v t f e d x i = T x i"
  by (auto simp: new_table_mem_def put_entry_def)

lemma new_table_new:
  "new_table_mem T v t f e d t (PmeIdx (4 - d) v) = e"
  "t \<noteq> f \<Longrightarrow> new_table_mem T v t f e d f i = 0"
  by (auto simp: new_table_mem_def put_entry_def)

lemma new_table_other:
  assumes n: "new_table T root v t f e d" and w: "\<not> agree v w (Suc d)"
  shows "same_path T (new_table_mem T v t f e d) root w"
  unfolding same_path_def
proof (intro allI impI)
  fix d' t' assume d': "d' \<le> 3" and t': "tab T root w d' = Some t'"
  have "t' \<noteq> f" using new_tableD(5)[OF n d', of w] t' by auto
  moreover have "\<not> (t' = t \<and> PmeIdx (4 - d') w = PmeIdx (4 - d) v)"
  proof
    assume *: "t' = t \<and> PmeIdx (4 - d') w = PmeIdx (4 - d) v"
    with pt_treeD[OF new_tableD(1,2)[OF n], of w d'] t' new_tableD(3)[OF n] d'
    have "d' = d" "agree v w d" by auto
    with * w show False by (auto simp: agree_Suc)
  qed
  ultimately show "new_table_mem T v t f e d t' (PmeIdx (4 - d') w) = T t' (PmeIdx (4 - d') w)"
    by (rule new_table_entry)
qed

lemma new_table_above:
  assumes n: "new_table T root v t f e d" and "d' \<le> d"
  shows "tab (new_table_mem T v t f e d) root w d' = tab T root w d'"
  using assms(2)
proof (induction d')
  case (Suc d')
  let ?T' = "new_table_mem T v t f e d"
  from Suc have IH: "tab ?T' root w d' = tab T root w d'" by simp
  from Suc.prems new_tableD(3)[OF n] have d3: "d' \<le> 3" "d \<le> 3" by auto
  show ?case
  proof (cases "tab T root w d'")
    case (Some t')
    have "t' \<noteq> t" using pt_treeD[OF new_tableD(1,2)[OF n], of w d'] Some Suc.prems d3 by auto
    moreover have "t' \<noteq> f" using new_tableD(5)[OF n d3(1), of w] Some by auto
    ultimately have "?T' t' i = T t' i" for i by (intro new_table_entry) auto
    with IH Some show ?thesis by simp
  qed (use IH in simp)
qed simp

lemma new_table_at:
  assumes n: "new_table T root v t f e d" and w: "agree v w (Suc d)"
  shows "tab (new_table_mem T v t f e d) root w (Suc d) = Some f"
proof -
  have "tab T root w d = Some t"
    using tab_agree[of v w d T root] new_tableD(2)[OF n] w by (simp add: agree_Suc)
  then have "tab (new_table_mem T v t f e d) root w d = Some t" using new_table_above[OF n, of d w] by simp
  moreover from w have "PmeIdx (4 - d) w = PmeIdx (4 - d) v" by (simp add: agree_Suc)
  ultimately show ?thesis using new_tableD(6-8)[OF n] by (simp add: new_table_new(1))
qed

lemma new_table_below:
  assumes n: "new_table T root v t f e d" and w: "agree v w (Suc d)" and "Suc d < d'"
  shows "tab (new_table_mem T v t f e d) root w d' = None"
proof -
  have "tab (new_table_mem T v t f e d) root w (Suc (Suc d)) = None"
    using new_table_at[OF n w] by (simp add: new_table_new(2)[OF new_tableD(9)[OF n]] PME_IsPresent_def)
  then show ?thesis by (rule tab_None_mono) (use assms(3) in simp)
qed

lemma new_table_Translate:
  assumes n: "new_table T root v t f e d"
  shows "Mmu_Translate (new_table_mem T v t f e d) root w = Mmu_Translate T root w"
proof (cases "agree v w (Suc d)")
  case False
  then show ?thesis by (intro same_path_Translate new_table_other[OF n])
next
  case True
  then have idx: "PmeIdx (4 - d) w = PmeIdx (4 - d) v" and "tab T root w d = Some t"
    using tab_agree[of v w d T root] new_tableD(2)[OF n] by (simp_all add: agree_Suc)
  then have "Mmu_Translate T root w = Inl NotFound"
    using Translate_absent[of T root w d t] new_tableD(3,4)[OF n] by simp
  moreover have "Mmu_Translate (new_table_mem T v t f e d) root w = Inl NotFound"
    using Translate_absent[OF new_table_at[OF n True]] new_tableD(3)[OF n]
    by (simp add: new_table_new(2)[OF new_tableD(9)[OF n]] PME_IsPresent_def)
  ultimately show ?thesis by simp
qed

lemma new_table_tab:
  assumes n: "new_table T root v t f e d" and d': "d' \<le> 3"
  shows "tab (new_table_mem T v t f e d) root w d' =
    (if agree v w (Suc d) \<and> d < d' then (if d' = Suc d then Some f else None) else tab T root w d')"
proof (cases "agree v w (Suc d) \<and> d < d'")
  case True
  then show ?thesis using new_table_at[OF n, of w] new_table_below[OF n, of w d'] by (cases "d' = Suc d") auto
next
  case False
  then consider "d' \<le> d" | "\<not> agree v w (Suc d)" by linarith
  then show ?thesis
    by cases (use new_table_above[OF n, of d' w] same_path_tab[OF new_table_other[OF n], of w d'] d' in auto)
qed

lemma new_table_tree:
  assumes n: "new_table T root v t f e d"
  shows "pt_tree (new_table_mem T v t f e d) root"
  unfolding pt_tree_def
proof (intro allI impI)
  fix x y dx dy s
  assume d3: "dx \<le> 3" "dy \<le> 3" and x: "tab (new_table_mem T v t f e d) root x dx = Some s"
    and y: "tab (new_table_mem T v t f e d) root y dy = Some s"
  have fx: "s = f \<longleftrightarrow> agree v z (Suc d) \<and> dz = Suc d"
    if "dz \<le> 3" "tab (new_table_mem T v t f e d) root z dz = Some s" for z dz
    using that new_tableD(5)[OF n, of dz z] unfolding new_table_tab[OF n that(1)] by (auto split: if_splits)
  show "dx = dy \<and> agree x y dx"
  proof (cases "s = f")
    case True
    with fx[OF d3(1) x] fx[OF d3(2) y] show ?thesis using agree_trans by blast
  next
    case False
    then have "tab T root x dx = Some s" "tab T root y dy = Some s"
      using x y unfolding new_table_tab[OF n d3(1)] new_table_tab[OF n d3(2)] by (auto split: if_splits)
    with new_tableD(1)[OF n] d3 show ?thesis unfolding pt_tree_def by blast
  qed
qed


section \<open>The state invariant\<close>

text \<open>
  A table page: known to the metadata table, tagged as a page table, not free, and below the
  52-bit physical address limit of the entry format.
\<close>

definition table_page :: "buddy_pmm \<Rightarrow> u64 \<Rightarrow> bool" where
  "table_page b t \<longleftrightarrow> (\<exists>x. t = PageFrameAddr (of_nat x) \<and> x < length (bd_pmt b) \<and>
     x \<notin> bd_free_pages b \<and> ty (bd_pmt b) x = PageTable)"

definition mmu_inv :: "mmu_mem \<Rightarrow> u64 \<Rightarrow> bool" where
  "mmu_inv st root \<longleftrightarrow> bd_wf (mm_buddy st) \<and> length (bd_pmt (mm_buddy st)) \<le> 2 ^ 40 \<and>
     pt_tree (mm_tables st) root \<and>
     (\<forall>v d t. d \<le> 3 \<longrightarrow> tab (mm_tables st) root v d = Some t \<longrightarrow> table_page (mm_buddy st) t)"

lemma PageFrameNumber_pfn:
  assumes "x < 2 ^ 40"
  shows "PageFrameNumber_ptr (PageFrameAddr (of_nat x)) = Some (of_nat x)" and "unat (of_nat x :: u64) = x"
    and "unat (PageFrameAddr (of_nat x)) = 4096 * x"
proof -
  from assms show u: "unat (of_nat x :: u64) = x" by (intro unat_of_nat_u64) simp
  with unat_PageFrameAddr[of "of_nat x"] assms show a: "unat (PageFrameAddr (of_nat x)) = 4096 * x" by simp
  have "AlignDown (PageFrameAddr (of_nat x)) kPageSizeBytes = PageFrameAddr (of_nat x)"
    by (rule iffD2[OF word_unat_eq_iff]) (simp add: unat_AlignDown_page a)
  with PageFrameNumber_PageFrameAddr[of "of_nat x"] u assms
  show "PageFrameNumber_ptr (PageFrameAddr (of_nat x)) = Some (of_nat x)"
    by (simp add: PageFrameNumber_ptr_def PageFrameAddr_ptr_def)
qed

lemma PageFrameAddr_inj:
  assumes "x < 2 ^ 40" and "y < 2 ^ 40" and "PageFrameAddr (of_nat x) = PageFrameAddr (of_nat y)"
  shows "x = y"
  using arg_cong[OF assms(3), of unat]
  unfolding PageFrameNumber_pfn(3)[OF assms(1)] PageFrameNumber_pfn(3)[OF assms(2)] by simp

lemma bd_wf_put:
  assumes wf: "bd_wf b" and x: "x < length (bd_pmt b)" "ty (bd_pmt b) x \<noteq> Buddy" and m: "pm_type m \<noteq> Buddy"
    and b': "b' = b\<lparr>bd_pmt := (bd_pmt b)[x := m]\<rparr>"
  shows "bd_wf b'" and "bd_free_pages b' = bd_free_pages b" and "length (bd_pmt b') = length (bd_pmt b)"
    and "ty (bd_pmt b') = (ty (bd_pmt b))(x := pm_type m)"
proof -
  let ?M = "bd_pmt b" and ?F = "buddies (bd_pmt b)"
  from x have xF: "x \<notin> ?F" by (simp add: buddies_def)
  show len: "length (bd_pmt b') = length ?M" and ty': "ty (bd_pmt b') = (ty ?M)(x := pm_type m)"
    using x by (auto simp: b' nth_list_update)
  have bs: "buddies (bd_pmt b') = ?F" using fun_cong[OF ty'] m x by (auto simp: buddies_def len split: if_splits)
  have keep: "ord (bd_pmt b') z = ord ?M z" if "z \<in> ?F" for z
    using that xF by (cases "z = x") (auto simp: b')
  have "lists_ok b' ?F" using wf lists_ok_put[OF _ xF x(1), of m] by (simp add: bd_wf_def bgeo_def b')
  with wf show "bd_wf b'"
    using geo_cong[of ?F "ord (bd_pmt b')" "ord ?M", OF keep]
      coalesced_cong[of ?F "ord (bd_pmt b')" "ord ?M", OF keep]
    unfolding bd_wf_def bgeo_def bcoalesced_def bs len by blast
  show "bd_free_pages b' = bd_free_pages b"
    unfolding bd_free_pages_def bs by (rule fpages_cong) (rule keep)
qed

text \<open>Changing the metadata of an allocated page keeps the allocator and the tables.\<close>

lemma update_meta_ok:
  assumes wf: "bd_wf (mm_buddy st)" and sz: "length (bd_pmt (mm_buddy st)) \<le> 2 ^ 40"
    and x: "x < length (bd_pmt (mm_buddy st))" "ty (bd_pmt (mm_buddy st)) x \<noteq> Buddy"
    and f: "f (bd_pmt (mm_buddy st) ! x) = Some m" "pm_type m \<noteq> Buddy"
  obtains st' where "update_meta st (PageFrameAddr (of_nat x)) f = Some st'"
    and "mm_tables st' = mm_tables st" and "bd_wf (mm_buddy st')"
    and "bd_free_pages (mm_buddy st') = bd_free_pages (mm_buddy st)"
    and "length (bd_pmt (mm_buddy st')) = length (bd_pmt (mm_buddy st))"
    and "ty (bd_pmt (mm_buddy st')) = (ty (bd_pmt (mm_buddy st)))(x := pm_type m)"
proof -
  let ?b = "(mm_buddy st)\<lparr>bd_pmt := (bd_pmt (mm_buddy st))[x := m]\<rparr>"
  from x(1) sz have "x < 2 ^ 40" by simp
  note pfn = PageFrameNumber_pfn[OF this]
  have "update_meta st (PageFrameAddr (of_nat x)) f = Some (st\<lparr>mm_buddy := ?b\<rparr>)"
    using x f by (simp add: update_meta_def pfn(1,2))
  moreover have "mm_buddy (st\<lparr>mm_buddy := ?b\<rparr>) = ?b" "mm_tables (st\<lparr>mm_buddy := ?b\<rparr>) = mm_tables st" by simp_all
  ultimately show thesis
    using bd_wf_put[OF wf x f(2) refl] by (intro that[of "st\<lparr>mm_buddy := ?b\<rparr>"]) (simp_all only:)
qed


text \<open>The outcome of taking a table page from the buddy allocator.\<close>

lemma AllocateTable_ok:
  assumes wf: "bd_wf (mm_buddy st)" and sz: "length (bd_pmt (mm_buddy st)) \<le> 2 ^ 40"
  obtains (oom) "AllocateTable st level = Some (Inl OutOfMemory, st)"
  | (ok) x st' where "AllocateTable st level = Some (Inr (PageFrameAddr (of_nat x)), st')"
      and "x \<in> bd_free_pages (mm_buddy st)" and "x < length (bd_pmt (mm_buddy st))"
      and "mm_tables st' = (mm_tables st)(PageFrameAddr (of_nat x) := (\<lambda>_. 0))"
      and "bd_wf (mm_buddy st')" and "length (bd_pmt (mm_buddy st')) = length (bd_pmt (mm_buddy st))"
      and "bd_free_pages (mm_buddy st') = bd_free_pages (mm_buddy st) - {x}"
      and "ty (bd_pmt (mm_buddy st')) x = PageTable"
      and "\<And>z. z \<notin> bd_free_pages (mm_buddy st) \<Longrightarrow>
        ty (bd_pmt (mm_buddy st')) z = ty (bd_pmt (mm_buddy st)) z"
proof -
  let ?b = "mm_buddy st"
  have o: "unat (0 :: u8) \<le> 10" by simp
  note al = Alloc_ok[OF wf o]
  show thesis
  proof (cases "\<exists>y\<in>buddies (bd_pmt ?b). unat (0 :: u8) \<le> ord (bd_pmt ?b) y")
    case False
    with al have "BuddyPmm_Alloc ?b 0 = Some (Inl OutOfMemory, ?b)" by simp
    then have "AllocateTable st level = Some (Inl OutOfMemory, st)" by (simp add: AllocateTable_def)
    then show thesis by (rule oom)
  next
    case True
    with al obtain x b1 where a: "BuddyPmm_Alloc ?b 0 = Some (Inr (PageFrameAddr (of_nat x)), b1)"
      and post: "alloc_post ?b 0 x b1" by auto
    from post have x: "x \<in> bd_free_pages ?b" "x < length (bd_pmt ?b)" "ty (bd_pmt b1) x = Allocated"
      and len1: "length (bd_pmt b1) = length (bd_pmt ?b)" and fp1: "bd_free_pages b1 = bd_free_pages ?b - {x}"
      and out1: "\<And>z. z \<notin> bd_free_pages ?b \<Longrightarrow> ty (bd_pmt b1) z = ty (bd_pmt ?b) z"
      by (auto simp: alloc_post_def page_not_in_blk0)
    let ?st1 = "\<lparr>mm_tables = (mm_tables st)(PageFrameAddr (of_nat x) := (\<lambda>_. 0)), mm_buddy = b1\<rparr>"
    let ?m = "InitPageTable level (bd_pmt b1 ! x)"
    have mt: "pm_type ?m = PageTable" by (simp add: InitPageTable_def)
    obtain st' where st': "update_meta ?st1 (PageFrameAddr (of_nat x)) (\<lambda>m. Some (InitPageTable level m)) = Some st'"
      "mm_tables st' = mm_tables ?st1" "bd_wf (mm_buddy st')"
      "bd_free_pages (mm_buddy st') = bd_free_pages (mm_buddy ?st1)"
      "length (bd_pmt (mm_buddy st')) = length (bd_pmt (mm_buddy ?st1))"
      "ty (bd_pmt (mm_buddy st')) = (ty (bd_pmt (mm_buddy ?st1)))(x := pm_type ?m)"
      by (rule update_meta_ok[of ?st1 x "\<lambda>m. Some (InitPageTable level m)" ?m])
        (use alloc_post_wf[OF wf post] sz len1 x mt in simp_all)
    have "AllocateTable st level = Some (Inr (PageFrameAddr (of_nat x)), st')"
      using a st'(1) by (simp add: AllocateTable_def)
    moreover have "ty (bd_pmt (mm_buddy st')) z = ty (bd_pmt ?b) z" if "z \<notin> bd_free_pages ?b" for z
      using fun_cong[OF st'(6), of z] out1[OF that] that x(1) by (cases "z = x") auto
    moreover have "ty (bd_pmt (mm_buddy st')) x = PageTable" using fun_cong[OF st'(6), of x] mt by simp
    ultimately show thesis using x st' len1 fp1 by (intro ok[of x st']) simp_all
  qed
qed

lemma IncreaseUsage_ok:
  assumes inv: "mmu_inv st root" and t: "table_page (mm_buddy st) t"
  obtains st' where "IncreaseUsage st t = Some st'" and "mm_tables st' = mm_tables st" and "mmu_inv st' root"
    and "bd_free_pages (mm_buddy st') = bd_free_pages (mm_buddy st)"
proof -
  from inv have wf: "bd_wf (mm_buddy st)" and sz: "length (bd_pmt (mm_buddy st)) \<le> 2 ^ 40"
    by (simp_all add: mmu_inv_def)
  from t obtain x where x: "t = PageFrameAddr (of_nat x)" "x < length (bd_pmt (mm_buddy st))"
    "x \<notin> bd_free_pages (mm_buddy st)" "ty (bd_pmt (mm_buddy st)) x = PageTable" by (auto simp: table_page_def)
  let ?m0 = "bd_pmt (mm_buddy st) ! x"
  let ?m = "?m0\<lparr>pm_ref_count := pm_ref_count ?m0 + 1\<rparr>"
  let ?f = "\<lambda>m. do { AsPageTable m; Some (m\<lparr>pm_ref_count := pm_ref_count m + 1\<rparr>) }"
  obtain st' where st': "update_meta st (PageFrameAddr (of_nat x)) ?f = Some st'"
    "mm_tables st' = mm_tables st" "bd_wf (mm_buddy st')"
    "bd_free_pages (mm_buddy st') = bd_free_pages (mm_buddy st)"
    "length (bd_pmt (mm_buddy st')) = length (bd_pmt (mm_buddy st))"
    "ty (bd_pmt (mm_buddy st')) = (ty (bd_pmt (mm_buddy st)))(x := pm_type ?m)"
    by (rule update_meta_ok[OF wf sz x(2), of ?f ?m]) (use x(4) in \<open>simp_all add: AsPageTable_def\<close>)
  have "ty (bd_pmt (mm_buddy st')) z = ty (bd_pmt (mm_buddy st)) z" for z
    using fun_cong[OF st'(6), of z] by (cases "z = x") simp_all
  then have "table_page (mm_buddy st') s = table_page (mm_buddy st) s" for s
    using st'(4,5) by (simp add: table_page_def)
  with inv st' have "mmu_inv st' root" by (simp add: mmu_inv_def)
  with st' x(1) show thesis by (intro that[of st']) (simp_all add: IncreaseUsage_def)
qed


section \<open>Mapping\<close>

definition no_huge :: "page_tables \<Rightarrow> u64 \<Rightarrow> u64 \<Rightarrow> bool" where
  "no_huge T root v \<longleftrightarrow> (\<forall>d t. d \<le> 2 \<longrightarrow> tab T root v d = Some t \<longrightarrow>
     \<not> PME_IsHuge (4 - d) (T t (PmeIdx (4 - d) v)))"

text \<open>What one step of \<open>Map\<close> keeps, and that it moves one level down the path.\<close>

definition step_post :: "mmu_mem \<Rightarrow> mmu_mem \<Rightarrow> u64 \<Rightarrow> u64 \<Rightarrow> bool" where
  "step_post st st' root v \<longleftrightarrow> mmu_inv st' root \<and> no_huge (mm_tables st') root v \<and>
     (\<forall>w. Mmu_Translate (mm_tables st') root w = Mmu_Translate (mm_tables st) root w)"

lemma NextTable_new:
  assumes inv: "mmu_inv st root" and nh: "no_huge (mm_tables st) root v"
    and t: "tab (mm_tables st) root v d = Some t" and d: "d \<le> 2"
    and absent: "\<not> PME_IsPresent (mm_tables st t (PmeIdx (4 - d) v))"
    and al: "AllocateTable st level = Some (Inr f, st1)" and f: "f = PageFrameAddr (of_nat x)"
    and x: "x \<in> bd_free_pages (mm_buddy st)" "x < length (bd_pmt (mm_buddy st))"
    and tabs1: "mm_tables st1 = (mm_tables st)(f := (\<lambda>_. 0))"
    and wf1: "bd_wf (mm_buddy st1)" and len1: "length (bd_pmt (mm_buddy st1)) = length (bd_pmt (mm_buddy st))"
    and fp1: "bd_free_pages (mm_buddy st1) = bd_free_pages (mm_buddy st) - {x}"
    and tyx: "ty (bd_pmt (mm_buddy st1)) x = PageTable"
    and tyz: "\<And>z. z \<notin> bd_free_pages (mm_buddy st) \<Longrightarrow> ty (bd_pmt (mm_buddy st1)) z = ty (bd_pmt (mm_buddy st)) z"
  shows "\<exists>st'. Mmu_NextTable st t (PmeIdx (4 - d) v) level = Some (Inr f, st') \<and> step_post st st' root v \<and>
     tab (mm_tables st') root v (Suc d) = Some f"
proof -
  let ?T = "mm_tables st" and ?i = "PmeIdx (4 - d) v"
  let ?e = "PME_SetNextLevelTable (?T t ?i) f kDefTableFlags"
  let ?T' = "new_table_mem ?T v t f ?e d"
  from inv have sz: "length (bd_pmt (mm_buddy st)) \<le> 2 ^ 40" and tree: "pt_tree ?T root"
    and pages: "\<And>w d' s. d' \<le> 3 \<Longrightarrow> tab ?T root w d' = Some s \<Longrightarrow> table_page (mm_buddy st) s"
    by (simp_all add: mmu_inv_def)
  have x40: "x < 2 ^ 40" using x(2) sz by simp
  have fa: "frame_addr f" unfolding f by (rule frame_addr_pfn[OF x40])
  have fresh: "tab ?T root w d' \<noteq> Some f" if "d' \<le> 3" for w d'
  proof
    assume "tab ?T root w d' = Some f"
    from pages[OF that this] obtain y where y: "f = PageFrameAddr (of_nat y)" "y < length (bd_pmt (mm_buddy st))"
      "y \<notin> bd_free_pages (mm_buddy st)" by (auto simp: table_page_def)
    have "x = y" using PageFrameAddr_inj[OF x40, of y] y(1,2) f sz by simp
    with x(1) y(3) show False by simp
  qed
  have huge: "\<not> PME_IsHuge (4 - d) (?T t ?i)" using nh t d by (simp add: no_huge_def)
  have n: "new_table ?T root v t f ?e d"
    unfolding new_table_def using tree t d absent fresh huge PME_set_present PME_next_set[OF fa] by blast
  have tf: "t \<noteq> f" using new_tableD(9)[OF n] .
  let ?st2 = "st1\<lparr>mm_tables := ?T'\<rparr>"
  have page: "table_page (mm_buddy st1) s" if "d' \<le> 3" "tab ?T' root w d' = Some s" for w d' s
  proof (cases "s = f")
    case True
    then show ?thesis using f x(2) fp1 tyx len1 by (auto simp: table_page_def)
  next
    case False
    then have "tab ?T root w d' = Some s" using that(2) unfolding new_table_tab[OF n that(1)] by (auto split: if_splits)
    from pages[OF that(1) this] show ?thesis using fp1 tyz len1 by (auto simp: table_page_def)
  qed
  have inv2: "mmu_inv ?st2 root"
    using wf1 sz len1 new_table_tree[OF n] page by (simp add: mmu_inv_def)
  have "tab ?T' root v d = Some t" using new_table_above[OF n, of d v] t by simp
  then have tp: "table_page (mm_buddy ?st2) t" using page[of d v t] d by simp
  obtain st' where st': "IncreaseUsage ?st2 t = Some st'" "mm_tables st' = ?T'" "mmu_inv st' root"
    by (rule IncreaseUsage_ok[OF inv2 tp]) auto
  have put: "put_entry (mm_tables st1) t ?i (PME_SetNextLevelTable (mm_tables st1 t ?i) f kDefTableFlags) = ?T'"
    using tf by (simp add: new_table_mem_def tabs1)
  have "Mmu_NextTable st t ?i level = Some (Inr f, st')"
    using absent al st'(1) put tabs1 tf PME_next_set[OF fa] by (simp add: Mmu_NextTable_def Let_def)
  moreover have "no_huge ?T' root v"
    unfolding no_huge_def
  proof (intro allI impI)
    fix d' s assume d': "d' \<le> 2" and s: "tab ?T' root v d' = Some s"
    show "\<not> PME_IsHuge (4 - d') (?T' s (PmeIdx (4 - d') v))"
    proof (cases "s = f \<or> (s = t \<and> PmeIdx (4 - d') v = ?i)")
      case True
      then show ?thesis
      proof
        assume "s = f"
        then show ?thesis using new_table_new(2)[OF tf] by (simp add: PME_IsHuge_def)
      next
        assume st: "s = t \<and> PmeIdx (4 - d') v = ?i"
        then have "tab ?T' root v d = Some s" using new_table_above[OF n, of d v] t by simp
        then have "d' = d" using pt_treeD[OF new_table_tree[OF n] s, of v d] d d' by simp
        with st show ?thesis using new_table_new(1)[of ?T v t f ?e d] new_tableD(7)[OF n] by simp
      qed
    next
      case False
      then have "?T' s (PmeIdx (4 - d') v) = ?T s (PmeIdx (4 - d') v)" by (intro new_table_entry) auto
      moreover have "tab ?T root v d' = Some s"
        using s False d' new_table_tab[OF n, of d' v] by (auto split: if_splits)
      ultimately show ?thesis using nh d' by (simp add: no_huge_def)
    qed
  qed
  then have "step_post st st' root v"
    unfolding step_post_def st'(2) using st'(3) new_table_Translate[OF n] by blast
  moreover have "tab (mm_tables st') root v (Suc d) = Some f"
    unfolding st'(2) by (rule new_table_at[OF n agree_refl])
  ultimately show ?thesis by blast
qed

lemma NextTable_ok:
  assumes inv: "mmu_inv st root" and nh: "no_huge (mm_tables st) root v"
    and t: "tab (mm_tables st) root v d = Some t" and d: "d \<le> 2"
  obtains (oom) "Mmu_NextTable st t (PmeIdx (4 - d) v) level = Some (Inl OutOfMemory, st)"
  | (ok) n st' where "Mmu_NextTable st t (PmeIdx (4 - d) v) level = Some (Inr n, st')"
      and "step_post st st' root v" and "tab (mm_tables st') root v (Suc d) = Some n"
proof (cases "PME_IsPresent (mm_tables st t (PmeIdx (4 - d) v))")
  case True
  have "\<not> PME_IsHuge (4 - d) (mm_tables st t (PmeIdx (4 - d) v))" using nh t d by (simp add: no_huge_def)
  with True t have "tab (mm_tables st) root v (Suc d) = Some (PME_GetNextLevelTable (mm_tables st t (PmeIdx (4 - d) v)))"
    by simp
  moreover have "step_post st st root v" using inv nh by (simp add: step_post_def)
  ultimately show thesis using ok True by (simp add: Mmu_NextTable_def Let_def)
next
  case False
  from inv have wf: "bd_wf (mm_buddy st)" and sz: "length (bd_pmt (mm_buddy st)) \<le> 2 ^ 40"
    by (simp_all add: mmu_inv_def)
  show thesis
  proof (cases rule: AllocateTable_ok[OF wf sz, of level])
    case 1
    then show thesis using oom False by (simp add: Mmu_NextTable_def Let_def)
  next
    case (2 x st1)
    from NextTable_new[OF inv nh t d False 2(1) refl 2(2-9)] ok show thesis by blast
  qed
qed


text \<open>Writing the leaf entry.\<close>

lemma leaf_put:
  assumes inv: "mmu_inv st root" and pt: "tab (mm_tables st) root v 3 = Some pt"
    and absent: "\<not> PME_IsPresent (mm_tables st pt (PmeIdx 1 v))"
    and st': "st' = st\<lparr>mm_tables := put_entry (mm_tables st) pt (PmeIdx 1 v) e\<rparr>"
  shows "mmu_inv st' root" and "table_page (mm_buddy st') pt"
    and "PME_IsPresent e \<Longrightarrow> Mmu_Translate (mm_tables st') root v = Inr (PME_GetFrameAddress e + (v AND mask 12))"
    and "\<not> agree v w 4 \<Longrightarrow> Mmu_Translate (mm_tables st') root w = Mmu_Translate (mm_tables st) root w"
proof -
  let ?T = "mm_tables st" and ?T' = "put_entry (mm_tables st) pt (PmeIdx 1 v) e"
  from inv have tree: "pt_tree ?T root"
    and pages: "\<And>w d' s. d' \<le> 3 \<Longrightarrow> tab ?T root w d' = Some s \<Longrightarrow> table_page (mm_buddy st) s"
    by (simp_all add: mmu_inv_def)
  have above: "tab ?T' root w d' = tab ?T root w d'" if "d' \<le> 3" for w d'
    using put_entry_above[OF tree pt _ that] by simp
  have "pt_tree ?T' root"
    unfolding pt_tree_def using tree above unfolding pt_tree_def by metis
  then show "mmu_inv st' root" using inv above pages by (simp add: mmu_inv_def st')
  show "table_page (mm_buddy st') pt" using pages[OF _ pt] by (simp add: st')
  have "tab ?T' root v 3 = Some pt" using above[of 3 v] pt by simp
  from Translate_leaf[OF this] show "PME_IsPresent e \<Longrightarrow>
    Mmu_Translate (mm_tables st') root v = Inr (PME_GetFrameAddress e + (v AND mask 12))"
    by (simp add: st' put_entry_def)
  assume "\<not> agree v w 4"
  moreover have "4 = Suc 3" by simp
  ultimately have "\<not> agree v w (Suc 3)" by metis
  from put_entry_other[OF tree pt _ this, of e] have "same_path ?T ?T' root w" by simp
  then show "Mmu_Translate (mm_tables st') root w = Mmu_Translate (mm_tables st) root w"
    unfolding st' by (simp add: same_path_Translate)
qed

lemma step_post_trans: "step_post a b root v \<Longrightarrow> step_post b c root v \<Longrightarrow> step_post a c root v"
  by (simp add: step_post_def)

definition map_post :: "mmu_mem \<Rightarrow> u64 \<Rightarrow> u64 \<Rightarrow> u64 \<Rightarrow> (MemError, unit) expected \<Rightarrow> mmu_mem \<Rightarrow> bool" where
  "map_post st root v paddr r st' \<longleftrightarrow> mmu_inv st' root \<and>
     (case r of
        Inr _ \<Rightarrow> Mmu_Translate (mm_tables st) root v = Inl NotFound \<and>
          Mmu_Translate (mm_tables st') root v = Inr (paddr + (v AND mask 12)) \<and>
          (\<forall>w. (\<exists>l\<in>{1..4}. PmeIdx l w \<noteq> PmeIdx l v) \<longrightarrow>
             Mmu_Translate (mm_tables st') root w = Mmu_Translate (mm_tables st) root w)
      | Inl e \<Rightarrow> (e = OutOfMemory \<or> e = InvalidArgument \<and> Mmu_Translate (mm_tables st) root v \<noteq> Inl NotFound) \<and>
          (\<forall>w. Mmu_Translate (mm_tables st') root w = Mmu_Translate (mm_tables st) root w))"

lemma map_post_oom: "step_post st st' root v \<Longrightarrow> map_post st root v paddr (Inl OutOfMemory) st'"
  by (simp add: map_post_def step_post_def)

lemma not_agree_4: "(\<exists>l\<in>{1..4}. PmeIdx l w \<noteq> PmeIdx l v) \<Longrightarrow> \<not> agree v w 4"
proof
  assume "\<exists>l\<in>{1..4}. PmeIdx l w \<noteq> PmeIdx l v" and a: "agree v w 4"
  then obtain l where l: "1 \<le> l" "l \<le> 4" "PmeIdx l w \<noteq> PmeIdx l v" by auto
  then have "4 - l < 4" "4 - (4 - l) = l" by auto
  with a l(3) show False unfolding agree_def by (metis (full_types))
qed

lemma Map_leaf:
  assumes inv: "mmu_inv st3 root" and post: "step_post st st3 root v"
    and pt: "tab (mm_tables st3) root v 3 = Some pt" and fl: "pf_Present flags" and pa: "frame_addr paddr"
  shows "\<exists>r st'. (if PME_IsPresent (mm_tables st3 pt (PmeIdx 1 v)) then Some (Inl InvalidArgument, st3)
      else do {
        st4 \<leftarrow> IncreaseUsage (st3\<lparr>mm_tables := put_entry (mm_tables st3) pt (PmeIdx 1 v)
                  (PME_SetFrameAddress paddr (ToArchFlags flags))\<rparr>) pt;
        Some (Inr (), st4) }) = Some (r, st') \<and> map_post st root v paddr r st'"
proof (cases "PME_IsPresent (mm_tables st3 pt (PmeIdx 1 v))")
  case True
  with Translate_leaf[OF pt] have "Mmu_Translate (mm_tables st3) root v \<noteq> Inl NotFound" by simp
  with post have "map_post st root v paddr (Inl InvalidArgument) st3" by (simp add: map_post_def step_post_def)
  with True show ?thesis by auto
next
  case False
  let ?e = "PME_SetFrameAddress paddr (ToArchFlags flags)"
  let ?st = "st3\<lparr>mm_tables := put_entry (mm_tables st3) pt (PmeIdx 1 v) ?e\<rparr>"
  note lp = leaf_put[OF inv pt False, where e = ?e and st' = ?st, OF refl]
  obtain st4 where st4: "IncreaseUsage ?st pt = Some st4" "mm_tables st4 = mm_tables ?st" "mmu_inv st4 root"
    by (rule IncreaseUsage_ok[OF lp(1,2)]) auto
  have "Mmu_Translate (mm_tables st4) root v = Inr (paddr + (v AND mask 12))"
    using lp(3) fl PME_frame_set[OF pa] by (simp add: st4(2) PME_set_present(2))
  moreover have "Mmu_Translate (mm_tables st) root v = Inl NotFound"
    using Translate_leaf[OF pt] False post by (simp add: step_post_def)
  moreover have "Mmu_Translate (mm_tables st4) root w = Mmu_Translate (mm_tables st) root w"
    if "\<exists>l\<in>{1..4}. PmeIdx l w \<noteq> PmeIdx l v" for w
    using lp(4)[OF not_agree_4[OF that]] post by (simp add: st4(2) step_post_def)
  ultimately have "map_post st root v paddr (Inr ()) st4" using st4(3) by (simp add: map_post_def)
  with False st4(1) show ?thesis by simp
qed

lemma Map_ok:
  assumes inv: "mmu_inv st root" and nh: "no_huge (mm_tables st) root v"
    and fl: "pf_Present flags" and pa: "frame_addr paddr"
  obtains r st' where "Mmu_Map st root v paddr flags = Some (r, st')" and "map_post st root v paddr r st'"
proof -
  have t0: "tab (mm_tables st) root v 0 = Some root" by simp
  have post0: "step_post st st root v" using inv nh by (simp add: step_post_def)
  show thesis
  proof (cases rule: NextTable_ok[OF inv nh t0, of 3])
    case 2
    with that[of "Inl OutOfMemory" st] map_post_oom[OF post0] show thesis by (simp add: Mmu_Map_def)
  next
    case (3 n1 st1)
    then have inv1: "mmu_inv st1 root" and nh1: "no_huge (mm_tables st1) root v" by (auto simp: step_post_def)
    have m1: "Mmu_NextTable st root (PmeIdx 4 v) 3 = Some (Inr n1, st1)" using 3(1) by simp
    show thesis
    proof (cases rule: NextTable_ok[OF inv1 nh1 3(3), of 2])
      case 2
      with that[of "Inl OutOfMemory" st1] map_post_oom[OF 3(2)] m1 show thesis by (simp add: Mmu_Map_def)
    next
      case b: (3 n2 st2)
      then have inv2: "mmu_inv st2 root" and nh2: "no_huge (mm_tables st2) root v" by (auto simp: step_post_def)
      have m2: "Mmu_NextTable st1 n1 (PmeIdx 3 v) 2 = Some (Inr n2, st2)" using b(1) by simp
      note post2 = step_post_trans[OF 3(2) b(2)]
      show thesis
      proof (cases rule: NextTable_ok[OF inv2 nh2 b(3), of 1])
        case 2
        with that[of "Inl OutOfMemory" st2] map_post_oom[OF post2] m1 m2 show thesis by (simp add: Mmu_Map_def)
      next
        case c: (3 n3 st3)
        then have inv3: "mmu_inv st3 root" by (auto simp: step_post_def)
        have m3: "Mmu_NextTable st2 n2 (PmeIdx 2 v) 1 = Some (Inr n3, st3)" using c(1) by simp
        note post3 = step_post_trans[OF post2 c(2)]
        have pt: "tab (mm_tables st3) root v 3 = Some n3" using c(3) by (simp add: numeral_3_eq_3)
        obtain r st' where "(if PME_IsPresent (mm_tables st3 n3 (PmeIdx 1 v)) then Some (Inl InvalidArgument, st3)
          else do {
            st4 \<leftarrow> IncreaseUsage (st3\<lparr>mm_tables := put_entry (mm_tables st3) n3 (PmeIdx 1 v)
                  (PME_SetFrameAddress paddr (ToArchFlags flags))\<rparr>) n3;
            Some (Inr (), st4) }) = Some (r, st')" and "map_post st root v paddr r st'"
          using Map_leaf[OF inv3 post3 pt fl pa] by blast
        with that m1 m2 m3 show thesis by (simp add: Mmu_Map_def)
      qed simp
    qed simp
  qed simp
qed




lemma mmu_inv_empty:
  assumes "bd_wf b" and "length (bd_pmt b) \<le> 2 ^ 40" and "table_page b root" and "\<And>i. T root i = 0"
  shows "mmu_inv \<lparr>mm_tables = T, mm_buddy = b\<rparr> root" and "no_huge T root v"
proof -
  have tab: "tab T root w d = (if d = 0 then Some root else None)" for w d
    by (induction d) (auto simp: assms(4) PME_IsPresent_def)
  then show "mmu_inv \<lparr>mm_tables = T, mm_buddy = b\<rparr> root"
    using assms(1-3) by (simp add: mmu_inv_def pt_tree_def)
  show "no_huge T root v" using tab assms(4) by (simp add: no_huge_def PME_IsHuge_def)
qed

lemma mmu_example:
  obtains b where "mmu_inv \<lparr>mm_tables = (\<lambda>_ _. 0), mm_buddy = b\<rparr> 0" and "length (bd_pmt b) = 4"
proof -
  obtain b where b: "bd_wf b" "bd_free_pages b = {2, 3}" "length (bd_pmt b) = 4" by (rule bd_example)
  have "0 \<notin> buddies (bd_pmt b)" using free_in_fpages[of 0 "buddies (bd_pmt b)" "ord (bd_pmt b)"] b(2)
    by (auto simp: bd_free_pages_def)
  then have x: "0 < length (bd_pmt b)" "ty (bd_pmt b) 0 \<noteq> Buddy" using b(3) by (auto simp: buddies_def)
  let ?m = "InitPageTable 0 zero_meta"
  have m: "pm_type ?m = PageTable" by (simp add: InitPageTable_def)
  note put = bd_wf_put[OF b(1) x, of ?m, OF _ refl]
  let ?b = "b\<lparr>bd_pmt := (bd_pmt b)[0 := ?m]\<rparr>"
  have "table_page ?b 0"
    unfolding table_page_def using put(2-4) m b by (intro exI[of _ 0]) (simp add: PageFrameAddr_def)
  then show thesis using that mmu_inv_empty[of ?b 0 "\<lambda>_ _. 0"] put m b by simp
qed


end
