(* ===== verification/Addr_Space.thy ===== *)
theory Addr_Space
  imports Page_Tables
begin

text \<open>
  Address spaces: the memory areas and their page fault behaviour
  (\<open>kernel/src/mem/virt/area.hpp\<close>, \<open>area.cpp\<close>), the sorted list of areas with its gap search
  (\<open>addr_space.hpp\<close>, \<open>addr_space.cpp\<close>), the virtual memory manager (\<open>vmm.cpp\<close>) and the page fault
  handler (\<open>page_fault.cpp\<close>).

  The class hierarchy of areas is a datatype with the data of each subclass. The list of area
  pointers is a list of areas. Whether an allocation on the kernel heap succeeds (a list node, an
  area object, an address space object) is an argument of the operation, and each operation that
  takes ownership of a new area object also returns how many times it deleted that object.
\<close>

section \<open>Areas\<close>

record VMemAreaFlags =
  vf_readable :: bool
  vf_writable :: bool
  vf_executable :: bool
  vf_write_through :: bool
  vf_cache_disable :: bool

datatype area_kind = AnonymousVMemArea | DirectMappingVMemArea (da_phys_start: u64) | KernelSyncVMemArea

record vmem_area =
  va_start :: u64
  va_size :: u64
  va_flags :: VMemAreaFlags
  va_kind :: area_kind

definition VMemArea_GetEnd :: "vmem_area \<Rightarrow> u64" where
  "VMemArea_GetEnd a = va_start a + va_size a"

definition KernelSyncVMemArea_new :: vmem_area where
  "KernelSyncVMemArea_new =
     \<lparr>va_start = kKernelSpaceStart,
      va_size = AlignDown (kKernelSpaceEndInclusive - kKernelSpaceStart) kPageSizeBytes,
      va_flags = \<lparr>vf_readable = True, vf_writable = True, vf_executable = True,
                  vf_write_through = False, vf_cache_disable = False\<rparr>,
      va_kind = KernelSyncVMemArea\<rparr>"

record addr_space =
  as_page_table_root :: u64
  as_owns_page_table_root :: bool
  as_area_list :: "vmem_area list"

record TlbHint =
  th_start :: u64
  th_size :: u64

section \<open>AddressSpace\<close>

definition AS_new :: addr_space where
  "AS_new = \<lparr>as_page_table_root = 0, as_owns_page_table_root = False, as_area_list = []\<rparr>"

definition AS_InitUser :: "mmu_mem \<Rightarrow> addr_space \<Rightarrow> ((MemError, unit) expected \<times> mmu_mem \<times> addr_space) option" where
  "AS_InitUser st asp = do {
     (res, st1) \<leftarrow> AllocateTable st 0;
     case res of
       Inl e \<Rightarrow> Some (Inl e, st1, asp)
     | Inr root \<Rightarrow> Some (Inr (), st1, asp\<lparr>as_page_table_root := root, as_owns_page_table_root := True\<rparr>) }"

definition AS_InitKernel :: "addr_space \<Rightarrow> u64 \<Rightarrow> addr_space" where
  "AS_InitKernel asp kernel_root = asp\<lparr>as_page_table_root := kernel_root, as_owns_page_table_root := False\<rparr>"

definition AS_destroy :: "mmu_mem \<Rightarrow> addr_space \<Rightarrow> mmu_mem option" where
  "AS_destroy st asp =
     (if as_owns_page_table_root asp \<and> as_page_table_root asp \<noteq> 0
      then FreeTable st (as_page_table_root asp) else Some st)"

definition AreasOverlap :: "vmem_area \<Rightarrow> vmem_area \<Rightarrow> bool" where
  "AreasOverlap a b =
     (let a_s = va_start a; a_e = a_s + va_size a; b_s = va_start b; b_e = b_s + va_size b in
      a_s < b_e \<and> b_s < a_e)"

text \<open>The loop of \<open>AddArea\<close>; \<open>node_ok\<close> says whether the list node can be allocated.\<close>

fun AS_AddArea_loop :: "bool \<Rightarrow> vmem_area list \<Rightarrow> vmem_area \<Rightarrow> (MemError, vmem_area list) expected" where
  "AS_AddArea_loop node_ok [] vma = (if node_ok then Inr [vma] else Inl OutOfMemory)"
| "AS_AddArea_loop node_ok (current # rest) vma =
     (if AreasOverlap current vma then Inl InvalidArgument
      else if va_start vma < va_start current
      then (if node_ok then Inr (vma # current # rest) else Inl OutOfMemory)
      else case AS_AddArea_loop node_ok rest vma of
        Inl e \<Rightarrow> Inl e | Inr rest' \<Rightarrow> Inr (current # rest'))"

definition AS_AddArea ::
  "bool \<Rightarrow> addr_space \<Rightarrow> vmem_area \<Rightarrow> ((MemError, unit) expected \<times> addr_space \<times> nat) option" where
  "AS_AddArea node_ok asp vma = do {
     ASSERT (IsAligned (va_start vma) kPageSizeBytes);
     ASSERT (IsAligned (va_size vma) kPageSizeBytes);
     Some (case AS_AddArea_loop node_ok (as_area_list asp) vma of
       Inl e \<Rightarrow> (Inl e, asp, 1)
     | Inr areas \<Rightarrow> (Inr (), asp\<lparr>as_area_list := areas\<rparr>, 0)) }"

definition IsAddrInArea :: "vmem_area \<Rightarrow> u64 \<Rightarrow> bool" where
  "IsAddrInArea vma addr =
     (let vma_s = va_start vma; vma_e = vma_s + va_size vma in vma_s \<le> addr \<and> addr < vma_e)"

text \<open>\<open>FindAreaLocked\<close> returns a position in the list, \<open>FindArea\<close> the area there.\<close>

fun FindAreaLocked :: "vmem_area list \<Rightarrow> u64 \<Rightarrow> (MemError, nat) expected" where
  "FindAreaLocked [] ptr = Inl NotFound"
| "FindAreaLocked (vma # rest) ptr =
     (if IsAddrInArea vma ptr then Inr 0
      else case FindAreaLocked rest ptr of Inl e \<Rightarrow> Inl e | Inr i \<Rightarrow> Inr (Suc i))"

definition FindArea :: "addr_space \<Rightarrow> u64 \<Rightarrow> (MemError, vmem_area) expected" where
  "FindArea asp ptr = (case FindAreaLocked (as_area_list asp) ptr of
     Inl e \<Rightarrow> Inl e | Inr i \<Rightarrow> Inr (as_area_list asp ! i))"

definition AS_RmArea ::
  "mmu_mem \<Rightarrow> addr_space \<Rightarrow> u64 \<Rightarrow> ((MemError, TlbHint) expected \<times> mmu_mem \<times> addr_space) option" where
  "AS_RmArea st asp ptr = (case FindAreaLocked (as_area_list asp) ptr of
     Inl e \<Rightarrow> Some (Inl e, st, asp)
   | Inr i \<Rightarrow> do {
       let vma = as_area_list asp ! i;
       st1 \<leftarrow> Mmu_UnmapRange st (as_page_table_root asp) (va_start vma) (va_size vma);
       Some (Inr \<lparr>th_start = va_start vma, th_size = va_size vma\<rparr>, st1,
             asp\<lparr>as_area_list := take i (as_area_list asp) @ drop (Suc i) (as_area_list asp)\<rparr>) })"

definition area_page_flags :: "u64 \<Rightarrow> VMemAreaFlags \<Rightarrow> PageFlags" where
  "area_page_flags vaddr flags = (let is_kernel = IsKernelSpace vaddr in
     \<lparr>pf_Present = True, pf_Writable = vf_writable flags, pf_UserAccessible = \<not> is_kernel,
      pf_WriteThrough = vf_write_through flags, pf_CacheDisable = vf_cache_disable flags,
      pf_Global = is_kernel, pf_NoExecute = \<not> vf_executable flags\<rparr>)"

text \<open>The loop of \<open>UpdateAreaFlags\<close>: a page that is not mapped yet is skipped.\<close>

fun UpdateAreaFlags_loop ::
  "page_tables \<Rightarrow> u64 \<Rightarrow> PageFlags \<Rightarrow> u64 list \<Rightarrow> (MemError, unit) expected \<times> page_tables" where
  "UpdateAreaFlags_loop T root pf [] = (Inr (), T)"
| "UpdateAreaFlags_loop T root pf (v # vs) =
     (case Mmu_SetPageFlags T root v pf of
        (Inl e, T') \<Rightarrow> if e \<noteq> NotFound then (Inl e, T') else UpdateAreaFlags_loop T' root pf vs
      | (Inr _, T') \<Rightarrow> UpdateAreaFlags_loop T' root pf vs)"

definition AS_UpdateAreaFlags ::
  "mmu_mem \<Rightarrow> addr_space \<Rightarrow> u64 \<Rightarrow> VMemAreaFlags \<Rightarrow>
   (MemError, TlbHint) expected \<times> mmu_mem \<times> addr_space" where
  "AS_UpdateAreaFlags st asp ptr vmaf = (case FindAreaLocked (as_area_list asp) ptr of
     Inl e \<Rightarrow> (Inl e, st, asp)
   | Inr i \<Rightarrow>
       let vma = as_area_list asp ! i in
       if va_start vma \<noteq> ptr then (Inl InvalidArgument, st, asp)
       else
         let asp' = asp\<lparr>as_area_list := (as_area_list asp)[i := vma\<lparr>va_flags := vmaf\<rparr>]\<rparr>;
             pf = area_page_flags (va_start vma) vmaf;
             (r, T') = UpdateAreaFlags_loop (mm_tables st) (as_page_table_root asp) pf
                         (page_range (va_start vma) (va_start vma + va_size vma)) in
         (case r of
            Inl e \<Rightarrow> (Inl e, st\<lparr>mm_tables := T'\<rparr>, asp')
          | Inr _ \<Rightarrow> (Inr \<lparr>th_start = va_start vma, th_size = va_size vma\<rparr>, st\<lparr>mm_tables := T'\<rparr>, asp')))"

text \<open>
  The loop of \<open>FindGap\<close>: \<open>Inr\<close> is a gap found before an area, \<open>Inl\<close> the end of the last area
  passed when the loop ends or breaks.
\<close>

fun FindGap_loop :: "u64 \<Rightarrow> u64 \<Rightarrow> u64 \<Rightarrow> u64 \<Rightarrow> vmem_area list \<Rightarrow> (u64, u64) expected" where
  "FindGap_loop size_bytes search_start search_end prev_end [] = Inl prev_end"
| "FindGap_loop size_bytes search_start search_end prev_end (vma # rest) =
     (let curr_start = va_start vma; curr_end = curr_start + va_size vma in
      if curr_end \<le> search_start
      then FindGap_loop size_bytes search_start search_end (max prev_end curr_end) rest
      else if curr_start \<ge> search_end then Inl prev_end
      else
        let gap_start = AlignUp prev_end kPageSizeBytes;
            gap_end = AlignDown curr_start kPageSizeBytes in
        if gap_end > gap_start \<and> gap_end - gap_start \<ge> size_bytes then Inr gap_start
        else FindGap_loop size_bytes search_start search_end curr_end rest)"

definition FindGap :: "addr_space \<Rightarrow> u64 \<Rightarrow> u64 \<Rightarrow> u64 \<Rightarrow> (MemError, u64) expected" where
  "FindGap asp size_bytes range_start range_end =
     (let search_start = AlignUp range_start kPageSizeBytes;
          search_end = AlignDown (if range_end \<noteq> 0 then range_end else - 1) kPageSizeBytes in
      case FindGap_loop size_bytes search_start search_end search_start (as_area_list asp) of
        Inr gap_start \<Rightarrow> Inr gap_start
      | Inl prev_end \<Rightarrow>
          let gap_start = AlignUp prev_end kPageSizeBytes in
          if search_end > gap_start \<and> search_end - gap_start \<ge> size_bytes then Inr gap_start
          else Inl NotFound)"

section \<open>VirtualMemoryManager\<close>

definition Vmm_DestroyUserAddrSpace :: "mmu_mem \<Rightarrow> addr_space \<Rightarrow> mmu_mem option" where
  "Vmm_DestroyUserAddrSpace st asp = do {
     st1 \<leftarrow> Mmu_ClearUserMappings st (as_page_table_root asp);
     AS_destroy st1 asp }"

text \<open>\<open>as_ok\<close>, \<open>vma_ok\<close> and \<open>node_ok\<close>: whether the three heap allocations succeed.\<close>

definition Vmm_CreateUserAddrSpace ::
  "bool \<Rightarrow> bool \<Rightarrow> bool \<Rightarrow> mmu_mem \<Rightarrow> u64 \<Rightarrow> ((MemError, addr_space) expected \<times> mmu_mem) option" where
  "Vmm_CreateUserAddrSpace as_ok vma_ok node_ok st kernel_root =
     (if \<not> as_ok then Some (Inl OutOfMemory, st)
      else do {
        (init_res, st1, asp) \<leftarrow> AS_InitUser st AS_new;
        case init_res of
          Inl e \<Rightarrow> do { st2 \<leftarrow> Vmm_DestroyUserAddrSpace st1 asp; Some (Inl e, st2) }
        | Inr _ \<Rightarrow>
            let st2 = st1\<lparr>mm_tables := Mmu_CopyKernelSpace (mm_tables st1) (as_page_table_root asp) kernel_root\<rparr> in
            if \<not> vma_ok
            then do { st3 \<leftarrow> Vmm_DestroyUserAddrSpace st2 asp; Some (Inl OutOfMemory, st3) }
            else do {
              (res, asp', _) \<leftarrow> AS_AddArea node_ok asp KernelSyncVMemArea_new;
              case res of
                Inl e \<Rightarrow> do { st3 \<leftarrow> Vmm_DestroyUserAddrSpace st2 asp'; Some (Inl e, st3) }
              | Inr _ \<Rightarrow> Some (Inr asp', st2) } })"

definition Vmm_AddArea ::
  "bool \<Rightarrow> addr_space \<Rightarrow> vmem_area \<Rightarrow> ((MemError, u64) expected \<times> addr_space \<times> nat) option" where
  "Vmm_AddArea node_ok asp vma = do {
     (res, asp', n) \<leftarrow> AS_AddArea node_ok asp vma;
     Some (case res of Inl e \<Rightarrow> Inl e | Inr _ \<Rightarrow> Inr (va_start vma), asp', n) }"

definition Vmm_RmArea ::
  "mmu_mem \<Rightarrow> addr_space \<Rightarrow> u64 \<Rightarrow> ((MemError, unit) expected \<times> mmu_mem \<times> addr_space) option" where
  "Vmm_RmArea st asp region_start = do {
     (res, st', asp') \<leftarrow> AS_RmArea st asp region_start;
     Some (case res of Inl e \<Rightarrow> Inl e | Inr _ \<Rightarrow> Inr (), st', asp') }"

definition Vmm_UpdateAreaFlags ::
  "mmu_mem \<Rightarrow> addr_space \<Rightarrow> u64 \<Rightarrow> VMemAreaFlags \<Rightarrow> (MemError, unit) expected \<times> mmu_mem \<times> addr_space" where
  "Vmm_UpdateAreaFlags st asp region_start vmaf =
     (case AS_UpdateAreaFlags st asp region_start vmaf of
        (Inl e, st', asp') \<Rightarrow> (Inl e, st', asp')
      | (Inr _, st', asp') \<Rightarrow> (Inr (), st', asp'))"

definition Vmm_AllocAnonymous ::
  "bool \<Rightarrow> bool \<Rightarrow> mmu_mem \<Rightarrow> addr_space \<Rightarrow> u64 \<Rightarrow> VMemAreaFlags \<Rightarrow> u64 \<Rightarrow> u64 \<Rightarrow>
   ((MemError, u64) expected \<times> mmu_mem \<times> addr_space) option" where
  "Vmm_AllocAnonymous vma_ok node_ok st asp size_bytes flags range_start range_end =
     (case FindGap asp size_bytes range_start range_end of
        Inl e \<Rightarrow> Some (Inl e, st, asp)
      | Inr gap_start \<Rightarrow>
          if \<not> vma_ok then Some (Inl OutOfMemory, st, asp)
          else do {
            let vma = \<lparr>va_start = gap_start, va_size = size_bytes, va_flags = flags, va_kind = AnonymousVMemArea\<rparr>;
            let (_, st1, asp1) = Vmm_UpdateAreaFlags st asp (va_start vma) flags;
            (res, asp2, _) \<leftarrow> AS_AddArea node_ok asp1 vma;
            Some (case res of Inl e \<Rightarrow> Inl e | Inr _ \<Rightarrow> Inr gap_start, st1, asp2) })"

definition Vmm_AllocUserStack ::
  "bool \<Rightarrow> bool \<Rightarrow> mmu_mem \<Rightarrow> addr_space \<Rightarrow> u64 \<Rightarrow> ((MemError, u64) expected \<times> mmu_mem \<times> addr_space) option" where
  "Vmm_AllocUserStack vma_ok node_ok st asp size_bytes = do {
     let flags = \<lparr>vf_readable = True, vf_writable = True, vf_executable = False,
                  vf_write_through = False, vf_cache_disable = True\<rparr>;
     (res, st', asp') \<leftarrow> Vmm_AllocAnonymous vma_ok node_ok st asp size_bytes flags kUserSpaceStart kUserSpaceEndExclusive;
     Some (case res of Inl e \<Rightarrow> Inl e | Inr base \<Rightarrow> Inr (base + size_bytes), st', asp') }"

definition Vmm_AllocUserHeap ::
  "bool \<Rightarrow> bool \<Rightarrow> mmu_mem \<Rightarrow> addr_space \<Rightarrow> u64 \<Rightarrow> ((MemError, u64) expected \<times> mmu_mem \<times> addr_space) option" where
  "Vmm_AllocUserHeap vma_ok node_ok st asp size_bytes =
     Vmm_AllocAnonymous vma_ok node_ok st asp size_bytes
       \<lparr>vf_readable = True, vf_writable = True, vf_executable = False,
        vf_write_through = False, vf_cache_disable = False\<rparr> kUserSpaceStart kUserSpaceEndExclusive"

definition Vmm_AllocKernelHeap ::
  "bool \<Rightarrow> bool \<Rightarrow> mmu_mem \<Rightarrow> addr_space \<Rightarrow> u64 \<Rightarrow> ((MemError, u64) expected \<times> mmu_mem \<times> addr_space) option" where
  "Vmm_AllocKernelHeap vma_ok node_ok st kernel_as size_bytes =
     Vmm_AllocAnonymous vma_ok node_ok st kernel_as size_bytes
       \<lparr>vf_readable = True, vf_writable = True, vf_executable = False,
        vf_write_through = False, vf_cache_disable = False\<rparr> kKernelSpaceStart 0"

text \<open>The last component of the result counts how often the new area object was deleted.\<close>

definition Vmm_MapUserBackbuffer ::
  "bool \<Rightarrow> bool \<Rightarrow> addr_space \<Rightarrow> u64 \<Rightarrow> u64 \<Rightarrow> ((MemError, u64) expected \<times> addr_space \<times> nat) option" where
  "Vmm_MapUserBackbuffer vma_ok node_ok asp buffer size_bytes = do {
     ASSERT (IsAligned buffer kPageSizeBytes);
     let al_size = AlignUp size_bytes kPageSizeBytes;
     case FindGap asp al_size kUserSpaceStart kUserSpaceEndExclusive of
       Inl e \<Rightarrow> Some (Inl e, asp, 0)
     | Inr gap_start \<Rightarrow>
         if \<not> vma_ok then Some (Inl OutOfMemory, asp, 0)
         else do {
           let vma = \<lparr>va_start = gap_start, va_size = al_size,
                      va_flags = \<lparr>vf_readable = True, vf_writable = True, vf_executable = True,
                                  vf_write_through = False, vf_cache_disable = False\<rparr>,
                      va_kind = DirectMappingVMemArea buffer\<rparr>;
           (res, asp', deleted) \<leftarrow> AS_AddArea node_ok asp vma;
           case res of
             Inl e \<Rightarrow> Some (Inl e, asp', deleted + 1)
           | Inr _ \<Rightarrow> Some (Inr gap_start, asp', deleted) } }"

section \<open>Page faults\<close>

record fault_error =
  fe_present :: bool
  fe_write :: bool
  fe_user :: bool
  fe_reserved_bits :: bool
  fe_instruction_fetch :: bool

record mem_module =
  mod_mmu :: mmu_mem
  mod_bitmap :: bitmap_pmm
  mod_kernel_as :: addr_space

definition Vmm_Init :: "mem_module \<Rightarrow> u64 \<Rightarrow> mem_module" where
  "Vmm_Init m kernel_root = m\<lparr>mod_kernel_as := AS_InitKernel (mod_kernel_as m) kernel_root\<rparr>"

definition MapPage ::
  "mmu_mem \<Rightarrow> addr_space \<Rightarrow> u64 \<Rightarrow> u64 \<Rightarrow> VMemAreaFlags \<Rightarrow> (bool \<times> mmu_mem) option" where
  "MapPage st asp vaddr paddr flags = do {
     (res, st') \<leftarrow> Mmu_Map st (as_page_table_root asp) vaddr paddr (area_page_flags vaddr flags);
     Some (case res of Inl _ \<Rightarrow> False | Inr _ \<Rightarrow> True, st') }"

text \<open>A write to a read-only area is a kernel panic.\<close>

definition CheckWritePermissions :: "fault_error \<Rightarrow> VMemAreaFlags \<Rightarrow> bool option" where
  "CheckWritePermissions err flags = do { ASSERT (\<not> (fe_write err \<and> \<not> vf_writable flags)); Some True }"

text \<open>\<open>memset(virt_page, 0, kPageSizeBytes)\<close> on the page, read as 512 words.\<close>

definition zero_page :: "mmu_mem \<Rightarrow> u64 \<Rightarrow> mmu_mem" where
  "zero_page st page = st\<lparr>mm_tables := (mm_tables st)(page := (\<lambda>_. 0))\<rparr>"

definition HandleFault ::
  "mem_module \<Rightarrow> addr_space \<Rightarrow> vmem_area \<Rightarrow> u64 \<Rightarrow> fault_error \<Rightarrow> (bool \<times> mem_module) option" where
  "HandleFault m asp vma fault_addr err = (case va_kind vma of
     AnonymousVMemArea \<Rightarrow> do {
       ok \<leftarrow> CheckWritePermissions err (va_flags vma);
       (page_res, bp) \<leftarrow> BitmapPmm_Alloc (mod_bitmap m) 1;
       case page_res of
         Inl _ \<Rightarrow> Some (False, m\<lparr>mod_bitmap := bp\<rparr>)
       | Inr phys_page \<Rightarrow> do {
           (mapped, st) \<leftarrow> MapPage (zero_page (mod_mmu m) phys_page) asp
                             (AlignDown fault_addr kPageSizeBytes) phys_page (va_flags vma);
           Some (mapped, m\<lparr>mod_bitmap := bp, mod_mmu := st\<rparr>) } }
   | DirectMappingVMemArea phys_start \<Rightarrow> do {
       ok \<leftarrow> CheckWritePermissions err (va_flags vma);
       let offset = fault_addr - va_start vma;
       let phys_page = AlignDown (phys_start + offset) kPageSizeBytes;
       (mapped, st) \<leftarrow> MapPage (mod_mmu m) asp (AlignDown fault_addr kPageSizeBytes) phys_page (va_flags vma);
       Some (mapped, m\<lparr>mod_mmu := st\<rparr>) }
   | KernelSyncVMemArea \<Rightarrow>
       if as_page_table_root asp = as_page_table_root (mod_kernel_as m) then Some (False, m)
       else (let (synced, T) = Mmu_SyncMapping (mm_tables (mod_mmu m)) (as_page_table_root asp)
                                 (as_page_table_root (mod_kernel_as m)) fault_addr in
             Some (synced, m\<lparr>mod_mmu := (mod_mmu m)\<lparr>mm_tables := T\<rparr>\<rparr>)))"

datatype fault_outcome = FaultResolved | ProcessKilled

definition HandleUnresolvableFault :: "bool \<Rightarrow> fault_outcome option" where
  "HandleUnresolvableFault from_user_space = (if from_user_space then Some ProcessKilled else None)"

definition PageFaultHandler ::
  "mem_module \<Rightarrow> addr_space \<Rightarrow> bool \<Rightarrow> u64 \<Rightarrow> fault_error \<Rightarrow> (fault_outcome \<times> mem_module) option" where
  "PageFaultHandler m asp from_user_space f_ptr err =
     (case FindAreaLocked (as_area_list asp) f_ptr of
        Inl _ \<Rightarrow> map_option (\<lambda>r. (r, m)) (HandleUnresolvableFault from_user_space)
      | Inr i \<Rightarrow>
          if fe_present err then map_option (\<lambda>r. (r, m)) (HandleUnresolvableFault from_user_space)
          else do {
            (ok, m') \<leftarrow> HandleFault m asp (as_area_list asp ! i) f_ptr err;
            if ok then Some (FaultResolved, m')
            else map_option (\<lambda>r. (r, m')) (HandleUnresolvableFault from_user_space) })"


section \<open>Well-formed area lists\<close>

definition area_range :: "vmem_area \<Rightarrow> nat set" where
  "area_range a = {unat (va_start a) ..< unat (va_start a) + unat (va_size a)}"

definition area_ok :: "vmem_area \<Rightarrow> bool" where
  "area_ok a \<longleftrightarrow> unat (va_start a) mod 4096 = 0 \<and> unat (va_size a) mod 4096 = 0 \<and>
     0 < unat (va_size a) \<and> unat (va_start a) + unat (va_size a) < 2 ^ 64"

definition areas_wf :: "vmem_area list \<Rightarrow> bool" where
  "areas_wf as \<longleftrightarrow> (\<forall>a\<in>set as. area_ok a) \<and>
     sorted_wrt (\<lambda>a b. unat (va_start a) + unat (va_size a) \<le> unat (va_start b)) as"

lemma areas_wf_Nil [simp]: "areas_wf []"
  by (simp add: areas_wf_def)

lemma areas_wf_Cons:
  "areas_wf (a # as) \<longleftrightarrow> area_ok a \<and> areas_wf as \<and>
     (\<forall>b\<in>set as. unat (va_start a) + unat (va_size a) \<le> unat (va_start b))"
  by (auto simp: areas_wf_def)

lemma area_end:
  "area_ok a \<Longrightarrow> unat (va_start a + va_size a) = unat (va_start a) + unat (va_size a)"
  unfolding area_ok_def by (simp add: unat_add_lem [where 'a=64, simplified])

lemma intervals_disjoint:
  fixes a b c d :: nat
  assumes "0 < b" "0 < d"
  shows "{a ..< a + b} \<inter> {c ..< c + d} = {} \<longleftrightarrow> a + b \<le> c \<or> c + d \<le> a"
proof
  assume *: "{a ..< a + b} \<inter> {c ..< c + d} = {}"
  show "a + b \<le> c \<or> c + d \<le> a"
  proof (rule ccontr)
    assume "\<not> ?thesis"
    then have "max a c \<in> {a ..< a + b} \<inter> {c ..< c + d}" using assms by auto
    with * show False by blast
  qed
qed auto

lemma AreasOverlap_iff:
  assumes "area_ok a" "area_ok b"
  shows "AreasOverlap a b \<longleftrightarrow> area_range a \<inter> area_range b \<noteq> {}"
  using assms area_end[OF assms(1)] area_end[OF assms(2)]
    intervals_disjoint[of "unat (va_size a)" "unat (va_size b)" "unat (va_start a)" "unat (va_start b)"]
  by (auto simp: AreasOverlap_def Let_def word_less_nat_alt area_range_def area_ok_def)

lemma area_apart:
  assumes "area_ok a" "area_ok b"
  shows "area_range a \<inter> area_range b = {} \<longleftrightarrow>
    unat (va_start a) + unat (va_size a) \<le> unat (va_start b) \<or>
    unat (va_start b) + unat (va_size b) \<le> unat (va_start a)"
  unfolding area_range_def using assms by (intro intervals_disjoint) (simp_all add: area_ok_def)

lemma AddArea_loop_ok:
  assumes "areas_wf as" "area_ok v"
  shows "AS_AddArea_loop node_ok as v =
     (if \<exists>a\<in>set as. area_range a \<inter> area_range v \<noteq> {} then Inl InvalidArgument
      else if \<not> node_ok then Inl OutOfMemory
      else Inr (takeWhile (\<lambda>a. va_start a < va_start v) as @ v # dropWhile (\<lambda>a. va_start a < va_start v) as))"
  using assms(1)
proof (induction as)
  case Nil
  then show ?case by simp
next
  case (Cons c cs)
  have ok: "area_ok c" "areas_wf cs" "area_ok v" and after: "\<And>b. b \<in> set cs \<Longrightarrow> area_ok b \<and>
      unat (va_start c) + unat (va_size c) \<le> unat (va_start b)"
    using Cons.prems assms(2) by (auto simp: areas_wf_Cons areas_wf_def)
  have pos: "0 < unat (va_size c)" "0 < unat (va_size v)" using ok by (auto simp: area_ok_def)
  show ?case
  proof (cases "AreasOverlap c v")
    case True
    then show ?thesis using ok by (simp add: AreasOverlap_iff)
  next
    case apart: False
    then have ap: "area_range c \<inter> area_range v = {}" using ok by (simp add: AreasOverlap_iff)
    show ?thesis
    proof (cases "va_start v < va_start c")
      case True
      then have end_: "unat (va_start v) + unat (va_size v) \<le> unat (va_start c)"
        using ap area_apart[OF ok(1,3)] by (auto simp: word_less_nat_alt)
      have "area_range b \<inter> area_range v = {}" if "b \<in> set cs" for b
        using after[OF that] area_apart[of b v] ok(3) end_ by auto
      moreover have "\<not> va_start c < va_start v" using True by (simp add: word_less_nat_alt)
      ultimately show ?thesis using True apart ap by simp
    next
      case False
      then have "va_start c < va_start v"
        using ap area_apart[OF ok(1,3)] pos by (auto simp: word_less_nat_alt)
      then show ?thesis using False apart ap Cons.IH[OF ok(2)] by simp
    qed
  qed
qed

lemma set_insert_sorted: "set (takeWhile P as @ v # dropWhile P as) = insert v (set as)"
  using takeWhile_dropWhile_id[of P as] by (metis Un_insert_right list.simps(15) set_append)

lemma areas_wf_insert:
  assumes "areas_wf as" "area_ok v" "\<forall>a\<in>set as. area_range a \<inter> area_range v = {}"
  shows "areas_wf (takeWhile (\<lambda>a. va_start a < va_start v) as @ v # dropWhile (\<lambda>a. va_start a < va_start v) as)"
  using assms
proof (induction as)
  case Nil
  then show ?case by (simp add: areas_wf_Cons)
next
  case (Cons c cs)
  have ok: "area_ok c" "areas_wf cs" and after: "\<And>b. b \<in> set cs \<Longrightarrow> area_ok b \<and>
      unat (va_start c) + unat (va_size c) \<le> unat (va_start b)"
    using Cons.prems by (auto simp: areas_wf_Cons areas_wf_def)
  have pos: "0 < unat (va_size c)" "0 < unat (va_size v)" using ok Cons.prems by (auto simp: area_ok_def)
  have ap: "unat (va_start c) + unat (va_size c) \<le> unat (va_start v) \<or>
      unat (va_start v) + unat (va_size v) \<le> unat (va_start c)"
    using Cons.prems area_apart[OF ok(1) Cons.prems(2)] by simp
  show ?case
  proof (cases "va_start c < va_start v")
    case True
    then have "unat (va_start c) + unat (va_size c) \<le> unat (va_start v)"
      using ap pos by (auto simp: word_less_nat_alt)
    then have "\<forall>b\<in>insert v (set cs). unat (va_start c) + unat (va_size c) \<le> unat (va_start b)"
      using after by fastforce
    then have "\<forall>b\<in>set (takeWhile (\<lambda>a. va_start a < va_start v) cs @ v # dropWhile (\<lambda>a. va_start a < va_start v) cs).
        unat (va_start c) + unat (va_size c) \<le> unat (va_start b)"
      by (simp only: set_insert_sorted)
    then show ?thesis
      using True ok(1) Cons.IH[OF ok(2) Cons.prems(2)] Cons.prems(3)
      by (simp add: areas_wf_Cons del: set_append)
  next
    case False
    then have "unat (va_start v) + unat (va_size v) \<le> unat (va_start c)"
      using ap pos by (auto simp: word_less_nat_alt)
    then have "\<forall>b\<in>set (c # cs). unat (va_start v) + unat (va_size v) \<le> unat (va_start b)"
      using after by fastforce
    then show ?thesis using False Cons.prems by (simp add: areas_wf_Cons)
  qed
qed

section \<open>The gap search\<close>

definition gap_ok :: "vmem_area list \<Rightarrow> nat \<Rightarrow> nat \<Rightarrow> nat \<Rightarrow> nat \<Rightarrow> bool" where
  "gap_ok as n lo hi g \<longleftrightarrow> g mod 4096 = 0 \<and> lo \<le> g \<and> g + n \<le> hi \<and>
     (\<forall>a\<in>set as. area_range a \<inter> {g ..< g + n} = {})"

lemma AlignUp_aligned:
  assumes "unat w mod 4096 = 0"
  shows "AlignUp w kPageSizeBytes = w"
proof -
  obtain k where k: "unat w = 4096 * k" using assms by auto
  have "unat w < 2 ^ 64" by (rule unat_bound_u64)
  then have "unat w + 4095 < 2 ^ 64" using k by simp
  then have "unat (AlignUp w kPageSizeBytes) = 4096 * ((unat w + 4095) div 4096)"
    by (simp add: unat_AlignUp_page)
  also have "\<dots> = unat w" using k by simp
  finally show ?thesis by (simp add: word_unat_eq_iff)
qed

lemma AlignDown_aligned:
  assumes "unat w mod 4096 = 0"
  shows "AlignDown w kPageSizeBytes = w"
proof -
  obtain k where "unat w = 4096 * k" using assms by auto
  then show ?thesis by (simp add: word_unat_eq_iff unat_AlignDown_page)
qed

text \<open>
  What the search returns, over the naturals: from a state that has passed the areas ending at
  \<open>prev\<close>, a gap found is a gap, and without one every gap starts after the last area passed.
\<close>

definition gap_search_post :: "vmem_area list \<Rightarrow> nat \<Rightarrow> nat \<Rightarrow> nat \<Rightarrow> (u64, u64) expected \<Rightarrow> bool" where
  "gap_search_post as n prev se r = (case r of
     Inr g \<Rightarrow> gap_ok as n prev se (unat g)
   | Inl p \<Rightarrow> unat p mod 4096 = 0 \<and> prev \<le> unat p \<and>
       (\<forall>g. gap_ok as n prev se g \<longrightarrow> unat p \<le> g) \<and>
       (\<forall>g. g mod 4096 = 0 \<longrightarrow> unat p \<le> g \<longrightarrow> g + n \<le> se \<longrightarrow> gap_ok as n prev se g))"

lemma gap_ok_Cons:
  "gap_ok (a # as) n lo hi g \<longleftrightarrow> gap_ok as n lo hi g \<and> area_range a \<inter> {g ..< g + n} = {}"
  by (auto simp: gap_ok_def)

lemma gap_ok_before:
  assumes "\<forall>a\<in>set as. hi' \<le> unat (va_start a)" "g mod 4096 = 0" "lo \<le> g" "g + n \<le> hi'" "g + n \<le> hi"
  shows "gap_ok as n lo hi g"
proof -
  have "area_range a \<inter> {g ..< g + n} = {}" if "a \<in> set as" for a
  proof -
    have "g + n \<le> unat (va_start a)" using assms(1,4) that le_trans by blast
    then show ?thesis by (auto simp: area_range_def)
  qed
  then show ?thesis using assms by (simp add: gap_ok_def)
qed

lemma gap_ok_lo: "gap_ok as n lo hi g \<Longrightarrow> lo' \<le> lo \<Longrightarrow> gap_ok as n lo' hi g"
  by (auto simp: gap_ok_def)

lemma area_past: "unat (va_start a) + unat (va_size a) \<le> g \<Longrightarrow> area_range a \<inter> {g ..< g + n} = {}"
  by (auto simp: area_range_def)

lemma gap_search_skip:
  assumes post: "gap_search_post as n prev' se r" and le: "prev \<le> prev'"
    and past: "unat (va_start a) + unat (va_size a) \<le> prev'"
    and lo: "\<And>g. gap_ok (a # as) n prev se g \<Longrightarrow> prev' \<le> g"
  shows "gap_search_post (a # as) n prev se r"
proof (cases r)
  case (Inr g)
  then have ok: "gap_ok as n prev' se (unat g)" using post by (simp add: gap_search_post_def)
  then have "unat (va_start a) + unat (va_size a) \<le> unat g" using past by (simp add: gap_ok_def)
  then show ?thesis using Inr gap_ok_lo[OF ok le] area_past by (simp add: gap_search_post_def gap_ok_Cons)
next
  case (Inl p)
  have p: "unat p mod 4096 = 0" "prev' \<le> unat p" "\<And>g. gap_ok as n prev' se g \<Longrightarrow> unat p \<le> g"
    "\<And>g. g mod 4096 = 0 \<Longrightarrow> unat p \<le> g \<Longrightarrow> g + n \<le> se \<Longrightarrow> gap_ok as n prev' se g"
    using post Inl by (auto simp: gap_search_post_def)
  have "unat p \<le> g" if g: "gap_ok (a # as) n prev se g" for g
  proof -
    have "gap_ok as n prev' se g" using g lo[OF g] by (auto simp: gap_ok_def)
    then show ?thesis by (rule p(3))
  qed
  moreover have "gap_ok (a # as) n prev se g"
    if g: "g mod 4096 = 0" "unat p \<le> g" "g + n \<le> se" for g
  proof -
    have "unat (va_start a) + unat (va_size a) \<le> g" using past p(2) g(2) by simp
    then show ?thesis using gap_ok_lo[OF p(4)[OF g] le] area_past by (simp add: gap_ok_Cons)
  qed
  ultimately show ?thesis using Inl p(1,2) le by (auto simp: gap_search_post_def)
qed

lemma FindGap_loop_ok:
  assumes "areas_wf as" "unat prev mod 4096 = 0" "unat ss \<le> unat prev" "0 < unat n"
    "prev = ss \<or> (\<forall>a\<in>set as. unat prev \<le> unat (va_start a))"
  shows "gap_search_post as (unat n) (unat prev) (unat se) (FindGap_loop n ss se prev as)"
  using assms
proof (induction as arbitrary: prev)
  case Nil
  then show ?case by (simp add: gap_search_post_def gap_ok_def)
next
  case (Cons v vs)
  have ok: "area_ok v" "areas_wf vs" and after: "\<forall>b\<in>set vs. unat (va_start v) + unat (va_size v) \<le> unat (va_start b)"
    using Cons.prems(1) by (auto simp: areas_wf_Cons)
  then have after': "\<forall>b\<in>set (v # vs). unat (va_start v) \<le> unat (va_start b)" by auto
  define ce where "ce = va_start v + va_size v"
  have ce: "unat ce = unat (va_start v) + unat (va_size v)" using area_end[OF ok(1)] by (simp add: ce_def)
  have al: "AlignUp prev kPageSizeBytes = prev" "AlignDown (va_start v) kPageSizeBytes = va_start v"
    using Cons.prems(2) ok(1) by (simp_all add: AlignUp_aligned AlignDown_aligned area_ok_def)
  have ceal: "unat ce mod 4096 = 0" using ok(1) ce by (auto simp: area_ok_def)
  show ?case
  proof (cases "ce \<le> ss")
    case True
    then have mx: "max prev ce = prev" and past: "unat ce \<le> unat prev"
      using Cons.prems(3) by (auto simp: max_def word_le_nat_alt word_unat_eq_iff)
    have "gap_search_post vs (unat n) (unat prev) (unat se) (FindGap_loop n ss se prev vs)"
      using Cons.prems ok by (intro Cons.IH) auto
    then have "gap_search_post (v # vs) (unat n) (unat prev) (unat se) (FindGap_loop n ss se prev vs)"
      using past ce by (intro gap_search_skip) (auto simp: gap_ok_def)
    then show ?thesis using True mx by (simp add: ce_def[symmetric] Let_def)
  next
    case nskip: False
    show ?thesis
    proof (cases "se \<le> va_start v")
      case True
      then have "\<forall>b\<in>set (v # vs). unat se \<le> unat (va_start b)" using after'
        by (meson le_trans word_le_nat_alt)
      then have "gap_ok (v # vs) (unat n) (unat prev) (unat se) g"
        if "g mod 4096 = 0" "unat prev \<le> g" "g + unat n \<le> unat se" for g
        using that by (intro gap_ok_before[of _ "unat se"]) auto
      then show ?thesis using True nskip Cons.prems(2)
        by (auto simp: ce_def[symmetric] Let_def gap_search_post_def gap_ok_def)
    next
      case inside: False
      show ?thesis
      proof (cases "prev < va_start v \<and> n \<le> va_start v - prev")
        case True
        then have "unat n \<le> unat (va_start v) - unat prev" "unat prev < unat (va_start v)"
          using unat_sub[of prev "va_start v"] by (simp_all add: word_le_nat_alt word_less_nat_alt)
        then have "gap_ok (v # vs) (unat n) (unat prev) (unat se) (unat prev)"
          using after' Cons.prems(2) inside
          by (intro gap_ok_before[of _ "unat (va_start v)"]) (auto simp: word_le_nat_alt)
        then show ?thesis using True nskip inside al
          by (simp add: ce_def[symmetric] Let_def gap_search_post_def)
      next
        case False
        have le: "unat prev \<le> unat ce"
          using Cons.prems(5) nskip ce by (auto simp: word_le_nat_alt)
        have "gap_search_post vs (unat n) (unat ce) (unat se) (FindGap_loop n ss se ce vs)"
          using nskip ok ceal after ce Cons.prems(4) by (intro Cons.IH) (auto simp: word_le_nat_alt)
        moreover have "unat ce \<le> g" if g: "gap_ok (v # vs) (unat n) (unat prev) (unat se) g" for g
        proof (rule ccontr)
          assume "\<not> unat ce \<le> g"
          moreover have "area_range v \<inter> {g ..< g + unat n} = {}" "unat prev \<le> g"
            using g by (auto simp: gap_ok_def)
          ultimately have "g + unat n \<le> unat (va_start v)" "unat prev \<le> g"
            using ok(1) ce Cons.prems(4) intervals_disjoint[of "unat (va_size v)" "unat n" "unat (va_start v)" g]
            by (auto simp: area_range_def area_ok_def)
          then have "prev < va_start v \<and> n \<le> va_start v - prev" using Cons.prems(4)
            by (simp add: word_le_nat_alt word_less_nat_alt unat_sub)
          then show False using False by simp
        qed
        ultimately have "gap_search_post (v # vs) (unat n) (unat prev) (unat se) (FindGap_loop n ss se ce vs)"
          using le ce by (intro gap_search_skip) auto
        then show ?thesis using False nskip inside al by (auto simp: ce_def[symmetric] Let_def)
      qed
    qed
  qed
qed

lemma FindGap_ok:
  assumes wf: "areas_wf (as_area_list asp)" and n: "0 < unat n" and rs: "unat rs + 4095 < 2 ^ 64"
    and lo: "lo = unat (AlignUp rs kPageSizeBytes)"
    and hi: "hi = unat (AlignDown (if re \<noteq> 0 then re else - 1) kPageSizeBytes)"
  shows "case FindGap asp n rs re of
      Inr g \<Rightarrow> gap_ok (as_area_list asp) (unat n) lo hi (unat g)
    | Inl e \<Rightarrow> e = NotFound \<and> (\<nexists>g. gap_ok (as_area_list asp) (unat n) lo hi g)"
proof -
  define ss where "ss = AlignUp rs kPageSizeBytes"
  define se where "se = AlignDown (if re \<noteq> 0 then re else - 1) kPageSizeBytes"
  let ?as = "as_area_list asp"
  have al: "unat ss mod 4096 = 0" using rs by (simp add: ss_def unat_AlignUp_page)
  have post: "gap_search_post ?as (unat n) (unat ss) (unat se) (FindGap_loop n ss se ss ?as)"
    using wf al n by (intro FindGap_loop_ok) simp_all
  have fg: "FindGap asp n rs re = (case FindGap_loop n ss se ss ?as of Inr g \<Rightarrow> Inr g
      | Inl p \<Rightarrow> let g = AlignUp p kPageSizeBytes in
          if se > g \<and> se - g \<ge> n then Inr g else Inl NotFound)"
    by (simp only: FindGap_def Let_def ss_def se_def)
  have lohi: "lo = unat ss" "hi = unat se" by (simp_all add: lo hi ss_def se_def)
  show ?thesis
  proof (cases "FindGap_loop n ss se ss ?as")
    case (Inr g)
    then show ?thesis using post fg by (simp add: gap_search_post_def lohi)
  next
    case (Inl p)
    then have p: "unat p mod 4096 = 0" "\<And>g. gap_ok ?as (unat n) lo hi g \<Longrightarrow> unat p \<le> g"
      "\<And>g. g mod 4096 = 0 \<Longrightarrow> unat p \<le> g \<Longrightarrow> g + unat n \<le> hi \<Longrightarrow> gap_ok ?as (unat n) lo hi g"
      using post by (simp_all add: gap_search_post_def lohi)
    have iff: "p < se \<and> n \<le> se - p \<longleftrightarrow> unat p + unat n \<le> hi"
      using n unat_sub[of p se] by (auto simp: lohi word_less_nat_alt word_le_nat_alt)
    show ?thesis
    proof (cases "unat p + unat n \<le> hi")
      case True
      then show ?thesis using fg Inl iff p(1) p(3)[of "unat p"] by (simp add: AlignUp_aligned)
    next
      case False
      have "\<not> gap_ok ?as (unat n) lo hi g" for g
      proof
        assume g: "gap_ok ?as (unat n) lo hi g"
        then have "g + unat n \<le> hi" by (simp add: gap_ok_def)
        then show False using p(2)[OF g] False by simp
      qed
      then show ?thesis using fg Inl iff p(1) False by (auto simp: AlignUp_aligned)
    qed
  qed
qed

lemma IsAddrInArea_iff: "area_ok a \<Longrightarrow> IsAddrInArea a p \<longleftrightarrow> unat p \<in> area_range a"
  by (simp add: IsAddrInArea_def Let_def word_le_nat_alt word_less_nat_alt area_end area_range_def)

lemma FindAreaLocked_ok:
  assumes "areas_wf as"
  shows "case FindAreaLocked as p of
      Inr i \<Rightarrow> i < length as \<and> unat p \<in> area_range (as ! i)
    | Inl e \<Rightarrow> e = NotFound \<and> (\<forall>a\<in>set as. unat p \<notin> area_range a)"
  using assms by (induction as) (auto simp: areas_wf_Cons IsAddrInArea_iff split: sum.splits)

lemma areas_disjoint:
  assumes "areas_wf as" "i < length as" "j < length as" "i \<noteq> j"
  shows "area_range (as ! i) \<inter> area_range (as ! j) = {}"
proof -
  have "area_range (as ! k) \<inter> area_range (as ! l) = {}" if "k < l" "l < length as" for k l
  proof -
    have "unat (va_start (as ! k)) + unat (va_size (as ! k)) \<le> unat (va_start (as ! l))"
      using assms(1) that by (auto simp: areas_wf_def sorted_wrt_iff_nth_less)
    then show ?thesis by (auto simp: area_range_def)
  qed
  then show ?thesis using assms by (metis Int_commute linorder_neqE_nat)
qed

lemma areas_unique:
  assumes "areas_wf as" "i < length as" "p \<in> area_range (as ! i)" "j < length as" "p \<in> area_range (as ! j)"
  shows "i = j"
  using areas_disjoint[OF assms(1,2,4)] assms(3,5) by blast

lemma gap_area:
  assumes gap: "gap_ok as (unat n) lo hi (unat g)" and n: "0 < unat n" "unat n mod 4096 = 0" and hi: "hi < 2 ^ 64"
    and v: "va_start v = g" "va_size v = n"
  shows "area_ok v" and "\<forall>a\<in>set as. area_range a \<inter> area_range v = {}"
  using assms by (auto simp: area_ok_def gap_ok_def area_range_def)

lemma UpdateAreaFlags_absent:
  assumes "\<forall>a\<in>set (as_area_list asp). unat p \<notin> area_range a" "areas_wf (as_area_list asp)"
  shows "Vmm_UpdateAreaFlags st asp p fl = (Inl NotFound, st, asp)"
proof -
  have "FindAreaLocked (as_area_list asp) p = Inl NotFound"
    using FindAreaLocked_ok[OF assms(2), of p] assms(1)
    by (cases "FindAreaLocked (as_area_list asp) p") (auto dest: nth_mem)
  then show ?thesis by (simp add: Vmm_UpdateAreaFlags_def AS_UpdateAreaFlags_def)
qed

lemma AS_AddArea_ok:
  assumes "areas_wf (as_area_list asp)" "area_ok v"
  shows "\<exists>r asp' d. AS_AddArea node_ok asp v = Some (r, asp', d) \<and> areas_wf (as_area_list asp') \<and>
    (if \<exists>a\<in>set (as_area_list asp). area_range a \<inter> area_range v \<noteq> {}
     then r = Inl InvalidArgument \<and> asp' = asp \<and> d = 1
     else if \<not> node_ok then r = Inl OutOfMemory \<and> asp' = asp \<and> d = 1
     else r = Inr () \<and> d = 0 \<and> as_page_table_root asp' = as_page_table_root asp \<and>
       set (as_area_list asp') = insert v (set (as_area_list asp)))"
proof -
  have "IsAligned (va_start v) kPageSizeBytes" "IsAligned (va_size v) kPageSizeBytes"
    using assms(2) by (simp_all add: IsAligned_page area_ok_def)
  then show ?thesis using assms(1) areas_wf_insert[OF assms]
    by (auto simp: AS_AddArea_def AddArea_loop_ok[OF assms] set_insert_sorted simp del: set_append)
qed

section \<open>Page faults on well-formed tables\<close>

lemma zero_page_same_path:
  assumes "\<And>d. d \<le> 3 \<Longrightarrow> tab (mm_tables st) root v d \<noteq> Some p"
  shows "same_path (mm_tables st) (mm_tables (zero_page st p)) root v"
  using assms by (auto simp: same_path_def zero_page_def)

lemma zero_page_ok:
  assumes inv: "mmu_inv st root" and p: "\<not> table_page (mm_buddy st) p"
  shows "mmu_inv (zero_page st p) root"
    and "Mmu_Translate (mm_tables (zero_page st p)) root v = Mmu_Translate (mm_tables st) root v"
    and "no_huge (mm_tables st) root v \<Longrightarrow> no_huge (mm_tables (zero_page st p)) root v"
proof -
  have np: "tab (mm_tables st) root w d \<noteq> Some p" if "d \<le> 3" for w d
    using inv p that by (auto simp: mmu_inv_def)
  have sp: "same_path (mm_tables st) (mm_tables (zero_page st p)) root w" for w
    using np by (intro zero_page_same_path) simp
  have tb: "tab (mm_tables (zero_page st p)) root w d = tab (mm_tables st) root w d" if "d \<le> 3" for w d
    using same_path_tab[OF sp] that by simp
  show "mmu_inv (zero_page st p) root" using inv tb
    by (simp add: mmu_inv_def pt_tree_def) (simp add: zero_page_def)
  show "Mmu_Translate (mm_tables (zero_page st p)) root v = Mmu_Translate (mm_tables st) root v"
    by (rule same_path_Translate[OF sp])
  show "no_huge (mm_tables st) root v \<Longrightarrow> no_huge (mm_tables (zero_page st p)) root v"
    using np tb by (auto simp: no_huge_def zero_page_def)
qed

lemma AlignDown_offset: "AlignDown f kPageSizeBytes AND mask 12 = 0"
  using IsAligned_AlignDown_page[of f] page_gt_1 IsPowerOfTwo_page by (simp add: IsAligned_def page_mask)

lemma anonymous_fault_ok:
  assumes inv: "mmu_inv (mod_mmu m) (as_page_table_root asp)" and bp: "bp_wf (mod_bitmap m)"
    and nh: "no_huge (mm_tables (mod_mmu m)) (as_page_table_root asp) (AlignDown f kPageSizeBytes)"
    and sep: "\<And>x. x \<in> bp_free_pages (mod_bitmap m) \<Longrightarrow>
      x < 2 ^ 40 \<and> \<not> table_page (mm_buddy (mod_mmu m)) (PageFrameAddr (of_nat x))"
    and k: "va_kind v = AnonymousVMemArea" and wr: "fe_write err \<longrightarrow> vf_writable (va_flags v)"
  shows "\<exists>ok m'. HandleFault m asp v f err = Some (ok, m') \<and> mmu_inv (mod_mmu m') (as_page_table_root asp) \<and>
    (if ok then \<exists>x\<in>bp_free_pages (mod_bitmap m).
         bp_free_pages (mod_bitmap m') = bp_free_pages (mod_bitmap m) - {x} \<and>
         Mmu_Translate (mm_tables (mod_mmu m')) (as_page_table_root asp) (AlignDown f kPageSizeBytes)
           = Inr (PageFrameAddr (of_nat x)) \<and>
         (\<forall>w. (\<exists>l\<in>{1..4}. PmeIdx l w \<noteq> PmeIdx l (AlignDown f kPageSizeBytes)) \<longrightarrow>
            Mmu_Translate (mm_tables (mod_mmu m')) (as_page_table_root asp) w =
            Mmu_Translate (mm_tables (mod_mmu m)) (as_page_table_root asp) w)
     else \<forall>w. Mmu_Translate (mm_tables (mod_mmu m')) (as_page_table_root asp) w =
            Mmu_Translate (mm_tables (mod_mmu m)) (as_page_table_root asp) w)"
proof -
  let ?root = "as_page_table_root asp" and ?st = "mod_mmu m" and ?a = "AlignDown f kPageSizeBytes"
  have perm: "CheckWritePermissions err (va_flags v) = Some True"
    using wr by (auto simp: CheckWritePermissions_def)
  from bp show ?thesis
  proof (cases rule: BitmapPmm_Alloc_cases[where n = 1])
    case zero
    then show ?thesis by simp
  next
    case oom
    then show ?thesis using perm k inv by (intro exI[of _ False] exI[of _ m]) (simp add: HandleFault_def)
  next
    case (ok x p')
    then have x: "x \<in> bp_free_pages (mod_bitmap m)" by (auto simp: free_run_def)
    let ?p = "PageFrameAddr (of_nat x)"
    have np: "\<not> table_page (mm_buddy ?st) ?p" and fa: "frame_addr ?p" using sep[OF x] frame_addr_pfn by auto
    note z = zero_page_ok[OF inv np]
    have pf: "pf_Present (area_page_flags ?a (va_flags v))" by (simp add: area_page_flags_def Let_def)
    obtain r st' where map: "Mmu_Map (zero_page ?st ?p) ?root ?a ?p (area_page_flags ?a (va_flags v)) = Some (r, st')"
      and post: "map_post (zero_page ?st ?p) ?root ?a ?p r st'"
      by (rule Map_ok[OF z(1) z(3)[OF nh] pf fa])
    have hf: "HandleFault m asp v f err =
        Some (case r of Inl _ \<Rightarrow> False | Inr _ \<Rightarrow> True, m\<lparr>mod_bitmap := p', mod_mmu := st'\<rparr>)"
      using perm k ok(3) map by (simp add: HandleFault_def MapPage_def)
    show ?thesis
    proof (cases r)
      case (Inl e)
      then show ?thesis using hf post z(2)
        by (intro exI[of _ False] exI[of _ "m\<lparr>mod_bitmap := p', mod_mmu := st'\<rparr>"]) (simp add: map_post_def)
    next
      case (Inr u)
      have "bp_free_pages p' = bp_free_pages (mod_bitmap m) - {x}" using ok(6) by simp
      then show ?thesis using Inr hf post z(2) x AlignDown_offset by (auto simp: map_post_def)
    qed
  qed
qed

section \<open>Properties\<close>

text \<open>
  C10: on a well-formed area list (aligned, non-empty areas in address order, no two overlapping)
  \<open>AddArea\<close> keeps the list well-formed. It refuses exactly the areas that overlap an existing one,
  although it compares with the list only up to the insertion point; a refused or unallocatable
  area is deleted once and changes nothing, and an accepted one is added to the set of areas.
\<close>

theorem AS_AddArea_correct:
  assumes "areas_wf (as_area_list asp)" and "area_ok v"
  shows "\<exists>r asp' d. AS_AddArea node_ok asp v = Some (r, asp', d) \<and> areas_wf (as_area_list asp') \<and>
    (if \<exists>a\<in>set (as_area_list asp). area_range a \<inter> area_range v \<noteq> {}
     then r = Inl InvalidArgument \<and> asp' = asp \<and> d = 1
     else if \<not> node_ok then r = Inl OutOfMemory \<and> asp' = asp \<and> d = 1
     else r = Inr () \<and> d = 0 \<and> as_page_table_root asp' = as_page_table_root asp \<and>
       set (as_area_list asp') = insert v (set (as_area_list asp)))"
  using assms by (rule AS_AddArea_ok)

text \<open>
  C11: the gap search is sound and complete. A gap it returns is page aligned, lies in the requested
  range and meets no area; when it answers \<open>NotFound\<close> there is no such gap. A null \<open>range_end\<close> means
  the end of the address space.
\<close>

theorem FindGap_correct:
  assumes "areas_wf (as_area_list asp)" and "0 < unat n" and "unat rs + 4095 < 2 ^ 64"
  shows "case FindGap asp n rs re of
      Inr g \<Rightarrow> gap_ok (as_area_list asp) (unat n) (unat (AlignUp rs kPageSizeBytes))
        (unat (AlignDown (if re \<noteq> 0 then re else - 1) kPageSizeBytes)) (unat g)
    | Inl e \<Rightarrow> e = NotFound \<and> (\<nexists>g. gap_ok (as_area_list asp) (unat n) (unat (AlignUp rs kPageSizeBytes))
        (unat (AlignDown (if re \<noteq> 0 then re else - 1) kPageSizeBytes)) g)"
  using assms by (intro FindGap_ok refl)

text \<open>
  C12: \<open>FindArea\<close> returns the only area that contains the address, and \<open>NotFound\<close> when none does.
\<close>

theorem FindArea_correct:
  assumes "areas_wf (as_area_list asp)"
  shows "FindArea asp p = Inr a \<longleftrightarrow> a \<in> set (as_area_list asp) \<and> unat p \<in> area_range a"
    (is "?found \<longleftrightarrow> ?in")
proof -
  let ?as = "as_area_list asp"
  note loc = FindAreaLocked_ok[OF assms, of p]
  show ?thesis
  proof (cases "FindAreaLocked ?as p")
    case (Inl e)
    then show ?thesis using loc by (auto simp: FindArea_def)
  next
    case (Inr i)
    then have i: "i < length ?as" "unat p \<in> area_range (?as ! i)" using loc by auto
    have "?as ! i = a" if a: "a \<in> set ?as" "unat p \<in> area_range a"
    proof -
      obtain j where j: "j < length ?as" "a = ?as ! j" using a(1) by (metis in_set_conv_nth)
      then show ?thesis using areas_unique[OF assms i j(1)] a(2) by simp
    qed
    then show ?thesis using Inr i by (auto simp: FindArea_def)
  qed
qed

text \<open>
  C13: with the kernel heap able to serve it, \<open>AllocAnonymous\<close> of a page-multiple size returns the
  start of a new anonymous area that lies in the requested range and overlaps no area, and keeps
  the list well-formed; it fails only when the range has no gap of that size. The call of
  \<open>UpdateAreaFlags\<close> before the area is added never has an effect: no area contains its address yet.
\<close>

theorem Vmm_AllocAnonymous_correct:
  assumes "areas_wf (as_area_list asp)" and "0 < unat n" and "unat n mod 4096 = 0" and "unat rs + 4095 < 2 ^ 64"
  shows "if \<exists>g. gap_ok (as_area_list asp) (unat n) (unat (AlignUp rs kPageSizeBytes))
        (unat (AlignDown (if re \<noteq> 0 then re else - 1) kPageSizeBytes)) g
    then \<exists>g asp'. Vmm_AllocAnonymous True True st asp n fl rs re = Some (Inr g, st, asp') \<and>
      gap_ok (as_area_list asp) (unat n) (unat (AlignUp rs kPageSizeBytes))
        (unat (AlignDown (if re \<noteq> 0 then re else - 1) kPageSizeBytes)) (unat g) \<and>
      areas_wf (as_area_list asp') \<and> set (as_area_list asp') = insert
        \<lparr>va_start = g, va_size = n, va_flags = fl, va_kind = AnonymousVMemArea\<rparr> (set (as_area_list asp))
    else Vmm_AllocAnonymous True True st asp n fl rs re = Some (Inl NotFound, st, asp)"
proof -
  let ?as = "as_area_list asp"
  let ?lo = "unat (AlignUp rs kPageSizeBytes)"
  let ?hi = "unat (AlignDown (if re \<noteq> 0 then re else - 1) kPageSizeBytes)"
  note fg = FindGap_ok[OF assms(1,2,4) refl refl, of re]
  show ?thesis
  proof (cases "FindGap asp n rs re")
    case (Inl e)
    then show ?thesis using fg by (auto simp: Vmm_AllocAnonymous_def)
  next
    case (Inr g)
    let ?v = "\<lparr>va_start = g, va_size = n, va_flags = fl, va_kind = AnonymousVMemArea\<rparr>"
    have gap: "gap_ok ?as (unat n) ?lo ?hi (unat g)" using fg Inr by simp
    have hi: "?hi < 2 ^ 64" by (rule unat_bound_u64)
    have v: "area_ok ?v" "\<forall>a\<in>set ?as. area_range a \<inter> area_range ?v = {}"
      by (rule gap_area[OF gap assms(2,3) hi]; simp)+
    have "unat g \<in> area_range ?v" using assms(2) by (simp add: area_range_def)
    then have "\<forall>a\<in>set ?as. unat g \<notin> area_range a" using v(2) by blast
    then have upd: "Vmm_UpdateAreaFlags st asp g fl = (Inl NotFound, st, asp)"
      using assms(1) by (rule UpdateAreaFlags_absent)
    obtain asp' d where add: "AS_AddArea True asp ?v = Some (Inr (), asp', d)" "areas_wf (as_area_list asp')"
      "set (as_area_list asp') = insert ?v (set ?as)"
      using AS_AddArea_ok[OF assms(1) v(1), of True] v(2) by auto
    then have "Vmm_AllocAnonymous True True st asp n fl rs re = Some (Inr g, st, asp')"
      using Inr upd by (simp add: Vmm_AllocAnonymous_def)
    then show ?thesis using gap add by auto
  qed
qed


text \<open>
  C22: a user process that writes to a not yet present page of its own read-only anonymous area
  panics the kernel: \<open>CheckWritePermissions\<close> panics instead of letting the handler kill the process.
\<close>

theorem PageFaultHandler_user_write_panics:
  assumes "FindAreaLocked (as_area_list asp) f = Inr i" and "va_kind (as_area_list asp ! i) = AnonymousVMemArea"
    and "\<not> fe_present err" and "fe_write err" and "\<not> vf_writable (va_flags (as_area_list asp ! i))"
  shows "PageFaultHandler m asp True f err = None"
  using assms by (simp add: PageFaultHandler_def HandleFault_def CheckWritePermissions_def)

text \<open>
  C23: when \<open>AddArea\<close> cannot allocate its list node, \<open>MapUserBackbuffer\<close> deletes the new area object
  twice: once inside \<open>AddArea\<close>, which owns it, and once by its own scope guard.
\<close>

theorem Vmm_MapUserBackbuffer_double_delete:
  assumes "areas_wf (as_area_list asp)" and "IsAligned buffer kPageSizeBytes" and "0 < unat n"
    and "unat n mod 4096 = 0" and "FindGap asp n kUserSpaceStart kUserSpaceEndExclusive = Inr g"
  shows "Vmm_MapUserBackbuffer True False asp buffer n = Some (Inl OutOfMemory, asp, 2)"
proof -
  let ?v = "\<lparr>va_start = g, va_size = n, va_flags = \<lparr>vf_readable = True, vf_writable = True,
     vf_executable = True, vf_write_through = False, vf_cache_disable = False\<rparr>,
     va_kind = DirectMappingVMemArea buffer\<rparr>"
  have rs: "unat kUserSpaceStart + 4095 < 2 ^ 64" by (simp add: kUserSpaceStart_def)
  have gap: "gap_ok (as_area_list asp) (unat n) (unat (AlignUp kUserSpaceStart kPageSizeBytes))
      (unat (AlignDown (if kUserSpaceEndExclusive \<noteq> 0 then kUserSpaceEndExclusive else - 1) kPageSizeBytes)) (unat g)"
    using FindGap_ok[OF assms(1,3) rs refl refl, of kUserSpaceEndExclusive] assms(5) by simp
  have v: "area_ok ?v" "\<forall>a\<in>set (as_area_list asp). area_range a \<inter> area_range ?v = {}"
    by (rule gap_area[OF gap assms(3,4) unat_bound_u64]; simp)+
  have "AS_AddArea False asp ?v = Some (Inl OutOfMemory, asp, 1)"
    using AS_AddArea_ok[OF assms(1) v(1), of False] v(2) by auto
  then show ?thesis using assms(2,4,5) by (simp add: Vmm_MapUserBackbuffer_def AlignUp_aligned)
qed

text \<open>
  When no page is left for the top-level table, \<open>CreateUserAddrSpace\<close> destroys the half-made
  address space through its null root: it clears "user mappings" in physical page 0, freeing as
  page tables whatever the words there point to.
\<close>

theorem Vmm_CreateUserAddrSpace_oom:
  assumes "AllocateTable st 0 = Some (Inl OutOfMemory, st)"
  shows "Vmm_CreateUserAddrSpace True vma_ok node_ok st kernel_root =
    do { st' \<leftarrow> Mmu_ClearUserMappings st 0; Some (Inl OutOfMemory, st') }"
  using assms by (simp add: Vmm_CreateUserAddrSpace_def AS_InitUser_def AS_new_def
      Vmm_DestroyUserAddrSpace_def AS_destroy_def)

section \<open>Witnesses\<close>

definition as_example :: addr_space where
  "as_example = \<lparr>as_page_table_root = 0, as_owns_page_table_root = True, as_area_list =
     [\<lparr>va_start = 0x1000, va_size = 0x2000,
       va_flags = \<lparr>vf_readable = True, vf_writable = True, vf_executable = False,
                   vf_write_through = False, vf_cache_disable = False\<rparr>, va_kind = AnonymousVMemArea\<rparr>,
      \<lparr>va_start = 0x5000, va_size = 0x1000,
       va_flags = \<lparr>vf_readable = True, vf_writable = False, vf_executable = True,
                   vf_write_through = False, vf_cache_disable = False\<rparr>, va_kind = AnonymousVMemArea\<rparr>]\<rparr>"

lemma as_example_wf: "areas_wf (as_area_list as_example)"
  by (simp add: as_example_def areas_wf_def area_ok_def)

theorem AS_AddArea_correct_witness:
  "\<exists>r asp' d. AS_AddArea True as_example \<lparr>va_start = 0x3000, va_size = 0x2000,
       va_flags = va_flags (hd (as_area_list as_example)), va_kind = AnonymousVMemArea\<rparr> = Some (r, asp', d) \<and>
     areas_wf (as_area_list asp') \<and> card (set (as_area_list asp')) = 3"
proof -
  let ?v = "\<lparr>va_start = 0x3000, va_size = 0x2000,
       va_flags = va_flags (hd (as_area_list as_example)), va_kind = AnonymousVMemArea\<rparr>"
  have "area_ok ?v" by (simp add: area_ok_def)
  from AS_AddArea_correct[OF as_example_wf this, of True] show ?thesis
    by (auto simp: as_example_def area_range_def)
qed

theorem FindGap_correct_witness:
  "FindGap as_example 0x2000 0 0x8000 = Inr 0x3000 \<and>
   gap_ok (as_area_list as_example) 0x2000 0 0x8000 0x3000"
proof -
  have f: "FindGap as_example 0x2000 0 0x8000 = Inr 0x3000" by code_simp
  have rs: "unat (0 :: u64) + 4095 < 2 ^ 64" by simp
  have al: "unat (AlignUp 0 kPageSizeBytes) = 0" "unat (AlignDown 0x8000 kPageSizeBytes) = 0x8000"
    by (simp_all add: unat_AlignUp_page unat_AlignDown_page)
  from FindGap_correct[of as_example "0x2000" 0 "0x8000"] as_example_wf f al show ?thesis by simp
qed

theorem FindArea_correct_witness:
  "FindArea as_example 0x5008 = Inr (as_area_list as_example ! 1)"
  using FindArea_correct[OF as_example_wf, of "0x5008" "as_area_list as_example ! 1"]
  by (simp add: as_example_def area_range_def)

theorem Vmm_AllocAnonymous_correct_witness:
  "\<forall>st. \<exists>g asp'. Vmm_AllocAnonymous True True st as_example 0x2000
      (va_flags (hd (as_area_list as_example))) 0 0x8000 = Some (Inr g, st, asp') \<and> areas_wf (as_area_list asp')"
proof -
  have rs: "unat (0 :: u64) + 4095 < 2 ^ 64" by simp
  have al: "unat (AlignUp 0 kPageSizeBytes) = 0" "unat (AlignDown 0x8000 kPageSizeBytes) = 0x8000"
    by (simp_all add: unat_AlignUp_page unat_AlignDown_page)
  have "gap_ok (as_area_list as_example) 0x2000 0 0x8000 0x3000"
    by (simp add: gap_ok_def as_example_def area_range_def)
  then have gap: "\<exists>g. gap_ok (as_area_list as_example) (unat (0x2000 :: u64)) (unat (AlignUp 0 kPageSizeBytes))
      (unat (AlignDown (if (0x8000 :: u64) \<noteq> 0 then 0x8000 else - 1) kPageSizeBytes)) g"
    using al by auto
  show ?thesis
  proof
    fix st
    show "\<exists>g asp'. Vmm_AllocAnonymous True True st as_example 0x2000
      (va_flags (hd (as_area_list as_example))) 0 0x8000 = Some (Inr g, st, asp') \<and> areas_wf (as_area_list asp')"
      using Vmm_AllocAnonymous_correct[of as_example "0x2000" 0 "0x8000" st
          "va_flags (hd (as_area_list as_example))", OF as_example_wf] gap
      unfolding if_P[OF gap] by auto
  qed
qed


theorem PageFaultHandler_user_write_panics_witness:
  "\<forall>m. PageFaultHandler m as_example True 0x5008
     \<lparr>fe_present = False, fe_write = True, fe_user = True, fe_reserved_bits = False, fe_instruction_fetch = False\<rparr> = None"
proof -
  have "FindAreaLocked (as_area_list as_example) 0x5008 = Inr 1" by code_simp
  then show ?thesis
    by (intro allI, rule PageFaultHandler_user_write_panics) (simp_all add: as_example_def)
qed

theorem Vmm_MapUserBackbuffer_double_delete_witness:
  "Vmm_MapUserBackbuffer True False as_example 0xB8000 0x1000 = Some (Inl OutOfMemory, as_example, 2)"
proof -
  have "FindGap as_example 0x1000 kUserSpaceStart kUserSpaceEndExclusive = Inr 0" by code_simp
  moreover have "IsAligned 0xB8000 kPageSizeBytes" by code_simp
  ultimately show ?thesis by (intro Vmm_MapUserBackbuffer_double_delete[OF as_example_wf]) simp_all
qed

lemma ClearUserMappings_absent:
  assumes "\<And>i. \<not> PME_IsPresent (mm_tables st root i)"
  shows "Mmu_ClearUserMappings st root = Some st"
proof -
  have "foldM (\<lambda>st i. let entry = mm_tables st root i in
       if PME_IsPresent entry then do {
         st1 \<leftarrow> Mmu_DestroyTable st (PME_GetNextLevelTable entry) 3;
         Some (clear_entry st1 root i) }
       else Some st) st xs = Some st" for xs
    by (induction xs) (simp_all add: Let_def assms)
  then show ?thesis by (simp add: Mmu_ClearUserMappings_def)
qed

theorem Vmm_CreateUserAddrSpace_oom_witness:
  "Vmm_CreateUserAddrSpace True True True \<lparr>mm_tables = (\<lambda>_ _. 0), mm_buddy = bd_all_allocated\<rparr> 0x1000 =
     Some (Inl OutOfMemory, \<lparr>mm_tables = (\<lambda>_ _. 0), mm_buddy = bd_all_allocated\<rparr>)"
proof -
  let ?st = "\<lparr>mm_tables = (\<lambda>_ _. 0), mm_buddy = bd_all_allocated\<rparr>"
  have "BuddyPmm_Alloc bd_all_allocated 0 = Some (Inl OutOfMemory, bd_all_allocated)" by code_simp
  then have "AllocateTable ?st 0 = Some (Inl OutOfMemory, ?st)" by (simp add: AllocateTable_def)
  moreover have "Mmu_ClearUserMappings ?st 0 = Some ?st"
    by (rule ClearUserMappings_absent) (simp add: PME_IsPresent_def)
  ultimately show ?thesis using Vmm_CreateUserAddrSpace_oom[of ?st] by simp
qed

end
