(* ===== verification/Libc_Time.thy ===== *)
theory Libc_Time
  imports Kernel_Prelude "HOL-Library.Signed_Division"
begin

text \<open>
  The calendar of the C library: \<open>libs/libcpp/include/time.hpp\<close> and
  \<open>libs/libc/src/time/time_ext.cpp\<close> with the wrappers \<open>gmtime_r\<close>, \<open>localtime_r\<close> and \<open>mktime\<close>.

  The C integers are mathematical integers with C's truncating division (\<open>sdiv\<close>, \<open>smod\<close>). The
  fields of \<open>tm\<close> are 32-bit, so that the 64-bit sums computed from them cannot overflow; a
  conversion to \<open>int\<close> wraps (\<open>to_int32\<close>) and so does the unsigned addition of a time zone offset.
  Times are below 2^63 seconds, where the conversion to a signed 64-bit integer is exact. A failed
  assertion is \<open>None\<close>.
\<close>

section \<open>Constants and data\<close>

record tm =
  tm_sec :: int
  tm_min :: int
  tm_hour :: int
  tm_mday :: int
  tm_mon :: int
  tm_year :: int
  tm_wday :: int
  tm_yday :: int
  tm_isdst :: int

record Timezone =
  tz_west_offset_minutes :: int
  tz_dst_time_offset_minutes :: int
  tz_dst_time_start_seconds :: int
  tz_dst_time_end_seconds :: int

abbreviation (input) kTmBaseYear :: int where "kTmBaseYear \<equiv> 1900"
abbreviation (input) kSecondsInMinute :: int where "kSecondsInMinute \<equiv> 60"
abbreviation (input) kSecondsInHour :: int where "kSecondsInHour \<equiv> 3600"
abbreviation (input) kSecondsInDay :: int where "kSecondsInDay \<equiv> 86400"
abbreviation (input) kSecondsInUsualYear :: int where "kSecondsInUsualYear \<equiv> 31536000"

definition kPosixEpochTmSecondDiff :: int where
  "kPosixEpochTmSecondDiff = (1970 - kTmBaseYear) * kSecondsInUsualYear + ((1970 - kTmBaseYear) sdiv 4) * kSecondsInDay"

definition kFirst30PosixYears :: int where
  "kFirst30PosixYears = 30 * kSecondsInUsualYear + (28 sdiv 4) * kSecondsInDay"

definition kPosixToTmYearDiff :: int where
  "kPosixToTmYearDiff = 1970 - kTmBaseYear"

definition kDaysInMonth :: "bool \<Rightarrow> int list" where
  "kDaysInMonth leap = (if leap
     then [0, 31, 60, 91, 121, 152, 182, 213, 244, 274, 305, 335, 366]
     else [0, 31, 59, 90, 120, 151, 181, 212, 243, 273, 304, 334, 365])"

definition kUtcTimezone :: Timezone where
  "kUtcTimezone = \<lparr>tz_west_offset_minutes = 0, tz_dst_time_offset_minutes = 0,
     tz_dst_time_start_seconds = 65535, tz_dst_time_end_seconds = 65535\<rparr>"

definition kConversionFailed :: int where "kConversionFailed = 2 ^ 64 - 1"

text \<open>\<open>static_cast<int>\<close> and the wrapping of unsigned 64-bit arithmetic.\<close>

definition to_int32 :: "int \<Rightarrow> int" where
  "to_int32 x = (x + 2 ^ 31) mod 2 ^ 32 - 2 ^ 31"

definition to_u64 :: "int \<Rightarrow> int" where
  "to_u64 x = x mod 2 ^ 64"

section \<open>The functions of time.hpp\<close>

definition IsLeapYear :: "int \<Rightarrow> bool" where
  "IsLeapYear year \<longleftrightarrow> (year smod 4 = 0 \<and> year smod 100 \<noteq> 0) \<or> year smod 400 = 0"

definition IsTmYearLeap :: "int \<Rightarrow> bool" where
  "IsTmYearLeap year \<longleftrightarrow> IsLeapYear (year + kTmBaseYear)"

definition days_in_month :: "bool \<Rightarrow> int \<Rightarrow> int option" where
  "days_in_month leap m = (if 0 \<le> m \<and> m < 13 then Some (kDaysInMonth leap ! nat m) else None)"

definition SumUpDays :: "int \<Rightarrow> int" where
  "SumUpDays year = (let years_adjusted = year - 1 in
     years_adjusted * 365 + years_adjusted sdiv 4 - years_adjusted sdiv 100 + years_adjusted sdiv 400)"

definition SumUpDays_tm :: "tm \<Rightarrow> int" where
  "SumUpDays_tm t = SumUpDays (tm_year t + kTmBaseYear)"

definition GetWeekdayJan1 :: "int \<Rightarrow> int" where
  "GetWeekdayJan1 days_since_century = (days_since_century + 1) smod 7"

definition SumYearDays :: "tm \<Rightarrow> int option" where
  "SumYearDays t = do { d \<leftarrow> days_in_month (IsTmYearLeap (tm_year t)) (tm_mon t); Some (d + tm_mday t) }"

definition CalculateDayOfWeek :: "tm \<Rightarrow> int option" where
  "CalculateDayOfWeek t = do {
     d \<leftarrow> SumYearDays t;
     Some ((GetWeekdayJan1 (SumUpDays_tm t) + d - 1) smod 7) }"

definition CalculateMondayBasedWeek :: "tm \<Rightarrow> int option" where
  "CalculateMondayBasedWeek t = do {
     let jan1_weekday = GetWeekdayJan1 (SumUpDays_tm t);
     d \<leftarrow> SumYearDays t;
     let monday_based_jan1_weekday =
       (if jan1_weekday = 1 then 7 else if jan1_weekday = 0 then 6 else jan1_weekday - 1);
     Some ((d - 1 + monday_based_jan1_weekday) sdiv 7) }"

definition CalculateSundayBasedWeek :: "tm \<Rightarrow> int option" where
  "CalculateSundayBasedWeek t = do {
     let jan1_weekday = GetWeekdayJan1 (SumUpDays_tm t);
     d \<leftarrow> SumYearDays t;
     let sunday_based_weekday = (if jan1_weekday = 0 then 7 else jan1_weekday);
     Some ((d - 1 + sunday_based_weekday) sdiv 7) }"

section \<open>The functions of time_ext.cpp\<close>

definition ConvertDateTimeToPosix :: "tm \<Rightarrow> Timezone \<Rightarrow> int option" where
  "ConvertDateTimeToPosix t tz = do {
     let is_month_negative = (if tm_mon t < 0 then 1 else 0);
     let month_remainder = (tm_mon t smod 12) + is_month_negative * 12;
     let month_years = tm_mon t sdiv 12;
     let years = tm_year t + month_years;
     days \<leftarrow> days_in_month (IsTmYearLeap years) month_remainder;
     let secs = tm_sec t + tm_min t * kSecondsInMinute + tm_hour t * kSecondsInHour
       + (tm_mday t - 1) * kSecondsInDay + days * kSecondsInDay + years * kSecondsInUsualYear;
     let secs = secs + (years - 1) sdiv 4 * kSecondsInDay;
     let secs = secs - (years - 1) sdiv 100 * kSecondsInDay;
     let secs = secs + (300 + years - 1) sdiv 400 * kSecondsInDay;
     let secs = secs - kPosixEpochTmSecondDiff;
     let secs = secs - tz_west_offset_minutes tz * kSecondsInMinute;
     let secs = (if tm_isdst t > 0 \<and> tz_dst_time_offset_minutes tz \<noteq> 0
       then secs - tz_dst_time_offset_minutes tz * kSecondsInMinute else secs);
     ASSERT (\<not> tm_isdst t < 0);
     Some (if secs < 0 then kConversionFailed else secs) }"

definition ValidateTm :: "tm \<Rightarrow> bool" where
  "ValidateTm t \<longleftrightarrow> tm_hour t \<ge> 0 \<and> tm_hour t \<le> 23 \<and> tm_min t \<ge> 0 \<and> tm_min t \<le> 59 \<and>
     tm_sec t \<ge> 0 \<and> tm_sec t \<le> 60 \<and> tm_mon t \<ge> 0 \<and> tm_mon t \<le> 11 \<and> tm_mday t \<ge> 1 \<and>
     tm_mday t \<le> 31 \<and> tm_year t \<ge> 0 \<and> tm_year t \<le> 9999 \<and> tm_wday t \<ge> 0 \<and> tm_wday t \<le> 6 \<and>
     tm_yday t \<ge> 0 \<and> tm_yday t \<le> 365"

text \<open>\<open>tm time_prev{}\<close>: all fields zero but the year, the month and the day of the month.\<close>

definition tm_date :: "int \<Rightarrow> int \<Rightarrow> int \<Rightarrow> tm" where
  "tm_date y m d = \<lparr>tm_sec = 0, tm_min = 0, tm_hour = 0, tm_mday = d, tm_mon = m, tm_year = y,
     tm_wday = 0, tm_yday = 0, tm_isdst = 0\<rparr>"

text \<open>
  \<open>CalculateIsoBasedWeek\<close> calls itself for a date of the previous or the next year. The first
  argument bounds the depth of the calls; \<open>None\<close> is a deeper call. Depth 2 is enough.
\<close>

fun CalculateIsoBasedWeek_rec :: "nat \<Rightarrow> tm \<Rightarrow> int option" where
  "CalculateIsoBasedWeek_rec 0 t = None"
| "CalculateIsoBasedWeek_rec (Suc depth) t = do {
     let jan1_weekday = GetWeekdayJan1 (SumUpDays_tm t);
     let normalized_jan1_weekday = (if jan1_weekday = 0 then 7 else jan1_weekday);
     let days_in_first_week = 8 - normalized_jan1_weekday;
     let is_first_week_in_this_year = (days_in_first_week \<ge> 4);
     days_sum \<leftarrow> SumYearDays t;
     if days_sum \<le> days_in_first_week
     then (if \<not> is_first_week_in_this_year
           then CalculateIsoBasedWeek_rec depth (tm_date (tm_year t - 1) 11 31)
           else Some 1)
     else
       let total_years_days = (if IsTmYearLeap (tm_year t) then 366 else 365);
           days_except_first_week = total_years_days - days_in_first_week;
           days_in_last_not_full_week = days_except_first_week smod 7;
           days_before_last_week = total_years_days - days_in_last_not_full_week;
           is_last_not_full_week_from_next_year =
             (days_in_last_not_full_week < 4 \<and> days_in_last_not_full_week > 0)
       in if is_last_not_full_week_from_next_year \<and> days_sum > days_before_last_week
          then CalculateIsoBasedWeek_rec depth (tm_date (tm_year t + 1) 0 1)
          else Some (1 + (if is_first_week_in_this_year then 1 else 0)
                     + (days_sum - days_in_first_week - 1) sdiv 7) }"

definition CalculateIsoBasedWeek :: "tm \<Rightarrow> int option" where
  "CalculateIsoBasedWeek t = CalculateIsoBasedWeek_rec 2 t"

definition CalculateIsoBasedYear :: "tm \<Rightarrow> int option" where
  "CalculateIsoBasedYear t = do {
     let jan1_weekday = GetWeekdayJan1 (SumUpDays_tm t);
     let normalized_jan1_weekday = (if jan1_weekday = 0 then 7 else jan1_weekday);
     let days_in_first_week = 8 - normalized_jan1_weekday;
     days_sum \<leftarrow> SumYearDays t;
     if days_sum \<le> days_in_first_week
     then (if \<not> days_in_first_week \<ge> 4 then Some (kTmBaseYear + tm_year t - 1)
           else Some (kTmBaseYear + tm_year t))
     else
       let total_years_days = (if IsTmYearLeap (tm_year t) then 366 else 365);
           days_except_first_week = total_years_days - days_in_first_week;
           days_in_last_not_full_week = days_except_first_week smod 7;
           days_before_last_week = total_years_days - days_in_last_not_full_week;
           is_last_not_full_week_from_next_year =
             (days_in_last_not_full_week < 4 \<and> days_in_last_not_full_week > 0)
       in if is_last_not_full_week_from_next_year \<and> days_sum > days_before_last_week
          then Some (kTmBaseYear + tm_year t + 1)
          else Some (kTmBaseYear + tm_year t) }"

fun CalculateMonth_loop :: "int list \<Rightarrow> int \<Rightarrow> nat \<Rightarrow> nat \<Rightarrow> int \<times> int" where
  "CalculateMonth_loop ds days idx 0 = (12, days - ds ! 11 + 1)"
| "CalculateMonth_loop ds days idx (Suc n) =
     (if days < ds ! idx then (int idx, days - ds ! (idx - 1) + 1)
      else CalculateMonth_loop ds days (Suc idx) n)"

definition CalculateMonthAndDaysFromPosix :: "int \<Rightarrow> bool \<Rightarrow> (int \<times> int) option" where
  "CalculateMonthAndDaysFromPosix days is_leap_year = do {
     ASSERT (days < (if is_leap_year then 366 else 365));
     Some (CalculateMonth_loop (kDaysInMonth is_leap_year) days 1 11) }"

definition Years30More_left :: "int \<Rightarrow> int \<Rightarrow> int" where
  "Years30More_left secs years = secs - kFirst30PosixYears - years * kSecondsInUsualYear
     - (years - 1) sdiv 4 * kSecondsInDay + (years - 1) sdiv 100 * kSecondsInDay
     - (years - 1) sdiv 400 * kSecondsInDay - (if years > 0 then 1 else 0) * kSecondsInDay"

text \<open>The \<open>do\<close> loops; \<open>n\<close> is the number of iterations left before the assertion fails.\<close>

fun Years30More_loop :: "nat \<Rightarrow> int \<Rightarrow> int \<Rightarrow> (int \<times> int) option" where
  "Years30More_loop 0 secs years = None"
| "Years30More_loop (Suc n) secs years =
     (if Years30More_left secs years < 0 then Years30More_loop n secs (years - 1)
      else Some (years - 1 + 1 + 30, Years30More_left secs years))"

definition CalculateYears30MoreWLeaps :: "int \<Rightarrow> (int \<times> int) option" where
  "CalculateYears30MoreWLeaps secs = Years30More_loop 5 secs ((secs - kFirst30PosixYears) sdiv kSecondsInUsualYear)"

definition Years30Less_left :: "int \<Rightarrow> int \<Rightarrow> int" where
  "Years30Less_left secs years = secs - years * kSecondsInUsualYear
     - (if years > 2 then ((years + 1) sdiv 4) * kSecondsInDay else 0)"

fun Years30Less_loop :: "nat \<Rightarrow> int \<Rightarrow> int \<Rightarrow> (int \<times> int) option" where
  "Years30Less_loop 0 secs years = None"
| "Years30Less_loop (Suc n) secs years =
     (if Years30Less_left secs years < 0 then Years30Less_loop n secs (years - 1)
      else Some (years - 1 + 1, Years30Less_left secs years))"

definition CalculateYears30LessWLeaps :: "int \<Rightarrow> (int \<times> int) option" where
  "CalculateYears30LessWLeaps secs = Years30Less_loop 2 secs (secs sdiv kSecondsInUsualYear)"

definition CalculateYearsFromPosix :: "int \<Rightarrow> (int \<times> int) option" where
  "CalculateYearsFromPosix secs =
     (if secs \<ge> kFirst30PosixYears then CalculateYears30MoreWLeaps secs
      else CalculateYears30LessWLeaps secs)"

definition GetDSTOffset :: "int \<Rightarrow> Timezone \<Rightarrow> int" where
  "GetDSTOffset secs tz =
     (if tz_dst_time_offset_minutes tz = 0 then 0
      else if tz_dst_time_start_seconds tz < tz_dst_time_end_seconds tz
      then (if secs \<ge> tz_dst_time_start_seconds tz \<and> secs < tz_dst_time_end_seconds tz
            then to_u64 (tz_dst_time_offset_minutes tz * kSecondsInMinute) else 0)
      else (if secs \<ge> tz_dst_time_start_seconds tz \<or> secs < tz_dst_time_end_seconds tz
            then to_u64 (tz_dst_time_offset_minutes tz * kSecondsInMinute) else 0))"

definition ConvertFromPosixToTm :: "int \<Rightarrow> Timezone \<Rightarrow> tm option" where
  "ConvertFromPosixToTm timer tz = do {
     let time_left = to_u64 (timer + tz_west_offset_minutes tz * kSecondsInMinute);
     (years, time_left) \<leftarrow> CalculateYearsFromPosix time_left;
     let year = to_int32 (kPosixToTmYearDiff + years);
     let dst_offset = GetDSTOffset time_left tz;
     let time_left = to_u64 (time_left + dst_offset);
     let isdst = (if dst_offset \<noteq> 0 then 1 else 0);
     let days = time_left sdiv kSecondsInDay;
     let time_left = time_left - days * kSecondsInDay;
     let hours = time_left sdiv kSecondsInHour;
     let time_left = time_left - hours * kSecondsInHour;
     let minutes = time_left sdiv kSecondsInMinute;
     let time_left = time_left - minutes * kSecondsInMinute;
     (month, day) \<leftarrow> CalculateMonthAndDaysFromPosix days (IsTmYearLeap year);
     let result = \<lparr>tm_sec = to_int32 time_left, tm_min = to_int32 minutes, tm_hour = to_int32 hours,
       tm_mday = to_int32 day, tm_mon = to_int32 (month - 1), tm_year = year, tm_wday = 0,
       tm_yday = to_int32 days, tm_isdst = isdst\<rparr>;
     wday \<leftarrow> CalculateDayOfWeek result;
     Some (result\<lparr>tm_wday := to_int32 wday\<rparr>) }"

text \<open>
  \<open>MkTimeFromTimeZone\<close> returns the time and the normalised structure; a failed conversion sets
  \<open>errno\<close> to \<open>EOVERFLOW\<close> and returns \<open>kMktimeFailed\<close>, here \<open>Inl ()\<close>.
\<close>

definition MkTimeFromTimeZone :: "tm \<Rightarrow> Timezone \<Rightarrow> (unit, int \<times> tm) expected option" where
  "MkTimeFromTimeZone time_ptr tz = do {
     t \<leftarrow> ConvertDateTimeToPosix time_ptr tz;
     if t = kConversionFailed then Some (Inl ())
     else do {
       result \<leftarrow> ConvertFromPosixToTm t tz;
       t' \<leftarrow> ConvertDateTimeToPosix result tz;
       ASSERT (t' = t);
       Some (Inr (t, result)) } }"

definition gmtime_r :: "int \<Rightarrow> tm option" where
  "gmtime_r timer = ConvertFromPosixToTm timer kUtcTimezone"

definition localtime_r :: "Timezone \<Rightarrow> int \<Rightarrow> tm option" where
  "localtime_r tz timer = ConvertFromPosixToTm timer tz"

section \<open>The calendar\<close>

text \<open>
  The calendar as it is defined: \<open>days_to n\<close> counts the days of the years 1970 to 1970 + n - 1,
  one year at a time.
\<close>

definition year_days :: "int \<Rightarrow> int" where
  "year_days y = (if IsLeapYear y then 366 else 365)"

primrec days_to :: "nat \<Rightarrow> int" where
  "days_to 0 = 0"
| "days_to (Suc n) = days_to n + year_days (1970 + int n)"

declare days_to.simps(2) [simp del]

text \<open>The number of leap years up to \<open>y\<close> and the closed form of the days.\<close>

definition leaps :: "int \<Rightarrow> int" where
  "leaps y = y div 4 - y div 100 + y div 400"

lemma sdiv_nonneg: "0 \<le> x \<Longrightarrow> 0 < k \<Longrightarrow> x sdiv k = (x :: int) div k"
  by (auto simp: signed_divide_int_def sgn_if)

lemma smod_nonneg: "0 \<le> x \<Longrightarrow> 0 < k \<Longrightarrow> x smod k = (x :: int) mod k"
  by (auto simp: signed_modulo_int_def sgn_if)

lemma IsLeapYear_mod: "0 \<le> y \<Longrightarrow> IsLeapYear y \<longleftrightarrow> (y mod 4 = 0 \<and> y mod 100 \<noteq> 0) \<or> y mod 400 = 0"
  by (simp add: IsLeapYear_def smod_nonneg)

lemma div_succ:
  fixes y k :: int
  assumes "0 < k"
  shows "(y + 1) div k = y div k + (if (y + 1) mod k = 0 then 1 else 0)"
proof (cases "(y + 1) mod k = 0")
  case True
  then obtain q where "y + 1 = k * q" by (auto elim: dvdE simp: mod_eq_0_iff_dvd)
  then have y: "y = k * (q - 1) + (k - 1)" by (simp add: algebra_simps)
  have "y div k = q - 1" using assms unfolding y by simp
  then show ?thesis using True \<open>y + 1 = k * q\<close> assms by simp
next
  case False
  have "y + 1 = k * ((y + 1) div k) + (y + 1) mod k" by simp
  moreover have "0 \<le> (y + 1) mod k - 1" "(y + 1) mod k - 1 < k"
    using False assms pos_mod_sign[of k "y + 1"] pos_mod_bound[of k "y + 1"] by linarith+
  ultimately have "y div k = (y + 1) div k"
    by (intro int_div_pos_eq[where r = "(y + 1) mod k - 1"]) linarith+
  then show ?thesis using False by simp
qed

lemma leaps_succ:
  assumes "0 \<le> y"
  shows "leaps (y + 1) = leaps y + (if IsLeapYear (y + 1) then 1 else 0)"
proof -
  have "(y + 1) mod 400 = 0 \<Longrightarrow> (y + 1) mod 100 = 0" "(y + 1) mod 100 = 0 \<Longrightarrow> (y + 1) mod 4 = 0"
    using dvd_trans[of 100 400 "y + 1"] dvd_trans[of 4 100 "y + 1"] by (simp_all add: mod_eq_0_iff_dvd)
  then show ?thesis using assms by (simp add: leaps_def IsLeapYear_mod div_succ)
qed

lemma leaps_mono: "0 \<le> x \<Longrightarrow> x \<le> y \<Longrightarrow> leaps x \<le> leaps y"
proof (induction "nat (y - x)" arbitrary: y)
  case (Suc n)
  then have "n = nat (y - 1 - x)" "x \<le> y - 1" by simp_all
  with Suc have "leaps x \<le> leaps (y - 1)" by simp
  then show ?case using leaps_succ[of "y - 1"] Suc.prems \<open>x \<le> y - 1\<close> by simp
qed simp

lemma days_to_closed: "days_to n = 365 * int n + leaps (1969 + int n) - 477"
proof (induction n)
  case 0
  show ?case by (simp add: leaps_def)
next
  case (Suc n)
  have "leaps (1969 + int n + 1) = leaps (1969 + int n) + (if IsLeapYear (1969 + int n + 1) then 1 else 0)"
    by (rule leaps_succ) simp
  then show ?case using Suc by (simp add: year_days_def algebra_simps days_to.simps)
qed

lemma year_days_bounds: "365 \<le> year_days y" "year_days y \<le> 366"
  by (simp_all add: year_days_def)

lemma days_to_growth: "m \<le> n \<Longrightarrow> days_to m + 365 * (int n - int m) \<le> days_to n"
proof (induction rule: dec_induct)
  case (step n)
  then show ?case using year_days_bounds(1)[of "1970 + int n"] by (simp add: days_to.simps)
qed simp

lemma days_to_mono: "m \<le> n \<Longrightarrow> days_to m \<le> days_to n"
  using days_to_growth[of m n] by simp

lemma days_to_nonneg: "0 \<le> days_to n"
  using days_to_growth[of 0 n] by simp

text \<open>Every time lies in exactly one year.\<close>

lemma year_of_time:
  assumes "0 \<le> t"
  obtains n where "86400 * days_to n \<le> t" "t < 86400 * days_to (Suc n)"
proof -
  have ex: "\<exists>k. t < 86400 * days_to k"
  proof
    have "0 + 365 * (int (Suc (nat t)) - int 0) \<le> days_to (Suc (nat t))"
      using days_to_growth[of 0 "Suc (nat t)"] by simp
    then show "t < 86400 * days_to (Suc (nat t))" using assms by simp
  qed
  define k where "k = (LEAST k. t < 86400 * days_to k)"
  have k: "t < 86400 * days_to k" using LeastI_ex[OF ex] by (simp add: k_def)
  then have "k \<noteq> 0" using assms by (cases k) auto
  then obtain n where n: "k = Suc n" by (cases k) auto
  then have "\<not> t < 86400 * days_to n" using not_less_Least[of n "\<lambda>k. t < 86400 * days_to k"] by (simp add: k_def)
  then show thesis using that[of n] k n by simp
qed

lemma year_unique:
  assumes "86400 * days_to n \<le> t" "t < 86400 * days_to (Suc n)" "86400 * days_to m \<le> t" "t < 86400 * days_to (Suc m)"
  shows "n = m"
proof (rule linorder_cases[of n m])
  assume "n < m"
  then have "days_to (Suc n) \<le> days_to m" by (intro days_to_mono) simp
  then show ?thesis using assms by linarith
next
  assume "m < n"
  then have "days_to (Suc m) \<le> days_to n" by (intro days_to_mono) simp
  then show ?thesis using assms by linarith
qed simp

section \<open>The year of a time\<close>

lemma Years30Less_left_eq:
  assumes "n \<le> 30"
  shows "Years30Less_left secs (int n) = secs - 86400 * days_to n"
proof -
  have "(1969 + int n) div 4 = 492 + (int n + 1) div 4"
    using div_mult_self3[of 4 492 "int n + 1"] by (simp add: algebra_simps)
  moreover have "(1969 + int n) div 100 = 19"
    by (rule int_div_pos_eq[where r = "69 + int n"]) (use assms in auto)
  moreover have "(1969 + int n) div 400 = 4"
    by (rule int_div_pos_eq[where r = "369 + int n"]) (use assms in auto)
  ultimately have days: "days_to n = 365 * int n + (int n + 1) div 4"
    using days_to_closed[of n] unfolding leaps_def by linarith
  have "(if int n > 2 then ((int n + 1) sdiv 4) * 86400 else 0) = 86400 * ((int n + 1) div 4)"
    by (simp add: sdiv_nonneg)
  then show ?thesis unfolding Years30Less_left_def days by (simp add: distrib_left)
qed

lemma kFirst30_eq: "kFirst30PosixYears = 946684800"
  by (simp add: kFirst30PosixYears_def sdiv_nonneg)

lemma days_to_30: "days_to 30 = 10957"
  using days_to_closed[of 30] by (simp add: leaps_def)

lemma Years30More_left_eq: "Years30More_left secs (int m) = secs - 86400 * days_to (30 + m)"
proof (cases m)
  case 0
  have "(- 1 :: int) sdiv 4 = 0" "(- 1 :: int) sdiv 100 = 0" "(- 1 :: int) sdiv 400 = 0"
    by (simp_all add: signed_divide_int_def)
  then show ?thesis using 0 days_to_30 by (simp add: Years30More_left_def kFirst30_eq)
next
  case (Suc k)
  obtain a b c where abc: "int k div 4 = a" "int k div 100 = b" "int k div 400 = c" by blast
  have "(2000 + int k) div 4 = 500 + a" "(2000 + int k) div 100 = 20 + b" "(2000 + int k) div 400 = 5 + c"
    unfolding abc[symmetric] by simp_all
  moreover have "1969 + int (30 + m) = 2000 + int k" "int (30 + m) = 30 + int m" unfolding Suc by simp_all
  ultimately have days: "days_to (30 + m) = 365 * int m + 10958 + a - b + c"
    using days_to_closed[of "30 + m"] by (simp only: leaps_def) (simp add: distrib_left)
  have "(int m - 1) sdiv 4 = a" "(int m - 1) sdiv 100 = b" "(int m - 1) sdiv 400 = c"
    unfolding abc[symmetric] Suc by (simp_all add: sdiv_nonneg)
  moreover have "(if 0 < int m then 1 else 0) = (1 :: int)" unfolding Suc by simp
  ultimately show ?thesis by (simp only: Years30More_left_def days kFirst30_eq) simp
qed

lemma Years30More_loop_ok:
  assumes "86400 * days_to (30 + m) \<le> t" "t < 86400 * days_to (Suc (30 + m))"
  shows "m \<le> y \<Longrightarrow> y < m + N \<Longrightarrow> Years30More_loop N t (int y) = Some (30 + int m, t - 86400 * days_to (30 + m))"
proof (induction N arbitrary: y)
  case (Suc N)
  show ?case
  proof (cases "y = m")
    case True
    then show ?thesis using assms by (simp add: Years30More_left_eq)
  next
    case False
    then have "days_to (Suc (30 + m)) \<le> days_to (30 + y)" using Suc.prems by (intro days_to_mono) simp
    then have "Years30More_left t (int y) < 0" using assms(2) by (simp add: Years30More_left_eq)
    moreover obtain z where "y = Suc z" "m \<le> z" "z < m + N" using False Suc.prems by (cases y) auto
    ultimately show ?thesis using Suc.IH[of z] by simp
  qed
qed simp

lemma Years30Less_loop_ok:
  assumes "86400 * days_to m \<le> t" "t < 86400 * days_to (Suc m)"
  shows "m \<le> y \<Longrightarrow> y < m + N \<Longrightarrow> y \<le> 30 \<Longrightarrow> Years30Less_loop N t (int y) = Some (int m, t - 86400 * days_to m)"
proof (induction N arbitrary: y)
  case (Suc N)
  show ?case
  proof (cases "y = m")
    case True
    then show ?thesis using assms Suc.prems by (simp add: Years30Less_left_eq)
  next
    case False
    then have "days_to (Suc m) \<le> days_to y" using Suc.prems by (intro days_to_mono) simp
    then have "Years30Less_left t (int y) < 0" using assms(2) Suc.prems by (simp add: Years30Less_left_eq)
    moreover obtain z where "y = Suc z" "m \<le> z" "z < m + N" "z \<le> 30" using False Suc.prems by (cases y) auto
    ultimately show ?thesis using Suc.IH[of z] by simp
  qed
qed simp

text \<open>
  The bound of the conversion: with later times the estimate of the year may be more than four
  years too late, and the assertion on the number of iterations fails.
\<close>

lemma estimate:
  fixes a k :: int
  assumes "0 \<le> a" "0 < k"
  obtains y where "int y = a sdiv k" "k * int y \<le> a" "a < k * (int y + 1)"
proof
  let ?y = "nat (a div k)"
  have y: "int ?y = a div k" using assms by (simp add: pos_imp_zdiv_nonneg_iff)
  then show "int ?y = a sdiv k" using assms by (simp add: sdiv_nonneg)
  have "a = k * (a div k) + a mod k" "0 \<le> a mod k" "a mod k < k" using assms by simp_all
  then show "k * int ?y \<le> a" "a < k * (int ?y + 1)" unfolding y distrib_left by linarith+
qed

definition kMaxTime :: int where "kMaxTime = 190000000000"

lemma CalculateYearsFromPosix_ok:
  assumes t: "0 \<le> t" "t < kMaxTime" and n: "86400 * days_to n \<le> t" "t < 86400 * days_to (Suc n)"
  shows "CalculateYearsFromPosix t = Some (int n, t - 86400 * days_to n)"
proof -
  note d30 = days_to_30
  have k: "kFirst30PosixYears = 86400 * days_to 30" by (simp add: d30 kFirst30_eq)
  show ?thesis
  proof (cases "kFirst30PosixYears \<le> t")
    case True
    have "30 \<le> n"
    proof (rule ccontr)
      assume "\<not> 30 \<le> n"
      then have "days_to (Suc n) \<le> days_to 30" by (intro days_to_mono) simp
      then show False using n(2) True k by linarith
    qed
    then obtain m where m: "n = 30 + m" using le_Suc_ex by blast
    obtain y where y: "int y = (t - kFirst30PosixYears) sdiv 31536000" "31536000 * int y \<le> t - kFirst30PosixYears"
      "t - kFirst30PosixYears < 31536000 * (int y + 1)"
      by (rule estimate[of "t - kFirst30PosixYears" 31536000]) (use True in auto)
    have "days_to 30 + 365 * int m \<le> days_to n" using days_to_growth[of 30 n] m by simp
    then have "31536000 * int m \<le> t - kFirst30PosixYears" using n(1) k by linarith
    then have "31536000 * int m < 31536000 * (int y + 1)" using y(3) by linarith
    then have my: "m \<le> y" by simp
    have "y < m + 5"
    proof (rule ccontr)
      assume "\<not> y < m + 5"
      then have "days_to (Suc n) \<le> days_to (26 + y)" unfolding m by (intro days_to_mono) simp
      moreover have "leaps (1995 + int y) \<le> leaps 7995"
        using y(2) t(2) by (intro leaps_mono) (auto simp: kMaxTime_def k d30)
      moreover have "leaps 7995 = 1938" by (simp add: leaps_def)
      ultimately have "days_to (Suc n) \<le> 365 * (26 + int y) + 1938 - 477"
        by (simp add: days_to_closed[of "26 + y"])
      then have "86400 * days_to (Suc n) \<le> 31536000 * int y + 946166400" by simp
      then show False using n(2) y(2) unfolding k d30 by linarith
    qed
    then have "Years30More_loop 5 t (int y) = Some (30 + int m, t - 86400 * days_to (30 + m))"
      using n my unfolding m by (intro Years30More_loop_ok) simp_all
    then show ?thesis using True y(1) m
      by (simp add: CalculateYearsFromPosix_def CalculateYears30MoreWLeaps_def)
  next
    case False
    obtain y where y: "int y = t sdiv 31536000" "31536000 * int y \<le> t" "t < 31536000 * (int y + 1)"
      by (rule estimate[of t 31536000]) (use t(1) in auto)
    have "365 * int n \<le> days_to n" using days_to_growth[of 0 n] by simp
    then have "31536000 * int n < 31536000 * (int y + 1)" using n(1) y(3) by linarith
    then have ny: "n \<le> y" by simp
    have y30: "y \<le> 30" using y(2) False by (simp add: k d30)
    have "y < n + 2"
    proof (rule ccontr)
      assume "\<not> y < n + 2"
      then obtain z where z: "y = Suc z" "Suc n \<le> z" by (cases y) auto
      have "days_to (Suc n) \<le> days_to z" using z(2) by (rule days_to_mono)
      moreover have "leaps (1969 + int z) \<le> leaps 1999" using y30 z(1) by (intro leaps_mono) auto
      moreover have "leaps 1999 = 484" by (simp add: leaps_def)
      ultimately have "days_to (Suc n) \<le> 365 * int z + 7" by (simp add: days_to_closed[of z])
      then have "days_to (Suc n) \<le> 365 * int y" using z(1) by simp
      then have "86400 * days_to (Suc n) \<le> 31536000 * int y" by simp
      then show False using n(2) y(2) by linarith
    qed
    then have "Years30Less_loop 2 t (int y) = Some (int n, t - 86400 * days_to n)"
      using n ny y30 by (intro Years30Less_loop_ok) simp_all
    then show ?thesis using False y(1)
      by (simp add: CalculateYearsFromPosix_def CalculateYears30LessWLeaps_def)
  qed
qed

section \<open>The month of a day\<close>

lemma CalculateMonth_loop_ok:
  assumes "idx + n = 12" "1 \<le> idx" "ds ! (idx - 1) \<le> days" "days < ds ! 12"
  shows "\<exists>m. CalculateMonth_loop ds days idx n = (int m, days - ds ! (m - 1) + 1) \<and>
     1 \<le> m \<and> m \<le> 12 \<and> ds ! (m - 1) \<le> days \<and> days < ds ! m"
  using assms
proof (induction n arbitrary: idx)
  case 0
  then show ?case by (intro exI[of _ 12]) simp
next
  case (Suc n)
  then show ?case using Suc.IH[of "Suc idx"] by (cases "days < ds ! idx") auto
qed

lemma CalculateMonth_ok:
  assumes "0 \<le> days" "days < (if leap then 366 else 365)"
  obtains m d where "CalculateMonthAndDaysFromPosix days leap = Some (int m + 1, d)" "m < 12"
    "1 \<le> d" "kDaysInMonth leap ! m + d = days + 1" "days < kDaysInMonth leap ! Suc m"
proof -
  obtain m where m: "CalculateMonth_loop (kDaysInMonth leap) days 1 11 = (int m, days - kDaysInMonth leap ! (m - 1) + 1)"
    "1 \<le> m" "m \<le> 12" "kDaysInMonth leap ! (m - 1) \<le> days" "days < kDaysInMonth leap ! m"
    using CalculateMonth_loop_ok[of 1 11 "kDaysInMonth leap" days] assms
    by (cases leap) (auto simp: kDaysInMonth_def)
  then obtain k where k: "m = Suc k" by (cases m) auto
  show thesis
  proof (rule that[of k "days - kDaysInMonth leap ! k + 1"])
    show "CalculateMonthAndDaysFromPosix days leap = Some (int k + 1, days - kDaysInMonth leap ! k + 1)"
      using m(1) k assms(2) by (cases leap) (simp_all add: CalculateMonthAndDaysFromPosix_def)
  qed (use m(2-5) k in auto)
qed

lemma to_int32_id:
  assumes "- 2147483648 \<le> x" "x < 2147483648"
  shows "to_int32 x = x"
proof -
  have "(x + 2 ^ 31) mod 2 ^ 32 = x + 2 ^ 31" using assms by (intro mod_pos_pos_trivial) auto
  then show ?thesis by (simp add: to_int32_def)
qed

lemma to_u64_id:
  assumes "0 \<le> x" "x < 18446744073709551616"
  shows "to_u64 x = x"
  unfolding to_u64_def using assms by (intro mod_pos_pos_trivial) auto

section \<open>What a broken-down time denotes\<close>

text \<open>
  \<open>tm_denotes t secs\<close>: the fields are in range, the day of the month is one of its month, day of
  year and day of week fit the date, and counting whole years, days, hours, minutes and seconds
  from 1970 gives \<open>secs\<close>.
\<close>

definition time_of_day_ok :: "tm \<Rightarrow> bool" where
  "time_of_day_ok t \<longleftrightarrow> 0 \<le> tm_hour t \<and> tm_hour t < 24 \<and> 0 \<le> tm_min t \<and> tm_min t < 60 \<and>
     0 \<le> tm_sec t \<and> tm_sec t < 60"

definition date_ok :: "tm \<Rightarrow> bool" where
  "date_ok t \<longleftrightarrow> 70 \<le> tm_year t \<and> 0 \<le> tm_mon t \<and> tm_mon t < 12 \<and> 1 \<le> tm_mday t \<and>
     tm_mday t \<le> kDaysInMonth (IsTmYearLeap (tm_year t)) ! Suc (nat (tm_mon t))
       - kDaysInMonth (IsTmYearLeap (tm_year t)) ! nat (tm_mon t)"

definition day_of_year :: "tm \<Rightarrow> int" where
  "day_of_year t = kDaysInMonth (IsTmYearLeap (tm_year t)) ! nat (tm_mon t) + tm_mday t - 1"

definition seconds_of :: "tm \<Rightarrow> int" where
  "seconds_of t = 86400 * (days_to (nat (tm_year t - 70)) + day_of_year t)
     + 3600 * tm_hour t + 60 * tm_min t + tm_sec t"

definition tm_denotes :: "tm \<Rightarrow> int \<Rightarrow> bool" where
  "tm_denotes t secs \<longleftrightarrow> date_ok t \<and> time_of_day_ok t \<and> tm_isdst t = 0 \<and> tm_yday t = day_of_year t \<and>
     tm_wday t = (days_to (nat (tm_year t - 70)) + day_of_year t + 4) mod 7 \<and> secs = seconds_of t"

lemma IsTmYearLeap_eq: "IsTmYearLeap (70 + int n) = IsLeapYear (1970 + int n)"
  by (simp add: IsTmYearLeap_def)

lemma month_table:
  assumes "m < 12"
  shows "0 \<le> kDaysInMonth leap ! m" "kDaysInMonth leap ! m < kDaysInMonth leap ! Suc m"
    "kDaysInMonth leap ! Suc m \<le> (if leap then 366 else 365)"
proof -
  have "m \<in> {0, 1, 2, 3, 4, 5, 6, 7, 8, 9, 10, 11}" using assms by simp presburger
  then show "0 \<le> kDaysInMonth leap ! m" "kDaysInMonth leap ! m < kDaysInMonth leap ! Suc m"
    "kDaysInMonth leap ! Suc m \<le> (if leap then 366 else 365)"
    by (cases leap; auto simp: kDaysInMonth_def)+
qed

lemma day_of_year_bounds:
  assumes "date_ok t"
  shows "0 \<le> day_of_year t" "day_of_year t < kDaysInMonth (IsTmYearLeap (tm_year t)) ! Suc (nat (tm_mon t))"
    "day_of_year t < year_days (1900 + tm_year t)"
proof -
  have m: "nat (tm_mon t) < 12" using assms by (auto simp: date_ok_def)
  note tab = month_table[OF m, of "IsTmYearLeap (tm_year t)"]
  show "0 \<le> day_of_year t" "day_of_year t < kDaysInMonth (IsTmYearLeap (tm_year t)) ! Suc (nat (tm_mon t))"
    using assms tab(1) by (simp_all add: date_ok_def day_of_year_def)
  then show "day_of_year t < year_days (1900 + tm_year t)"
    using tab(3) by (simp add: year_days_def IsTmYearLeap_def add.commute split: if_splits)
qed

lemma seconds_of_year:
  assumes "date_ok t" "time_of_day_ok t"
  shows "86400 * days_to (nat (tm_year t - 70)) \<le> seconds_of t"
    "seconds_of t < 86400 * days_to (Suc (nat (tm_year t - 70)))"
proof -
  have y: "1970 + int (nat (tm_year t - 70)) = 1900 + tm_year t" using assms(1) by (simp add: date_ok_def)
  note d = day_of_year_bounds[OF assms(1)]
  have "0 \<le> 3600 * tm_hour t + 60 * tm_min t + tm_sec t" "3600 * tm_hour t + 60 * tm_min t + tm_sec t < 86400"
    using assms(2) by (auto simp: time_of_day_ok_def)
  note day = this
  show "86400 * days_to (nat (tm_year t - 70)) \<le> seconds_of t"
    using d(1) day(1) unfolding seconds_of_def by (simp add: distrib_left)
  show "seconds_of t < 86400 * days_to (Suc (nat (tm_year t - 70)))"
    using d(3) day(2) unfolding seconds_of_def days_to.simps y by (simp add: distrib_left)
qed

lemma sum_of_year: "SumUpDays (1970 + int n) = days_to n + 719162"
proof -
  obtain a b c where abc: "(1969 + int n) div 4 = a" "(1969 + int n) div 100 = b" "(1969 + int n) div 400 = c" by blast
  then have "(1969 + int n) sdiv 4 = a" "(1969 + int n) sdiv 100 = b" "(1969 + int n) sdiv 400 = c"
    by (simp_all add: sdiv_nonneg)
  moreover have "1970 + int n - 1 = 1969 + int n" by simp
  ultimately have "SumUpDays (1970 + int n) = 365 * (1969 + int n) + a - b + c"
    by (simp only: SumUpDays_def Let_def mult.commute)
  moreover have "days_to n = 365 * int n + (a - b + c) - 477"
    unfolding abc[symmetric] leaps_def[symmetric] by (rule days_to_closed)
  ultimately show ?thesis by simp
qed

lemma CalculateDayOfWeek_ok:
  assumes "date_ok t"
  shows "CalculateDayOfWeek t = Some ((days_to (nat (tm_year t - 70)) + day_of_year t + 4) mod 7)"
proof -
  define n where "n = nat (tm_year t - 70)"
  have y: "tm_year t + 1900 = 1970 + int n" using assms by (simp add: n_def date_ok_def)
  have "0 \<le> days_to n" by (rule days_to_nonneg)
  moreover have "days_to n + 719162 + 1 = days_to n + 719163" by simp
  ultimately have j: "GetWeekdayJan1 (SumUpDays_tm t) = (days_to n + 719163) mod 7"
    unfolding GetWeekdayJan1_def SumUpDays_tm_def y sum_of_year by (simp only: smod_nonneg)
  have s: "SumYearDays t = Some (day_of_year t + 1)"
    using assms by (simp add: SumYearDays_def days_in_month_def day_of_year_def date_ok_def)
  have "((days_to n + 719163) mod 7 + (day_of_year t + 1) - 1) mod 7 = ((days_to n + 719163) mod 7 + day_of_year t) mod 7"
    by (simp only: add_diff_cancel_right' add.assoc[symmetric])
  also have "\<dots> = (days_to n + 719163 + day_of_year t) mod 7" by (rule mod_add_left_eq)
  also have "days_to n + 719163 + day_of_year t = days_to n + day_of_year t + 4 + 102737 * 7" by simp
  also have "\<dots> mod 7 = (days_to n + day_of_year t + 4) mod 7" by (rule mod_mult_self1)
  finally show ?thesis
    using day_of_year_bounds(1)[OF assms] unfolding CalculateDayOfWeek_def s j n_def[symmetric]
    by (simp add: smod_nonneg)
qed

section \<open>Both directions of the conversion\<close>

lemma to_posix_ok:
  assumes d: "date_ok t" and isdst: "tm_isdst t = 0" and nn: "0 \<le> seconds_of t"
  shows "ConvertDateTimeToPosix t kUtcTimezone = Some (seconds_of t)"
proof -
  define n where "n = nat (tm_year t - 70)"
  have y: "tm_year t = 70 + int n" and m: "0 \<le> tm_mon t" "tm_mon t < 12"
    using d by (simp_all add: n_def date_ok_def)
  have month: "tm_mon t smod 12 = tm_mon t" "tm_mon t sdiv 12 = 0"
    using m by (simp_all add: smod_nonneg sdiv_nonneg)
  obtain a b c where abc: "(69 + int n) div 4 = a" "(69 + int n) div 100 = b" "(369 + int n) div 400 = c" by blast
  have "(1969 + int n) div 4 = 475 + a" "(1969 + int n) div 100 = 19 + b" "(1969 + int n) div 400 = 4 + c"
    unfolding abc[symmetric]
    using div_mult_self3[of 4 475 "69 + int n"] div_mult_self3[of 100 19 "69 + int n"]
      div_mult_self3[of 400 4 "369 + int n"] by simp_all
  then have days: "days_to n = 365 * int n + a - b + c - 17"
    using days_to_closed[of n] by (simp only: leaps_def)
  have sd: "(69 + int n) sdiv 4 = a" "(69 + int n) sdiv 100 = b" "(369 + int n) sdiv 400 = c"
    unfolding abc[symmetric] by (simp_all add: sdiv_nonneg)
  have k: "kPosixEpochTmSecondDiff = 2208988800" by (simp add: kPosixEpochTmSecondDiff_def sdiv_nonneg)
  have dim: "days_in_month (IsTmYearLeap (70 + int n)) (tm_mon t) =
      Some (day_of_year t - tm_mday t + 1)"
    using m by (simp add: days_in_month_def day_of_year_def y)
  have "ConvertDateTimeToPosix t kUtcTimezone = (let secs =
      tm_sec t + tm_min t * 60 + tm_hour t * 3600 + (tm_mday t - 1) * 86400
       + (day_of_year t - tm_mday t + 1) * 86400 + (70 + int n) * 31536000
       + a * 86400 - b * 86400 + c * 86400 - 2208988800 in
     Some (if secs < 0 then kConversionFailed else secs))"
    using m by (simp add: ConvertDateTimeToPosix_def y month dim sd k isdst kUtcTimezone_def Let_def)
  moreover have "tm_sec t + tm_min t * 60 + tm_hour t * 3600 + (tm_mday t - 1) * 86400
       + (day_of_year t - tm_mday t + 1) * 86400 + (70 + int n) * 31536000
       + a * 86400 - b * 86400 + c * 86400 - 2208988800 = seconds_of t"
    unfolding seconds_of_def n_def[symmetric] days by (simp add: algebra_simps)
  ultimately show ?thesis using nn by (simp add: Let_def)
qed

lemma seconds_of_nonneg: "date_ok t \<Longrightarrow> time_of_day_ok t \<Longrightarrow> 0 \<le> seconds_of t"
  using seconds_of_year(1)[of t] days_to_nonneg[of "nat (tm_year t - 70)"] by simp

lemma quotient:
  fixes x k :: int
  assumes "0 \<le> x" "0 < k"
  obtains q r where "x = k * q + r" "0 \<le> q" "0 \<le> r" "r < k" "x sdiv k = q"
proof
  show "x = k * (x div k) + x mod k" by simp
  show "0 \<le> x div k" using assms by (simp add: pos_imp_zdiv_nonneg_iff)
  show "0 \<le> x mod k" "x mod k < k" using assms by simp_all
  show "x sdiv k = x div k" using assms by (rule sdiv_nonneg)
qed

lemma from_posix_ok:
  assumes t: "0 \<le> secs" "secs < kMaxTime"
  obtains tmv where "gmtime_r secs = Some tmv" "tm_denotes tmv secs"
proof -
  obtain n where n: "86400 * days_to n \<le> secs" "secs < 86400 * days_to (Suc n)"
    by (rule year_of_time[OF t(1)])
  define r where "r = secs - 86400 * days_to n"
  have r: "0 \<le> r" "r < 86400 * year_days (1970 + int n)"
    using n by (simp_all add: r_def days_to.simps)
  have "365 * int n \<le> days_to n" using days_to_growth[of 0 n] by simp
  then have nb: "int n < 6100" using n(1) t(2) unfolding kMaxTime_def by linarith
  obtain days s where rs: "r = 86400 * days + s" "0 \<le> days" "0 \<le> s" "s < 86400" "r sdiv 86400 = days"
    by (rule quotient[OF r(1), of 86400]) auto
  obtain h s2 where hs: "s = 3600 * h + s2" "0 \<le> h" "0 \<le> s2" "s2 < 3600" "s sdiv 3600 = h"
    by (rule quotient[OF rs(3), of 3600]) auto
  obtain mi se where ms: "s2 = 60 * mi + se" "0 \<le> mi" "0 \<le> se" "se < 60" "s2 sdiv 60 = mi"
    by (rule quotient[OF hs(3), of 60]) auto
  have hms: "s = 3600 * h + 60 * mi + se" "h < 24" "mi < 60" using rs hs ms by linarith+
  have "days * 86400 \<le> r" "r < year_days (1970 + int n) * 86400" using rs r(2) by simp_all
  then have "days * 86400 < year_days (1970 + int n) * 86400" by (rule order_le_less_trans)
  then have days: "0 \<le> days" "days < year_days (1970 + int n)" using rs(2) by simp_all
  then have "days < (if IsLeapYear (1970 + int n) then 366 else 365)" by (simp add: year_days_def)
  from CalculateMonth_ok[OF days(1) this] obtain m d
    where md: "CalculateMonthAndDaysFromPosix days (IsLeapYear (1970 + int n)) = Some (int m + 1, d)" "m < 12" "1 \<le> d"
      "kDaysInMonth (IsLeapYear (1970 + int n)) ! m + d = days + 1" "days < kDaysInMonth (IsLeapYear (1970 + int n)) ! Suc m"
    by blast
  define t0 where "t0 = \<lparr>tm_sec = se, tm_min = mi, tm_hour = h, tm_mday = d, tm_mon = int m, tm_year = 70 + int n,
    tm_wday = 0, tm_yday = days, tm_isdst = 0\<rparr>"
  have dt: "date_ok t0" "time_of_day_ok t0" "day_of_year t0 = days"
    using md hms hs(2) ms(2-4) by (auto simp: t0_def date_ok_def time_of_day_ok_def day_of_year_def IsTmYearLeap_eq)
  have "0 \<le> kDaysInMonth (IsLeapYear (1970 + int n)) ! m" "year_days (1970 + int n) \<le> 366"
    using month_table(1)[OF md(2)] year_days_bounds by blast+
  then have small: "to_int32 d = d" "to_int32 days = days" "to_int32 se = se" "to_int32 mi = mi" "to_int32 h = h"
    "to_int32 (int m) = int m" "to_int32 (70 + int n) = 70 + int n"
    using md(2-4) days hms(2,3) hs(2) ms(2-4) nb by (auto intro!: to_int32_id)
  have "year_days (1970 + int n) \<le> 366" by (rule year_days_bounds)
  then have u: "to_u64 secs = secs" "to_u64 r = r" using t r by (simp_all add: to_u64_id kMaxTime_def)
  have yr: "CalculateYearsFromPosix secs = Some (int n, r)"
    unfolding r_def by (rule CalculateYearsFromPosix_ok[OF t n])
  have parts: "r sdiv 86400 = days" "r - days * 86400 = s" "s sdiv 3600 = h" "(s - h * 3600) sdiv 60 = mi"
    "s - h * 3600 - mi * 60 = se"
    using rs hs ms by (simp_all add: mult.commute)
  have wd: "CalculateDayOfWeek t0 = Some ((days_to n + days + 4) mod 7)"
    using CalculateDayOfWeek_ok[OF dt(1)] dt(3) by (simp add: t0_def)
  have "to_int32 ((days_to n + days + 4) mod 7) = (days_to n + days + 4) mod 7"
  proof (rule to_int32_id)
    have "0 \<le> (days_to n + days + 4) mod 7" "(days_to n + days + 4) mod 7 < 7" by simp_all
    then show "- 2147483648 \<le> (days_to n + days + 4) mod 7" "(days_to n + days + 4) mod 7 < 2147483648" by linarith+
  qed
  then have "gmtime_r secs = Some (t0\<lparr>tm_wday := (days_to n + days + 4) mod 7\<rparr>)"
    using wd unfolding t0_def
    by (simp add: gmtime_r_def ConvertFromPosixToTm_def kUtcTimezone_def GetDSTOffset_def Let_def
        u yr kPosixToTmYearDiff_def small parts IsTmYearLeap_eq md(1))
  moreover have "tm_denotes (t0\<lparr>tm_wday := (days_to n + days + 4) mod 7\<rparr>) secs"
  proof -
    let ?t = "t0\<lparr>tm_wday := (days_to n + days + 4) mod 7\<rparr>"
    have "date_ok ?t" "time_of_day_ok ?t" "day_of_year ?t = days"
      using dt by (simp_all add: date_ok_def time_of_day_ok_def day_of_year_def)
    moreover have "secs = 86400 * days_to n + r" by (simp add: r_def)
    ultimately show ?thesis using rs(1) hms(1)
      by (simp add: tm_denotes_def seconds_of_def t0_def distrib_left)
  qed
  ultimately show thesis by (rule that)
qed

lemma month_table_mono: "m \<le> m' \<Longrightarrow> m' \<le> 12 \<Longrightarrow> kDaysInMonth leap ! m \<le> kDaysInMonth leap ! m'"
proof (induction rule: dec_induct)
  case (step k)
  then show ?case using month_table(2)[of k leap] by simp
qed simp

lemma month_unique:
  assumes "m < 12" "kDaysInMonth leap ! m \<le> d" "d < kDaysInMonth leap ! Suc m"
    "m' < 12" "kDaysInMonth leap ! m' \<le> d" "d < kDaysInMonth leap ! Suc m'"
  shows "m = m'"
proof (rule linorder_cases[of m m'])
  assume "m < m'"
  then have "kDaysInMonth leap ! Suc m \<le> kDaysInMonth leap ! m'" using assms(4) by (intro month_table_mono) auto
  then show ?thesis using assms by linarith
next
  assume "m' < m"
  then have "kDaysInMonth leap ! Suc m' \<le> kDaysInMonth leap ! m" using assms(1) by (intro month_table_mono) auto
  then show ?thesis using assms by linarith
qed simp

lemma radix_unique:
  fixes k :: int
  assumes "k * q + r = k * q' + r'" "0 \<le> r" "r < k" "0 \<le> r'" "r' < k"
  shows "q = q'" "r = r'"
proof -
  have "(k * q + r) div k = q" by (rule int_div_pos_eq[where r = r]) (use assms in auto)
  moreover have "(k * q' + r') div k = q'" by (rule int_div_pos_eq[where r = r']) (use assms in auto)
  ultimately show "q = q'" using assms(1) by simp
  then show "r = r'" using assms(1) by simp
qed

lemma seconds_of_inj:
  assumes t: "date_ok t" "time_of_day_ok t" and t': "date_ok t'" "time_of_day_ok t'"
    and eq: "seconds_of t = seconds_of t'"
  shows "tm_year t = tm_year t' \<and> tm_mon t = tm_mon t' \<and> tm_mday t = tm_mday t' \<and>
    tm_hour t = tm_hour t' \<and> tm_min t = tm_min t' \<and> tm_sec t = tm_sec t'"
proof -
  have "nat (tm_year t - 70) = nat (tm_year t' - 70)"
    using seconds_of_year[OF t] seconds_of_year[OF t'] unfolding eq by (intro year_unique)
  moreover have "70 \<le> tm_year t" "70 \<le> tm_year t'" using t(1) t'(1) by (simp_all add: date_ok_def)
  ultimately have y: "tm_year t = tm_year t'" by simp
  let ?s = "\<lambda>t. 60 * (60 * tm_hour t + tm_min t) + tm_sec t"
  have s: "0 \<le> ?s v \<and> ?s v < 86400" if "time_of_day_ok v" for v
    using that by (auto simp: time_of_day_ok_def)
  have "86400 * day_of_year t + ?s t = 86400 * day_of_year t' + ?s t'"
    using eq by (simp add: seconds_of_def y)
  then have doy: "day_of_year t = day_of_year t'" and "?s t = ?s t'"
    using radix_unique[of 86400 "day_of_year t" "?s t" "day_of_year t'" "?s t'"] s[OF t(2)] s[OF t'(2)] by blast+
  then have hm: "60 * tm_hour t + tm_min t = 60 * tm_hour t' + tm_min t'" and sec: "tm_sec t = tm_sec t'"
    using radix_unique[of 60 "60 * tm_hour t + tm_min t" "tm_sec t" "60 * tm_hour t' + tm_min t'" "tm_sec t'"]
      t(2) t'(2) by (auto simp: time_of_day_ok_def)
  have hour: "tm_hour t = tm_hour t'" "tm_min t = tm_min t'"
    using radix_unique[OF hm] t(2) t'(2) by (auto simp: time_of_day_ok_def)
  let ?l = "IsTmYearLeap (tm_year t')"
  have "nat (tm_mon t) = nat (tm_mon t')"
  proof (rule month_unique[where leap = ?l and d = "day_of_year t'"])
    show "nat (tm_mon t) < 12" "nat (tm_mon t') < 12" using t(1) t'(1) by (auto simp: date_ok_def)
    show "kDaysInMonth ?l ! nat (tm_mon t') \<le> day_of_year t'" using t'(1) by (simp add: date_ok_def day_of_year_def)
    show "kDaysInMonth ?l ! nat (tm_mon t) \<le> day_of_year t'"
      unfolding doy[symmetric] using t(1) by (simp add: date_ok_def day_of_year_def y)
    show "day_of_year t' < kDaysInMonth ?l ! Suc (nat (tm_mon t'))" by (rule day_of_year_bounds(2)[OF t'(1)])
    show "day_of_year t' < kDaysInMonth ?l ! Suc (nat (tm_mon t))"
      using day_of_year_bounds(2)[OF t(1)] unfolding doy y .
  qed
  moreover have "0 \<le> tm_mon t" "0 \<le> tm_mon t'" using t(1) t'(1) by (simp_all add: date_ok_def)
  ultimately have "tm_mon t = tm_mon t'" by simp
  moreover from this have "tm_mday t = tm_mday t'" using doy by (simp add: day_of_year_def y)
  ultimately show ?thesis using y hour sec by simp
qed

lemma tm_denotes_unique:
  assumes "tm_denotes t s" "tm_denotes t' s"
  shows "t = t'"
proof -
  have t: "date_ok t" "time_of_day_ok t" and t': "date_ok t'" "time_of_day_ok t'" and eq: "seconds_of t = seconds_of t'"
    using assms by (auto simp: tm_denotes_def)
  note f = seconds_of_inj[OF t t' eq]
  then have "day_of_year t = day_of_year t'" by (simp add: day_of_year_def)
  then show ?thesis using f assms by (intro tm.equality) (simp_all add: tm_denotes_def)
qed

section \<open>ISO weeks\<close>

text \<open>The weekday of the first of January, Monday being 0.\<close>

definition jan1 :: "nat \<Rightarrow> int" where
  "jan1 n = (days_to n + 3) mod 7"

lemma jan1_bounds: "0 \<le> jan1 n" "jan1 n < 7"
  by (simp_all add: jan1_def)

lemma jan1_Suc: "jan1 (Suc n) = (jan1 n + year_days (1970 + int n)) mod 7"
proof -
  have "jan1 (Suc n) = (days_to n + 3 + year_days (1970 + int n)) mod 7"
    by (simp add: jan1_def days_to.simps add.assoc add.commute add.left_commute)
  then show ?thesis by (simp only: jan1_def mod_add_left_eq)
qed

lemma normalized_jan1:
  assumes "tm_year t = 70 + int n"
  shows "8 - (if GetWeekdayJan1 (SumUpDays_tm t) = 0 then 7 else GetWeekdayJan1 (SumUpDays_tm t)) = 7 - jan1 n"
proof -
  have y: "tm_year t + 1900 = 1970 + int n" using assms by simp
  have w: "GetWeekdayJan1 (SumUpDays_tm t) = (days_to n + 719163) mod 7"
    using days_to_nonneg[of n] unfolding GetWeekdayJan1_def SumUpDays_tm_def y sum_of_year
    by (subst smod_nonneg) (simp_all add: add.commute)
  have "days_to n + 719163 = days_to n + 3 + 1 + 102737 * 7" by simp
  then have "(days_to n + 719163) mod 7 = (days_to n + 3 + 1) mod 7" by (simp only: mod_mult_self1)
  also have "\<dots> = (jan1 n + 1) mod 7" by (simp only: jan1_def mod_add_left_eq)
  finally have e: "GetWeekdayJan1 (SumUpDays_tm t) = (jan1 n + 1) mod 7" using w by simp
  show ?thesis
  proof (cases "jan1 n = 6")
    case True
    then show ?thesis unfolding e by simp
  next
    case False
    then have "(jan1 n + 1) mod 7 = jan1 n + 1" using jan1_bounds[of n] by (intro mod_pos_pos_trivial) auto
    then show ?thesis using jan1_bounds(1)[of n] unfolding e by simp
  qed
qed

text \<open>The two functions in terms of the year's first weekday \<open>q\<close>, its length \<open>L\<close> and the day \<open>d\<close>.\<close>

definition iso_this_year :: "int \<Rightarrow> int \<Rightarrow> int \<Rightarrow> bool" where
  "iso_this_year q L d \<longleftrightarrow> (if d \<le> 7 - q then 4 \<le> 7 - q
     else \<not> ((L - (7 - q)) mod 7 < 4 \<and> (L - (7 - q)) mod 7 > 0 \<and> d > L - (L - (7 - q)) mod 7))"

lemma IsoWeek_step:
  assumes y: "tm_year t = 70 + int n" and d: "SumYearDays t = Some d"
    and L: "L = year_days (1970 + int n)" and q: "q = jan1 n"
  shows "CalculateIsoBasedWeek_rec (Suc k) t = (if iso_this_year q L d
      then Some (if d \<le> 7 - q then 1 else 1 + (if 4 \<le> 7 - q then 1 else 0) + (d - (7 - q) - 1) sdiv 7)
      else if d \<le> 7 - q then CalculateIsoBasedWeek_rec k (tm_date (tm_year t - 1) 11 31)
      else CalculateIsoBasedWeek_rec k (tm_date (tm_year t + 1) 0 1))"
    and "CalculateIsoBasedYear t = Some (if iso_this_year q L d then 1970 + int n
      else if d \<le> 7 - q then 1969 + int n else 1971 + int n)"
proof -
  have L': "(if IsTmYearLeap (tm_year t) then 366 else 365) = L"
    by (simp add: L year_days_def y IsTmYearLeap_eq)
  have "0 \<le> L - (7 - q)" using L q year_days_bounds(1)[of "1970 + int n"] jan1_bounds(1)[of n] by simp
  then have sm: "(L - (7 - q)) smod 7 = (L - (7 - q)) mod 7" by (simp add: smod_nonneg)
  note fw = normalized_jan1[OF y, folded q]
  show "CalculateIsoBasedWeek_rec (Suc k) t = (if iso_this_year q L d
      then Some (if d \<le> 7 - q then 1 else 1 + (if 4 \<le> 7 - q then 1 else 0) + (d - (7 - q) - 1) sdiv 7)
      else if d \<le> 7 - q then CalculateIsoBasedWeek_rec k (tm_date (tm_year t - 1) 11 31)
      else CalculateIsoBasedWeek_rec k (tm_date (tm_year t + 1) 0 1))"
    by (simp only: CalculateIsoBasedWeek_rec.simps Let_def fw L' sm d iso_this_year_def bind.bind_lunit)
      (simp add: iso_this_year_def)
  show "CalculateIsoBasedYear t = Some (if iso_this_year q L d then 1970 + int n
      else if d \<le> 7 - q then 1969 + int n else 1971 + int n)"
    by (simp only: CalculateIsoBasedYear_def Let_def fw L' sm d bind.bind_lunit)
      (simp add: iso_this_year_def y)
qed

text \<open>
  Day \<open>d\<close> of a year of length \<open>L\<close> that starts on weekday \<open>q\<close> lies in week \<open>w\<close> counted by Mondays, on
  weekday \<open>x\<close>; the year has \<open>W\<close> such weeks and \<open>e\<close> more days. \<open>thursday q d\<close> is the day of the year
  of that week's Thursday.
\<close>

definition thursday :: "int \<Rightarrow> int \<Rightarrow> int" where
  "thursday q d = d - 1 - (q + d - 1) mod 7 + 3"

definition week_of :: "int \<Rightarrow> int \<Rightarrow> int \<Rightarrow> int \<Rightarrow> int \<Rightarrow> int \<Rightarrow> int \<Rightarrow> bool" where
  "week_of q L d w x W e \<longleftrightarrow> q + d - 1 = 7 * w + x \<and> 0 \<le> x \<and> x < 7 \<and> L + q = 7 * W + e \<and> 0 \<le> e \<and> e < 7"

lemma week_ofI:
  obtains w x W e where "week_of q L d w x W e"
proof -
  have "week_of q L d ((q + d - 1) div 7) ((q + d - 1) mod 7) ((L + q) div 7) ((L + q) mod 7)"
    by (simp add: week_of_def)
  then show thesis by (rule that)
qed

lemma week_of_iso:
  assumes "week_of q L d w x W e"
  shows "thursday q d = 7 * w + 3 - q" "d \<le> 7 - q \<longleftrightarrow> w \<le> 0" "(d - (7 - q) - 1) div 7 = w - 1"
    "iso_this_year q L d \<longleftrightarrow> (if w \<le> 0 then q \<le> 3 else \<not> (e < 4 \<and> e > 0 \<and> W \<le> w))"
proof -
  have w: "q + d - 1 = 7 * w + x" "0 \<le> x" "x < 7" "L + q = 7 * W + e" "0 \<le> e" "e < 7"
    using assms by (simp_all add: week_of_def)
  have "(q + d - 1) mod 7 = x" using w(2,3) unfolding w(1) by simp
  then show "thursday q d = 7 * w + 3 - q" using w(1) by (simp add: thursday_def)
  show dw: "d \<le> 7 - q \<longleftrightarrow> w \<le> 0" using w(1-3) by (intro iffI; linarith)
  have "d - (7 - q) - 1 = 7 * (w - 1) + x" using w(1) by simp
  then show "(d - (7 - q) - 1) div 7 = w - 1" by (rule int_div_pos_eq) (use w in auto)
  have "L - (7 - q) = 7 * (W - 1) + e" using w(4) by simp
  then have e: "(L - (7 - q)) mod 7 = e" by (rule int_mod_pos_eq) (use w in auto)
  have "d > L - e \<longleftrightarrow> W \<le> w" using w by (intro iffI; linarith)
  then show "iso_this_year q L d \<longleftrightarrow> (if w \<le> 0 then q \<le> 3 else \<not> (e < 4 \<and> e > 0 \<and> W \<le> w))"
    unfolding iso_this_year_def e dw by auto
qed

lemma iso_this:
  assumes q: "0 \<le> q" "q < 7" and L: "365 \<le> L" and d: "1 \<le> d" "d \<le> L" and ty: "iso_this_year q L d"
  shows "0 \<le> thursday q d \<and> thursday q d < L"
    "(if d \<le> 7 - q then 1 else 1 + (if 4 \<le> 7 - q then 1 else 0) + (d - (7 - q) - 1) div 7) = thursday q d div 7 + 1"
proof -
  obtain w x W e where wk: "week_of q L d w x W e" by (rule week_ofI)
  note iso = week_of_iso[OF wk]
  have w: "q + d - 1 = 7 * w + x" "0 \<le> x" "x < 7" "L + q = 7 * W + e" "0 \<le> e" "e < 7"
    using wk by (simp_all add: week_of_def)
  have "0 \<le> w" using w d q by linarith
  show "0 \<le> thursday q d \<and> thursday q d < L"
  proof (cases "w \<le> 0")
    case True
    then show ?thesis using \<open>0 \<le> w\<close> ty q L unfolding iso by auto
  next
    case False
    then have "\<not> (e < 4 \<and> e > 0 \<and> W \<le> w)" using ty unfolding iso by simp
    moreover have "w \<le> W" "e = 0 \<Longrightarrow> w < W" using w d by linarith+
    ultimately consider "w < W" | "w = W" "4 \<le> e" using w(5) by linarith
    then have "7 * w + 3 < 7 * W + e" using w(5) by cases linarith+
    then show ?thesis unfolding iso(1) using False w(4) q by (intro conjI; linarith)
  qed
  have "(7 * w + 3 - q) div 7 = w + (if q \<le> 3 then 0 else - 1)"
    by (rule int_div_pos_eq[where r = "if q \<le> 3 then 3 - q else 10 - q"]) (use q in auto)
  then show "(if d \<le> 7 - q then 1 else 1 + (if 4 \<le> 7 - q then 1 else 0) + (d - (7 - q) - 1) div 7) = thursday q d div 7 + 1"
    using \<open>0 \<le> w\<close> ty unfolding iso by auto
qed

text \<open>A week of the previous year: its Thursday and number are those of 31 December.\<close>

lemma iso_before:
  assumes q: "0 \<le> q" "q < 7" and d: "1 \<le> d" "d \<le> 7 - q" and nth: "\<not> iso_this_year q L d"
    and p: "0 \<le> p" "p < 7" "q = (p + M) mod 7" and M: "365 \<le> M"
  shows "thursday q d < 0" "thursday p M = thursday q d + M" "iso_this_year p M M"
proof -
  obtain w x W e where wk: "week_of q L d w x W e" by (rule week_ofI)
  have "0 \<le> w" using wk d q unfolding week_of_def by linarith
  then have w: "w = 0" and q3: "3 < q" using week_of_iso[OF wk] d(2) nth by auto
  have th: "thursday q d = 3 - q" using week_of_iso(1)[OF wk] w by simp
  then show "thursday q d < 0" using q3 by simp
  obtain w' x' W' e' where wk': "week_of p M M w' x' W' e'" by (rule week_ofI)
  have w': "p + M - 1 = 7 * w' + x'" "0 \<le> x'" "x' < 7" "M + p = 7 * W' + e'" "0 \<le> e'" "e' < 7"
    using wk' by (simp_all add: week_of_def)
  have "(p + M) mod 7 = e'" by (rule int_mod_pos_eq[where q = W']) (use w' in auto)
  then have e': "e' = q" using p(3) by simp
  have "w' = W'" using w' e' q3 by linarith
  then show "thursday p M = thursday q d + M" using week_of_iso(1)[OF wk'] th w'(4) e' by linarith
  have "0 < w'" using w'(1-3) M p(1) by linarith
  then show "iso_this_year p M M" using week_of_iso(4)[OF wk'] e' q3 by simp
qed

text \<open>A week of the next year: its Thursday and number are those of 1 January.\<close>

lemma iso_after:
  assumes q: "0 \<le> q" "q < 7" and d: "\<not> d \<le> 7 - q" "d \<le> L" and nth: "\<not> iso_this_year q L d" and p: "p = (q + L) mod 7"
  shows "L \<le> thursday q d" "thursday p 1 = thursday q d - L" "iso_this_year p M 1" "1 \<le> 7 - p"
proof -
  obtain w x W e where wk: "week_of q L d w x W e" by (rule week_ofI)
  have w: "q + d - 1 = 7 * w + x" "0 \<le> x" "x < 7" "L + q = 7 * W + e" "0 \<le> e" "e < 7"
    using wk by (simp_all add: week_of_def)
  have e: "e < 4" "e > 0" "W \<le> w" using week_of_iso[OF wk] d(1) nth by auto
  have "w = W" using w d e by linarith
  have "(q + L) mod 7 = e" by (rule int_mod_pos_eq[where q = W]) (use w in auto)
  then have pe: "p = e" using p by simp
  show "L \<le> thursday q d" using week_of_iso(1)[OF wk] \<open>w = W\<close> w(4) e by linarith
  have wp: "week_of p M 1 0 p ((M + p) div 7) ((M + p) mod 7)" using pe w by (simp add: week_of_def)
  show "thursday p 1 = thursday q d - L"
    using week_of_iso(1)[OF wp] week_of_iso(1)[OF wk] \<open>w = W\<close> w(4) pe by linarith
  show "iso_this_year p M 1" "1 \<le> 7 - p" using week_of_iso(2,4)[OF wp] e pe by simp_all
qed

lemma SumYearDays_dec31:
  assumes "tm_year (tm_date y 11 31) = 70 + int p"
  shows "SumYearDays (tm_date y 11 31) = Some (year_days (1970 + int p))"
proof -
  have "IsTmYearLeap y = IsLeapYear (1970 + int p)" using assms IsTmYearLeap_eq[of p] by (simp add: tm_date_def)
  then show ?thesis
    by (simp add: SumYearDays_def days_in_month_def tm_date_def year_days_def kDaysInMonth_def)
qed

lemma SumYearDays_jan1: "SumYearDays (tm_date y 0 1) = Some 1"
  by (simp add: SumYearDays_def days_in_month_def tm_date_def kDaysInMonth_def)

section \<open>Properties\<close>

text \<open>
  C24: for every time from 1970 to the year 7990, \<open>gmtime_r\<close> returns exactly the broken-down time
  that denotes it: the year found by the estimate and correction loop is the right one in every
  leap-year case, the loop's assertion holds, and month, day, day of year and day of week fit.
\<close>

theorem gmtime_r_correct:
  assumes "0 \<le> secs" "secs < kMaxTime"
  shows "gmtime_r secs = Some t \<longleftrightarrow> tm_denotes t secs"
proof -
  obtain t' where "gmtime_r secs = Some t'" "tm_denotes t' secs" by (rule from_posix_ok[OF assms])
  then show ?thesis using tm_denotes_unique[of t secs t'] by auto
qed



text \<open>
  C28: a negative month is not taken from the previous year: \<open>mktime\<close> reads month -1 as December of
  the same year, a year too late.
\<close>

theorem ConvertDateTimeToPosix_negative_month:
  assumes "- 12 < k" "k < 0"
  shows "ConvertDateTimeToPosix (t\<lparr>tm_mon := k\<rparr>) tz = ConvertDateTimeToPosix (t\<lparr>tm_mon := k + 12\<rparr>) tz"
proof -
  have "k smod 12 = k" "k sdiv 12 = 0"
    using assms by (auto simp: signed_modulo_int_def signed_divide_int_def sgn_if)
  moreover have "(k + 12) smod 12 = k + 12" "(k + 12) sdiv 12 = 0"
    using assms by (simp_all add: smod_nonneg sdiv_nonneg del: mod_add_self2)
  ultimately show ?thesis using assms by (simp add: ConvertDateTimeToPosix_def)
qed

text \<open>
  C27: the ISO 8601 week number and year of a date are those of the Thursday of its Monday-based
  week: the year in which that Thursday lies, and one more than the number of whole weeks before
  it. The recursion to the previous or the next year ends after one step.
\<close>

theorem CalculateIso_correct:
  assumes "date_ok t" "71 \<le> tm_year t"
  defines "day \<equiv> days_to (nat (tm_year t - 70)) + day_of_year t"
  shows "\<exists>y. days_to y \<le> day - (day + 3) mod 7 + 3 \<and> day - (day + 3) mod 7 + 3 < days_to (Suc y) \<and>
     CalculateIsoBasedYear t = Some (1970 + int y) \<and>
     CalculateIsoBasedWeek t = Some ((day - (day + 3) mod 7 + 3 - days_to y) div 7 + 1)"
proof -
  obtain p where "nat (tm_year t - 70) = Suc p" using assms(2) by (cases "nat (tm_year t - 70)") auto
  define n where "n = Suc p"
  have n: "nat (tm_year t - 70) = n" using \<open>nat (tm_year t - 70) = Suc p\<close> by (simp add: n_def)
  have y: "tm_year t = 70 + int n" using n assms(2) by simp
  define L where "L = year_days (1970 + int n)"
  define q where "q = jan1 n"
  define d where "d = day_of_year t + 1"
  have d: "1 \<le> d" "d \<le> L"
    using day_of_year_bounds(1,3)[OF assms(1)] unfolding d_def L_def y by (simp_all add: add.commute)
  have L: "365 \<le> L" unfolding L_def by (rule year_days_bounds)
  have q: "0 \<le> q" "q < 7" unfolding q_def by (rule jan1_bounds)+
  have s: "SumYearDays t = Some d"
    using assms(1) by (simp add: SumYearDays_def days_in_month_def day_of_year_def date_ok_def d_def)
  note step = IsoWeek_step[OF y s L_def q_def]
  have th: "day - (day + 3) mod 7 + 3 = days_to n + thursday q d"
  proof -
    have "(day + 3) mod 7 = (days_to n + 3 + (d - 1)) mod 7" by (simp add: day_def n d_def algebra_simps)
    also have "\<dots> = (q + (d - 1)) mod 7" unfolding q_def jan1_def by (rule mod_add_left_eq[symmetric])
    finally show ?thesis by (simp add: thursday_def day_def n d_def add_diff_eq)
  qed
  have two: "CalculateIsoBasedWeek t = CalculateIsoBasedWeek_rec (Suc (Suc 0)) t"
    by (simp add: CalculateIsoBasedWeek_def numeral_2_eq_2)
  show ?thesis
  proof (cases "iso_this_year q L d")
    case True
    have "CalculateIsoBasedWeek t = Some (thursday q d div 7 + 1)"
      unfolding two iso_this(2)[OF q L d True, symmetric] step(1) using True by (simp add: sdiv_nonneg)
    then show ?thesis using iso_this(1)[OF q L d True] step(2) True unfolding th
      by (intro exI[of _ n]) (simp add: days_to.simps L_def)
  next
    case other: False
    show ?thesis
    proof (cases "d \<le> 7 - q")
      case True
      let ?t = "tm_date (tm_year t - 1) 11 31" and ?M = "year_days (1970 + int p)"
      have yp: "tm_year ?t = 70 + int p" using y by (simp add: tm_date_def n_def)
      have sp: "SumYearDays ?t = Some ?M" by (rule SumYearDays_dec31[OF yp])
      have M: "365 \<le> ?M" "jan1 n = (jan1 p + ?M) mod 7" by (simp_all add: year_days_bounds n_def jan1_Suc)
      note b = iso_before[OF q d(1) True other jan1_bounds M(2)[folded q_def] M(1)]
      have le: "1 \<le> ?M" using M(1) by simp
      have "\<not> ?M \<le> 7 - jan1 p" using M(1) jan1_bounds(1)[of p] by simp
      then have "CalculateIsoBasedWeek_rec (Suc 0) ?t = Some (thursday (jan1 p) ?M div 7 + 1)"
        unfolding iso_this(2)[OF jan1_bounds M(1) le order_refl b(3), symmetric] IsoWeek_step(1)[OF yp sp refl refl]
        using b(3) by (simp add: sdiv_nonneg)
      then have "CalculateIsoBasedWeek t = Some ((thursday q d + ?M) div 7 + 1)"
        unfolding two step(1) b(2)[symmetric] using other True by simp
      moreover have "0 \<le> thursday q d + ?M"
        using iso_this(1)[OF jan1_bounds M(1) le order_refl b(3)] unfolding b(2) by simp
      ultimately show ?thesis using b(1) step(2) other True unfolding th
        by (intro exI[of _ p]) (simp add: days_to.simps n_def)
    next
      case False
      let ?t = "tm_date (tm_year t + 1) 0 1" and ?M = "year_days (1970 + int (Suc n))"
      have ys: "tm_year ?t = 70 + int (Suc n)" using y by (simp add: tm_date_def)
      have ss: "SumYearDays ?t = Some 1" by (rule SumYearDays_jan1)
      have j: "jan1 (Suc n) = (q + L) mod 7" by (simp add: jan1_Suc q_def L_def)
      note a = iso_after[OF q False d(2) other j]
      have M: "365 \<le> ?M" by (rule year_days_bounds)
      then have le: "1 \<le> ?M" by simp
      have "CalculateIsoBasedWeek_rec (Suc 0) ?t = Some (thursday (jan1 (Suc n)) 1 div 7 + 1)"
        unfolding iso_this(2)[OF jan1_bounds M order_refl le a(3), symmetric] IsoWeek_step(1)[OF ys ss refl refl]
        using a(3,4) by simp
      then have "CalculateIsoBasedWeek t = Some ((thursday q d - L) div 7 + 1)"
        unfolding two step(1) a(2)[symmetric] using other False by simp
      moreover have "thursday q d - L < ?M"
        using iso_this(1)[OF jan1_bounds M order_refl le a(3)] unfolding a(2) by simp
      ultimately show ?thesis using a(1) step(2) other False unfolding th
        by (intro exI[of _ "Suc n"]) (simp add: days_to.simps L_def algebra_simps)
    qed
  qed
qed

text \<open>
  \<open>gmtime_r\<close> fails its assertion on the first second of the year 9999, although \<open>ValidateTm\<close>
  accepts the years up to 11899: the correction loop allows only five iterations.
\<close>

theorem gmtime_r_far_future: "gmtime_r 253370764800 = None"
  by code_simp

section \<open>Witnesses\<close>

text \<open>29 February 2000, 12:34:56, a Tuesday.\<close>

definition leap_day :: tm where
  "leap_day = \<lparr>tm_sec = 56, tm_min = 34, tm_hour = 12, tm_mday = 29, tm_mon = 1, tm_year = 100,
     tm_wday = 2, tm_yday = 59, tm_isdst = 0\<rparr>"

lemma leap_day_ok:
  "date_ok leap_day" "time_of_day_ok leap_day" "day_of_year leap_day = 59" "seconds_of leap_day = 951827696"
proof -
  have leap: "IsTmYearLeap 100" by code_simp
  then show "date_ok leap_day" "time_of_day_ok leap_day" "day_of_year leap_day = 59"
    by (simp_all add: leap_day_def date_ok_def time_of_day_ok_def day_of_year_def kDaysInMonth_def)
  then show "seconds_of leap_day = 951827696"
    unfolding seconds_of_def by (simp add: leap_day_def days_to_30)
qed

theorem gmtime_r_correct_witness: "gmtime_r 951827696 = Some leap_day \<and> tm_denotes leap_day 951827696"
proof -
  have "tm_denotes leap_day 951827696"
    using leap_day_ok unfolding tm_denotes_def by (simp add: leap_day_def days_to_30)
  then show ?thesis using gmtime_r_correct[of 951827696 leap_day] by (simp add: kMaxTime_def)
qed



theorem CalculateIso_correct_witness:
  "CalculateIsoBasedYear leap_day = Some 2000 \<and> CalculateIsoBasedWeek leap_day = Some 9"
proof -
  have y: "71 \<le> tm_year leap_day" "nat (tm_year leap_day - 70) = 30" by (simp_all add: leap_day_def)
  have "(11016 + 3) mod 7 = (1 :: int)" by simp
  then obtain n where n: "days_to n \<le> 11018" "11018 < days_to (Suc n)"
    "CalculateIsoBasedYear leap_day = Some (1970 + int n)"
    "CalculateIsoBasedWeek leap_day = Some ((11018 - days_to n) div 7 + 1)"
    using CalculateIso_correct[OF leap_day_ok(1) y(1)] unfolding y(2) leap_day_ok(3) days_to_30 by auto
  have "year_days 2000 = 366" by (simp add: year_days_def IsLeapYear_mod)
  then have d31: "days_to 31 = 11323" using days_to.simps(2)[of 30] days_to_30 by simp
  have "n = 30" using n(1,2) by (intro year_unique[where t = "86400 * 11018"]) (simp_all add: d31 days_to_30)
  then show ?thesis using n(3,4) by (simp add: days_to_30)
qed

theorem ConvertDateTimeToPosix_negative_month_witness:
  "ConvertDateTimeToPosix (leap_day\<lparr>tm_mon := - 1\<rparr>) kUtcTimezone =
   ConvertDateTimeToPosix (leap_day\<lparr>tm_mon := 11\<rparr>) kUtcTimezone"
  using ConvertDateTimeToPosix_negative_month[of "- 1" leap_day kUtcTimezone] by simp

end
