(* ===== verification/Libc_String.thy ===== *)
theory Libc_String
  imports Kernel_Prelude
begin

text \<open>
  The byte and string functions of the C library: \<open>libs/libc/src/string/memory.cpp\<close> and
  \<open>string.cpp\<close>, over a memory of bytes with natural number addresses; address 0 is the null pointer.

  A loop that walks to a terminating zero byte may run forever on a memory without one. Such loops
  are \<open>partial_function (option)\<close>: \<open>None\<close> is a loop that does not end. The counted loops are
  recursions on the bytes left. A \<open>char\<close> is signed, so that its value as an \<open>int\<close> is \<open>sint\<close> of the byte;
  where the code casts to \<open>unsigned char\<close> it is \<open>uint\<close>. A \<open>size_t\<close> is a natural number below 2^64,
  and \<open>n - 1\<close> in \<open>strncmp\<close> wraps.
\<close>

type_synonym memory = "nat \<Rightarrow> u8"

section \<open>memory.cpp\<close>

text \<open>\<open>n\<close> bytes are left; \<open>i\<close> counts up.\<close>

fun copy_up :: "memory \<Rightarrow> nat \<Rightarrow> nat \<Rightarrow> nat \<Rightarrow> nat \<Rightarrow> memory" where
  "copy_up m d s i 0 = m"
| "copy_up m d s i (Suc n) = copy_up (m(d + i := m (s + i))) d s (Suc i) n"

fun copy_down :: "memory \<Rightarrow> nat \<Rightarrow> nat \<Rightarrow> nat \<Rightarrow> memory" where
  "copy_down m d s 0 = m"
| "copy_down m d s (Suc n) = copy_down (m(d + n := m (s + n))) d s n"

definition memcpy :: "memory \<Rightarrow> nat \<Rightarrow> nat \<Rightarrow> nat \<Rightarrow> nat \<times> memory" where
  "memcpy m dest src n =
     (if dest = 0 \<or> src = 0 then (0, m) else (dest, copy_up m dest src 0 n))"

definition memmove :: "memory \<Rightarrow> nat \<Rightarrow> nat \<Rightarrow> nat \<Rightarrow> nat \<times> memory" where
  "memmove m dest src n =
     (if dest = 0 \<or> src = 0 then (0, m)
      else if dest > src then (dest, copy_down m dest src n)
      else (dest, copy_up m dest src 0 n))"

fun memset_loop :: "memory \<Rightarrow> nat \<Rightarrow> u8 \<Rightarrow> nat \<Rightarrow> nat \<Rightarrow> memory" where
  "memset_loop m d uc i 0 = m"
| "memset_loop m d uc i (Suc n) = memset_loop (m(d + i := uc)) d uc (Suc i) n"

definition memset :: "memory \<Rightarrow> nat \<Rightarrow> int \<Rightarrow> nat \<Rightarrow> nat \<times> memory" where
  "memset m dest c n =
     (if dest = 0 then (0, m) else (dest, memset_loop m dest (of_int c) 0 n))"

fun memcmp_loop :: "memory \<Rightarrow> nat \<Rightarrow> nat \<Rightarrow> nat \<Rightarrow> nat \<Rightarrow> int" where
  "memcmp_loop m s1 s2 i 0 = 0"
| "memcmp_loop m s1 s2 i (Suc n) =
     (if m (s1 + i) < m (s2 + i) then - 1
      else if m (s1 + i) > m (s2 + i) then 1
      else memcmp_loop m s1 s2 (Suc i) n)"

definition memcmp :: "memory \<Rightarrow> nat \<Rightarrow> nat \<Rightarrow> nat \<Rightarrow> int" where
  "memcmp m s1 s2 n =
     (if s1 = 0 \<or> s2 = 0 then 0 else if n = 0 then 0 else memcmp_loop m s1 s2 0 n)"

section \<open>string.cpp\<close>

partial_function (option) strlen_from :: "memory \<Rightarrow> nat \<Rightarrow> nat option" where
  "strlen_from m s = (if m s = 0 then Some s else strlen_from m (Suc s))"

definition strlen :: "memory \<Rightarrow> nat \<Rightarrow> nat option" where
  "strlen m str = map_option (\<lambda>s. s - str) (strlen_from m str)"

fun strnlen_from :: "memory \<Rightarrow> nat \<Rightarrow> nat \<Rightarrow> nat" where
  "strnlen_from m s 0 = s"
| "strnlen_from m s (Suc n) = (if m s = 0 then s else strnlen_from m (Suc s) n)"

definition strnlen :: "memory \<Rightarrow> nat \<Rightarrow> nat \<Rightarrow> nat" where
  "strnlen m str n = strnlen_from m str n - str"

partial_function (option) strcpy_loop :: "memory \<Rightarrow> nat \<Rightarrow> nat \<Rightarrow> memory option" where
  "strcpy_loop m tmp src =
     (if m src = 0 then Some (m(tmp := m src)) else strcpy_loop (m(tmp := m src)) (Suc tmp) (Suc src))"

definition strcpy :: "memory \<Rightarrow> nat \<Rightarrow> nat \<Rightarrow> (nat \<times> memory) option" where
  "strcpy m dest src = map_option (\<lambda>m'. (dest, m')) (strcpy_loop m dest src)"

text \<open>
  The two loops of \<open>strncpy\<close>; \<open>n\<close> is \<open>n - i\<close>, the bytes left. The first ends by the count, or by
  having copied a zero byte, which advances \<open>tmp\<close> but not \<open>i\<close>.
\<close>

fun strncpy_copy :: "memory \<Rightarrow> nat \<Rightarrow> nat \<Rightarrow> nat \<Rightarrow> memory \<times> nat \<times> nat" where
  "strncpy_copy m tmp src 0 = (m, tmp, 0)"
| "strncpy_copy m tmp src (Suc n) =
     (let m' = m(tmp := m src) in
      if m src = 0 then (m', Suc tmp, Suc n) else strncpy_copy m' (Suc tmp) (Suc src) n)"

fun strncpy_pad :: "memory \<Rightarrow> nat \<Rightarrow> nat \<Rightarrow> memory" where
  "strncpy_pad m tmp 0 = m"
| "strncpy_pad m tmp (Suc n) = strncpy_pad (m(tmp := 0)) (Suc tmp) n"

definition strncpy :: "memory \<Rightarrow> nat \<Rightarrow> nat \<Rightarrow> nat \<Rightarrow> nat \<times> memory" where
  "strncpy m dest src n = (case strncpy_copy m dest src n of (m', tmp, left) \<Rightarrow> (dest, strncpy_pad m' tmp left))"

partial_function (option) strcmp_from :: "memory \<Rightarrow> nat \<Rightarrow> nat \<Rightarrow> nat \<Rightarrow> int option" where
  "strcmp_from m s1 s2 i =
     (if m (s1 + i) = m (s2 + i) \<and> m (s1 + i) \<noteq> 0 then strcmp_from m s1 s2 (Suc i)
      else Some (uint (m (s1 + i)) - uint (m (s2 + i))))"

definition strcmp :: "memory \<Rightarrow> nat \<Rightarrow> nat \<Rightarrow> int option" where
  "strcmp m str1 str2 = strcmp_from m str1 str2 0"

text \<open>\<open>lim\<close> is \<open>n - 1\<close> as the code computes it.\<close>

partial_function (option) strncmp_from :: "memory \<Rightarrow> nat \<Rightarrow> nat \<Rightarrow> u64 \<Rightarrow> nat \<Rightarrow> int option" where
  "strncmp_from m s1 s2 lim i =
     (if m (s1 + i) = m (s2 + i) \<and> m (s1 + i) \<noteq> 0 \<and> i < unat lim then strncmp_from m s1 s2 lim (Suc i)
      else Some (uint (m (s1 + i)) - uint (m (s2 + i))))"

definition strncmp :: "memory \<Rightarrow> nat \<Rightarrow> nat \<Rightarrow> u64 \<Rightarrow> int option" where
  "strncmp m str1 str2 n = strncmp_from m str1 str2 (n - 1) 0"

partial_function (option) strcat_loop :: "memory \<Rightarrow> nat \<Rightarrow> nat \<Rightarrow> nat \<Rightarrow> memory option" where
  "strcat_loop m tmp src i =
     (if m (src + i) \<noteq> 0 then strcat_loop (m(tmp + i := m (src + i))) tmp src (Suc i)
      else Some (m(tmp + i := 0)))"

definition strcat :: "memory \<Rightarrow> nat \<Rightarrow> nat \<Rightarrow> (nat \<times> memory) option" where
  "strcat m dest src = do {
     l \<leftarrow> strlen m dest;
     m' \<leftarrow> strcat_loop m (dest + l) src 0;
     Some (dest, m') }"

fun strncat_loop :: "memory \<Rightarrow> nat \<Rightarrow> nat \<Rightarrow> nat \<Rightarrow> nat \<Rightarrow> memory" where
  "strncat_loop m tmp src i 0 = m(tmp + i := 0)"
| "strncat_loop m tmp src i (Suc n) =
     (if m (src + i) \<noteq> 0 then strncat_loop (m(tmp + i := m (src + i))) tmp src (Suc i) n
      else m(tmp + i := 0))"

definition strncat :: "memory \<Rightarrow> nat \<Rightarrow> nat \<Rightarrow> nat \<Rightarrow> (nat \<times> memory) option" where
  "strncat m dest src n = do {
     l \<leftarrow> strlen m dest;
     Some (dest, strncat_loop m (dest + l) src 0 n) }"

text \<open>The result 0 is the null pointer.\<close>

partial_function (option) strchr :: "memory \<Rightarrow> nat \<Rightarrow> int \<Rightarrow> nat option" where
  "strchr m str c =
     (if m str \<noteq> 0 then (if sint (m str) = c then Some str else strchr m (Suc str) c)
      else if c = 0 then Some str else Some 0)"

partial_function (option) strrchr_from :: "memory \<Rightarrow> nat \<Rightarrow> int \<Rightarrow> nat \<Rightarrow> nat option" where
  "strrchr_from m str c found =
     (if m str \<noteq> 0 then strrchr_from m (Suc str) c (if sint (m str) = c then str else found)
      else if c = 0 then Some str else Some found)"

definition strrchr :: "memory \<Rightarrow> nat \<Rightarrow> int \<Rightarrow> nat option" where
  "strrchr m str c = strrchr_from m str c 0"

partial_function (option) strstr_from :: "memory \<Rightarrow> nat \<Rightarrow> nat \<Rightarrow> u64 \<Rightarrow> nat option" where
  "strstr_from m str1 str2 len =
     (if m str1 \<noteq> 0
      then do {
        r \<leftarrow> strncmp m str1 str2 len;
        if r = 0 then Some str1 else strstr_from m (Suc str1) str2 len }
      else Some 0)"

definition strstr :: "memory \<Rightarrow> nat \<Rightarrow> nat \<Rightarrow> nat option" where
  "strstr m str1 str2 = do {
     len \<leftarrow> strlen m str2;
     if len = 0 then Some str1 else strstr_from m str1 str2 (of_nat len) }"

definition charIgnoreCase :: "int \<Rightarrow> int" where
  "charIgnoreCase c = (if c \<ge> 65 \<and> c \<le> 90 then c + 32 else c)"

partial_function (option) strcasecmp :: "memory \<Rightarrow> nat \<Rightarrow> nat \<Rightarrow> int option" where
  "strcasecmp m s1 s2 =
     (if m s1 \<noteq> 0 \<and> m s2 \<noteq> 0
      then (if charIgnoreCase (sint (m s1)) \<noteq> charIgnoreCase (sint (m s2))
            then Some (charIgnoreCase (sint (m s1)) - charIgnoreCase (sint (m s2)))
            else strcasecmp m (Suc s1) (Suc s2))
      else Some (charIgnoreCase (sint (m s1)) - charIgnoreCase (sint (m s2))))"

fun strncasecmp :: "memory \<Rightarrow> nat \<Rightarrow> nat \<Rightarrow> nat \<Rightarrow> int" where
  "strncasecmp m s1 s2 0 = 0"
| "strncasecmp m s1 s2 (Suc n) =
     (if m s1 \<noteq> 0 \<and> m s2 \<noteq> 0
      then (if charIgnoreCase (sint (m s1)) \<noteq> charIgnoreCase (sint (m s2))
            then charIgnoreCase (sint (m s1)) - charIgnoreCase (sint (m s2))
            else strncasecmp m (Suc s1) (Suc s2) n)
      else charIgnoreCase (sint (m s1)) - charIgnoreCase (sint (m s2)))"

section \<open>Strings in memory\<close>

text \<open>\<open>str_at m a s\<close>: the zero-terminated string at address \<open>a\<close> has the bytes \<open>s\<close>.\<close>

fun str_at :: "memory \<Rightarrow> nat \<Rightarrow> u8 list \<Rightarrow> bool" where
  "str_at m a [] \<longleftrightarrow> m a = 0"
| "str_at m a (x # xs) \<longleftrightarrow> m a = x \<and> x \<noteq> 0 \<and> str_at m (Suc a) xs"

lemma str_at_nth: "str_at m a s \<Longrightarrow> i < length s \<Longrightarrow> m (a + i) = s ! i \<and> s ! i \<noteq> 0"
proof (induction s arbitrary: a i)
  case (Cons x xs)
  then show ?case by (cases i) fastforce+
qed simp

lemma str_at_end: "str_at m a s \<Longrightarrow> m (a + length s) = 0"
proof (induction s arbitrary: a)
  case (Cons x xs)
  then show ?case by fastforce
qed simp

lemma str_at_drop: "str_at m a s \<Longrightarrow> k \<le> length s \<Longrightarrow> str_at m (a + k) (drop k s)"
proof (induction s arbitrary: a k)
  case (Cons x xs)
  then show ?case by (cases k) fastforce+
qed simp

lemma strlen_ok:
  assumes "str_at m a s"
  shows "strlen m a = Some (length s)"
proof -
  have "strlen_from m a = Some (a + length s)" using assms
  proof (induction s arbitrary: a)
    case Nil
    then show ?case by (subst strlen_from.simps) simp
  next
    case (Cons x xs)
    then show ?case by (subst strlen_from.simps) simp
  qed
  then show ?thesis by (simp add: strlen_def)
qed

section \<open>Copying\<close>

lemma copy_up_at:
  assumes "d \<le> s"
  shows "copy_up m d s i n a = (if d + i \<le> a \<and> a < d + i + n then m (s + (a - d)) else m a)"
proof (induction n arbitrary: m i)
  case (Suc n)
  have "s + (a - d) \<noteq> d + i" if "d + Suc i \<le> a" using that assms by simp
  then show ?case unfolding copy_up.simps Suc.IH by (cases "a = d + i") auto
qed auto

lemma copy_down_at:
  assumes "s < d"
  shows "copy_down m d s n a = (if d \<le> a \<and> a < d + n then m (s + (a - d)) else m a)"
proof (induction n arbitrary: m)
  case (Suc n)
  have "s + (a - d) \<noteq> d + n" if "d \<le> a" "a < d + n" using that assms by simp
  then show ?case unfolding copy_down.simps Suc.IH by (cases "a = d + n") auto
qed auto

lemma str_at_outside: "d < s \<or> s + length xs < d \<Longrightarrow> str_at (m(d := v)) s xs = str_at m s xs"
  by (induction xs arbitrary: s) auto

lemma strncpy_copy_short:
  assumes "str_at m s xs" "length xs < n" "d + length xs < s \<or> s + length xs < d"
  shows "\<exists>m'. strncpy_copy m d s n = (m', d + length xs + 1, n - length xs)"
  using assms
proof (induction xs arbitrary: m d s n)
  case Nil
  then show ?case by (cases n) (auto simp: Let_def)
next
  case (Cons x xs)
  then obtain k where n: "n = Suc k" "length xs < k" by (cases n) auto
  have "str_at (m(d := m s)) (Suc s) xs" using Cons.prems by (subst str_at_outside) auto
  moreover have "Suc d + length xs < Suc s \<or> Suc s + length xs < Suc d" using Cons.prems(3) by auto
  ultimately obtain m' where "strncpy_copy (m(d := m s)) (Suc d) (Suc s) k = (m', Suc d + length xs + 1, k - length xs)"
    using Cons.IH[OF _ n(2)] by blast
  then show ?case using Cons.prems(1) n by (intro exI[of _ m']) (simp add: Let_def)
qed

lemma strncpy_pad_at: "strncpy_pad m d n a = (if d \<le> a \<and> a < d + n then 0 else m a)"
proof (induction n arbitrary: m d)
  case (Suc n)
  show ?case unfolding strncpy_pad.simps Suc.IH by auto
qed auto

section \<open>Comparing\<close>

text \<open>The difference that decides between two strings, the end of a string counting as a zero byte.\<close>

fun bytes_cmp :: "u8 list \<Rightarrow> u8 list \<Rightarrow> int" where
  "bytes_cmp [] [] = 0"
| "bytes_cmp [] (y # ys) = - uint y"
| "bytes_cmp (x # xs) [] = uint x"
| "bytes_cmp (x # xs) (y # ys) = (if x = y then bytes_cmp xs ys else uint x - uint y)"

lemma strcmp_ok:
  assumes "str_at m a s" "str_at m b t"
  shows "strcmp m a b = Some (bytes_cmp s t)"
proof -
  have "strcmp_from m a b i = Some (bytes_cmp s t)" if "str_at m (a + i) s" "str_at m (b + i) t" for i
    using that
  proof (induction s t arbitrary: i rule: bytes_cmp.induct)
    case (4 x xs y ys)
    then show ?case by (subst strcmp_from.simps) (auto simp: "4.IH"[of "Suc i"])
  qed (subst strcmp_from.simps; auto)+
  from this[of 0] assms show ?thesis by (simp add: strcmp_def)
qed

lemma uint_eq_byte: "uint (x :: u8) = uint y \<longleftrightarrow> x = y"
  by (simp only: word_uint_eq_iff)

lemma uint_pos_byte: "(x :: u8) \<noteq> 0 \<Longrightarrow> 0 < uint x"
  using uint_eq_byte[of x 0] by (simp add: order_less_le)

lemma bytes_cmp_order:
  assumes "0 \<notin> set s" "0 \<notin> set t"
  shows "bytes_cmp s t = 0 \<longleftrightarrow> s = t" "bytes_cmp s t < 0 \<longleftrightarrow> (s, t) \<in> lexord {(x, y). x < y}"
  using assms
  by (induction s t rule: bytes_cmp.induct)
    (auto simp: word_less_def uint_eq_byte dest: uint_pos_byte)

section \<open>Searching\<close>

lemma strncmp_prefix:
  assumes "str_at m a s" "str_at m b t" "t \<noteq> []" "length t < 2 ^ 64"
  shows "\<exists>r. strncmp m a b (of_nat (length t)) = Some r \<and> (r = 0 \<longleftrightarrow> take (length t) s = t)"
proof -
  have len: "unat (of_nat (length t) - 1 :: u64) = length t - 1"
  proof -
    have "unat (of_nat (length t) :: u64) = length t" using assms(4) by (rule unat_of_nat_u64)
    moreover have "0 < length t" using assms(3) by simp
    ultimately show ?thesis by (subst unat_sub) (simp_all add: word_le_nat_alt Suc_le_eq)
  qed
  have "\<exists>r. strncmp_from m a b (of_nat (length t) - 1) i = Some r \<and> (r = 0 \<longleftrightarrow> take (length t - i) (drop i s) = drop i t)"
    if "i < length t" "i \<le> length s" for i
    using that
  proof (induction "length t - i" arbitrary: i)
    case (Suc k)
    have t: "m (b + i) = t ! i" "t ! i \<noteq> 0" "drop i t = t ! i # drop (Suc i) t"
      using str_at_nth[OF assms(2) Suc.prems(1)] Cons_nth_drop_Suc[OF Suc.prems(1)] by auto
    have ti: "length t - i = Suc (length t - Suc i)" using Suc.prems(1) by simp
    show ?case
    proof (cases "i = length s")
      case True
      then have "m (a + i) = 0" using str_at_end[OF assms(1)] by simp
      then show ?thesis using t True by (subst strncmp_from.simps) (simp add: uint_0_iff)
    next
      case False
      then have i: "i < length s" using Suc.prems(2) by simp
      have s: "m (a + i) = s ! i" "s ! i \<noteq> 0" "drop i s = s ! i # drop (Suc i) s"
        using str_at_nth[OF assms(1) i] Cons_nth_drop_Suc[OF i] by auto
      show ?thesis
      proof (cases "s ! i = t ! i \<and> i < length t - 1")
        case True
        have "\<exists>r. strncmp_from m a b (of_nat (length t) - 1) (Suc i) = Some r \<and>
            (r = 0 \<longleftrightarrow> take (length t - Suc i) (drop (Suc i) s) = drop (Suc i) t)"
          using Suc.hyps(2) True i by (intro Suc.hyps(1)) auto
        then show ?thesis using True s t unfolding ti by (subst strncmp_from.simps) (simp add: len)
      next
        case stop: False
        have "drop (Suc i) t = []" if "s ! i = t ! i" using that stop Suc.prems(1) by simp
        then show ?thesis using stop s t unfolding ti
          by (subst strncmp_from.simps) (auto simp: len uint_eq_byte)
      qed
    qed
  qed simp
  from this[of 0] assms(3) show ?thesis by (simp add: strncmp_def)
qed

text \<open>\<open>occurs t s k\<close>: the string \<open>t\<close> occurs in \<open>s\<close> at position \<open>k\<close>.\<close>

definition occurs :: "u8 list \<Rightarrow> u8 list \<Rightarrow> nat \<Rightarrow> bool" where
  "occurs t s k \<longleftrightarrow> k \<le> length s \<and> take (length t) (drop k s) = t"

lemma strstr_from_ok:
  assumes "str_at m b t" "t \<noteq> []" "length t < 2 ^ 64"
  shows "str_at m a s \<Longrightarrow> 0 < a \<Longrightarrow> \<exists>r. strstr_from m a b (of_nat (length t)) = Some r \<and>
     (if r = 0 then \<forall>k. \<not> occurs t s k else \<exists>k. r = a + k \<and> occurs t s k \<and> (\<forall>j<k. \<not> occurs t s j))"
proof (induction s arbitrary: a)
  case Nil
  then show ?case using assms(2) by (subst strstr_from.simps) (auto simp: occurs_def)
next
  case (Cons x xs)
  obtain r0 where r0: "strncmp m a b (of_nat (length t)) = Some r0" "r0 = 0 \<longleftrightarrow> take (length t) (x # xs) = t"
    using strncmp_prefix[OF Cons.prems(1) assms] by blast
  obtain r where r: "strstr_from m (Suc a) b (of_nat (length t)) = Some r"
    "if r = 0 then \<forall>k. \<not> occurs t xs k else \<exists>k. r = Suc a + k \<and> occurs t xs k \<and> (\<forall>j<k. \<not> occurs t xs j)"
    using Cons.IH[of "Suc a"] Cons.prems by auto
  have occ: "occurs t (x # xs) (Suc k) = occurs t xs k" for k by (simp add: occurs_def)
  have occ0: "occurs t (x # xs) 0 \<longleftrightarrow> r0 = 0" using r0(2) by (simp add: occurs_def)
  have eq: "strstr_from m a b (of_nat (length t)) = Some (if r0 = 0 then a else r)"
    using Cons.prems r0(1) r(1) by (subst strstr_from.simps) simp
  show ?case
  proof (cases "r0 = 0")
    case True
    then show ?thesis using eq occ0 Cons.prems by auto
  next
    case False
    have none: "\<not> occurs t (x # xs) k" if "\<forall>k. \<not> occurs t xs k" for k
      using that occ occ0 False by (cases k) auto
    have first: "\<not> occurs t (x # xs) j" if "j < Suc k" "\<forall>j<k. \<not> occurs t xs j" for j k
      using that occ occ0 False by (cases j) auto
    show ?thesis
    proof (cases "r = 0")
      case True
      then show ?thesis using eq r(2) none False by auto
    next
      case r1: False
      then obtain k where k: "r = Suc a + k" "occurs t xs k" "\<forall>j<k. \<not> occurs t xs j" using r(2) by auto
      then show ?thesis using eq occ first[OF _ k(3)] False by (auto intro!: exI[of _ "Suc k"])
    qed
  qed
qed

section \<open>Properties\<close>

text \<open>
  C35: \<open>memmove\<close> copies correctly for every position of source and destination, overlapping or not:
  afterwards the destination holds the bytes the source had before, and every other byte is
  unchanged.
\<close>

theorem memmove_correct:
  assumes "dest \<noteq> 0" "src \<noteq> 0"
  shows "fst (memmove m dest src n) = dest \<and>
    snd (memmove m dest src n) a = (if dest \<le> a \<and> a < dest + n then m (src + (a - dest)) else m a)"
  using assms copy_up_at[of dest src m 0 n a] copy_down_at[of src dest m n a]
  by (auto simp: memmove_def)

text \<open>
  C36: \<open>strcmp\<close> returns on every pair of strings, zero exactly for equal strings and a negative
  number exactly when the first precedes the second in the lexicographic order of unsigned bytes.
\<close>

theorem strcmp_correct:
  assumes "str_at m a s" "str_at m b t"
  shows "\<exists>r. strcmp m a b = Some r \<and> (r = 0 \<longleftrightarrow> s = t) \<and> (r < 0 \<longleftrightarrow> (s, t) \<in> lexord {(x, y). x < y})"
proof -
  have nz: "0 \<notin> set u" if "str_at m c u" for c u using that by (induction u arbitrary: c) auto
  show ?thesis using strcmp_ok[OF assms] bytes_cmp_order[OF nz[OF assms(1)] nz[OF assms(2)]] by auto
qed

text \<open>
  C37: \<open>strstr\<close> returns on every pair of strings: the address of the first occurrence of the second
  string in the first, or the null pointer when there is none.
\<close>

theorem strstr_correct:
  assumes "str_at m a s" "str_at m b t" "0 < a" "length t < 2 ^ 64"
  shows "\<exists>r. strstr m a b = Some r \<and>
     (if r = 0 then \<forall>k. \<not> occurs t s k else \<exists>k. r = a + k \<and> occurs t s k \<and> (\<forall>j<k. \<not> occurs t s j))"
proof (cases "t = []")
  case True
  then show ?thesis using strlen_ok[OF assms(2)] assms(3) by (simp add: strstr_def occurs_def)
next
  case False
  then show ?thesis using strlen_ok[OF assms(2)] strstr_from_ok[OF assms(2) False assms(4,1,3)]
    by (simp add: strstr_def)
qed

text \<open>
  C38: \<open>strncpy\<close> writes one byte past its bound: for a source shorter than \<open>n\<close>, the byte at
  \<open>dest + n\<close> is overwritten with zero.
\<close>

theorem strncpy_overrun:
  assumes "str_at m src xs" "length xs < n" "dest + length xs < src \<or> src + length xs < dest"
  shows "snd (strncpy m dest src n) (dest + n) = 0"
proof -
  obtain m' where "strncpy_copy m dest src n = (m', dest + length xs + 1, n - length xs)"
    using strncpy_copy_short[OF assms] by blast
  then show ?thesis using assms(2) by (simp add: strncpy_def strncpy_pad_at)
qed

text \<open>
  \<open>strncmp\<close> with a count of zero compares whole strings (up to 2^64 - 1 bytes) instead of
  returning zero, because \<open>n - 1\<close> wraps.
\<close>

theorem strncmp_zero:
  assumes "m a \<noteq> m b"
  shows "\<exists>r. strncmp m a b 0 = Some r \<and> r \<noteq> 0"
  using assms by (subst strncmp_def, subst strncmp_from.simps) (simp add: uint_eq_byte)

section \<open>Witnesses\<close>

text \<open>The strings "aab" at address 16 and "ab" at address 32, and a byte 7 after a buffer at 64.\<close>

definition mem_example :: memory where
  "mem_example = (\<lambda>a. if a = 16 then 97 else if a = 17 then 97 else if a = 18 then 98
     else if a = 32 then 97 else if a = 33 then 98 else if a = 68 then 7 else 0)"

lemma mem_example_strings: "str_at mem_example 16 [97, 97, 98]" "str_at mem_example 32 [97, 98]"
  by (simp_all add: mem_example_def)

theorem memmove_correct_witness:
  "snd (memmove mem_example 17 16 2) 17 = 97 \<and> snd (memmove mem_example 17 16 2) 18 = 97"
  using memmove_correct[of 17 16 mem_example 2 17] memmove_correct[of 17 16 mem_example 2 18]
  by (simp add: mem_example_def)

theorem strcmp_correct_witness:
  "\<exists>r. strcmp mem_example 16 32 = Some r \<and> r < 0"
  using strcmp_correct[OF mem_example_strings] by auto

theorem strstr_correct_witness:
  "strstr mem_example 16 32 = Some 17"
proof -
  obtain r where r: "strstr mem_example 16 32 = Some r"
    "if r = 0 then \<forall>k. \<not> occurs [97, 98] [97, 97, 98] k
     else \<exists>k. r = 16 + k \<and> occurs [97, 98] [97, 97, 98] k \<and> (\<forall>j<k. \<not> occurs [97, 98] [97, 97, 98] j)"
    using strstr_correct[OF mem_example_strings] by auto
  have one: "occurs [97, 98] [97, 97, 98] 1" by (simp add: occurs_def)
  then obtain k where k: "r = 16 + k" "occurs [97, 98] [97, 97, 98] k" "\<forall>j<k. \<not> occurs [97, 98] [97, 97, 98] j"
    using r(2) by (auto split: if_splits)
  have "\<not> occurs [97, 98] [97, 97, 98] 0" by (simp add: occurs_def)
  then have "k = 1" using k(2,3) one by (metis less_one linorder_neqE_nat)
  then show ?thesis using r(1) k(1) by simp
qed

theorem strncpy_overrun_witness:
  "mem_example 68 = 7 \<and> snd (strncpy mem_example 64 16 4) 68 = 0"
  using strncpy_overrun[OF mem_example_strings(1), of 4 64] by (simp add: mem_example_def)

theorem strncmp_zero_witness:
  "\<exists>r. strncmp mem_example 18 32 0 = Some r \<and> r \<noteq> 0"
  by (rule strncmp_zero) (simp add: mem_example_def)

end
