(* ===== verification/Libc_Format.thy ===== *)
theory Libc_Format
  imports Libc_Time
begin

text \<open>
  Number formatting (\<open>libs/libcpp/include/internal/formats.hpp\<close>), \<open>atoi\<close>
  (\<open>libs/libc/src/stdlib/conv.cpp\<close>), \<open>strftime\<close> and \<open>asctime_s\<close> (\<open>libs/libc/src/time\<close>).

  A character buffer that is being filled is the list of the characters written so far. A format
  string is the list of its characters without the terminator: reading at its end yields the
  terminator, and reading beyond that is \<open>None\<close>.
\<close>

section \<open>Formatting of numbers\<close>

definition digit_char :: "u64 \<Rightarrow> char" where
  "digit_char d = char_of (48 + unat d)"

text \<open>The loop of \<open>ReverseString\<close> with its two indices.\<close>

function ReverseString_loop :: "'a list \<Rightarrow> nat \<Rightarrow> nat \<Rightarrow> 'a list" where
  "ReverseString_loop str i j =
     (if i < j then ReverseString_loop (str[i := str ! j, j := str ! i]) (i + 1) (j - 1) else str)"
  by auto
termination by (relation "measure (\<lambda>(_, i, j). j - i)") auto

declare ReverseString_loop.simps [simp del]

definition ReverseString :: "'a list \<Rightarrow> nat \<Rightarrow> 'a list" where
  "ReverseString str len = (if len = 0 then str else ReverseString_loop str 0 (len - 1))"

text \<open>The digits in the order the loops write them, the least significant first.\<close>

lemma div10_smaller: "num \<noteq> 0 \<Longrightarrow> unat (num div 10) < unat (num :: u64)"
  by (simp add: unat_div word_neq_0_conv[symmetric] unat_gt_0)

function digits_loop :: "u64 \<Rightarrow> char list" where
  "digits_loop num = (if num = 0 then [] else digit_char (num mod 10) # digits_loop (num div 10))"
  by auto
termination by (relation "measure unat") (auto intro: div10_smaller)

declare digits_loop.simps [simp del]

definition FormatUInt :: "u64 \<Rightarrow> char list" where
  "FormatUInt num = (if num = 0 then [digit_char 0]
     else let str = digits_loop num in ReverseString str (length str))"

fun digits_loop_len :: "u64 \<Rightarrow> nat \<Rightarrow> char list" where
  "digits_loop_len num 0 = []"
| "digits_loop_len num (Suc len) =
     (if num = 0 then [] else digit_char (num mod 10) # digits_loop_len (num div 10) len)"

definition FormatUIntWithoutNullTerm :: "u64 \<Rightarrow> nat \<Rightarrow> char list" where
  "FormatUIntWithoutNullTerm num len =
     (if len = 0 then [] else if num = 0 then [digit_char 0]
      else let str = digits_loop_len num len in ReverseString str (length str))"

section \<open>atoi\<close>

text \<open>The \<open>int\<close> arithmetic wraps at 32 bits.\<close>

fun atoi_digits :: "32 word \<Rightarrow> char list \<Rightarrow> 32 word" where
  "atoi_digits result [] = result"
| "atoi_digits result (c # str) =
     (if 48 \<le> (of_char c :: nat) \<and> (of_char c :: nat) \<le> 57
      then atoi_digits (result * 10 + of_nat (of_char c - 48)) str else result)"

fun atoi_skip :: "char list \<Rightarrow> char list" where
  "atoi_skip [] = []"
| "atoi_skip (c # str) = (if c = CHR '' '' \<or> c = CHR 0x09 \<or> c = CHR 0x0A \<or> c = CHR 0x0D then atoi_skip str else c # str)"

definition atoi :: "char list \<Rightarrow> 32 word" where
  "atoi str = (case atoi_skip str of
     [] \<Rightarrow> 0
   | c # rest \<Rightarrow>
       if c = CHR ''-'' then - 1 * atoi_digits 0 rest
       else if c = CHR ''+'' then atoi_digits 0 rest
       else atoi_digits 0 (c # rest))"

section \<open>StrfTimeWriter\<close>

text \<open>
  The characters written so far, the format from the read position on with its terminator, the
  size of the buffer and the time. \<open>GetTimezoneSysCall\<close> is the field \<open>sw_tz\<close>.
\<close>

record StrfTimeWriter =
  sw_buf :: "char list"
  sw_format :: "char list"
  sw_size :: nat
  sw_time :: tm
  sw_tz :: Timezone

abbreviation (input) NUL :: char where "NUL \<equiv> CHR 0x00"

definition WriteUint :: "int \<Rightarrow> StrfTimeWriter \<Rightarrow> StrfTimeWriter" where
  "WriteUint num w =
     w\<lparr>sw_buf := sw_buf w @ FormatUIntWithoutNullTerm (word_of_int num) (sw_size w - length (sw_buf w))\<rparr>"

definition WriteChar :: "char \<Rightarrow> StrfTimeWriter \<Rightarrow> StrfTimeWriter" where
  "WriteChar c w = (if length (sw_buf w) < sw_size w then w\<lparr>sw_buf := sw_buf w @ [c]\<rparr> else w)"

definition WriteZeroBoundaryCheck :: "StrfTimeWriter \<Rightarrow> StrfTimeWriter" where
  "WriteZeroBoundaryCheck w = WriteChar (CHR ''0'') w"

fun WriteString :: "char list \<Rightarrow> StrfTimeWriter \<Rightarrow> StrfTimeWriter" where
  "WriteString [] w = w"
| "WriteString (c # str) w =
     (if length (sw_buf w) < sw_size w then WriteString str (w\<lparr>sw_buf := sw_buf w @ [c]\<rparr>) else w)"

definition Write2Digits :: "int \<Rightarrow> StrfTimeWriter \<Rightarrow> StrfTimeWriter" where
  "Write2Digits num w =
     WriteUint num (if (word_of_int num :: u64) < 10 then WriteZeroBoundaryCheck w else w)"

text \<open>A name of a table, \<open>None\<close> outside it.\<close>

definition name_of :: "char list list \<Rightarrow> int \<Rightarrow> char list option" where
  "name_of names i = (if 0 \<le> i then nth_opt names (nat i) else None)"

definition kWeekdays :: "char list list" where
  "kWeekdays = [''Sunday'', ''Monday'', ''Tuesday'', ''Wednesday'', ''Thursday'', ''Friday'', ''Saturday'']"

definition kWeekdays_short :: "char list list" where
  "kWeekdays_short = [''Sun'', ''Mon'', ''Tue'', ''Wed'', ''Thu'', ''Fri'', ''Sat'']"

definition kMonths :: "char list list" where
  "kMonths = [''January'', ''February'', ''March'', ''April'', ''May'', ''June'', ''July'', ''August'',
     ''September'', ''October'', ''November'', ''December'']"

definition kMonths_short :: "char list list" where
  "kMonths_short = [''Jan'', ''Feb'', ''Mar'', ''Apr'', ''May'', ''Jun'', ''Jul'', ''Aug'', ''Sep'',
     ''Oct'', ''Nov'', ''Dec'']"

definition Y_Format :: "StrfTimeWriter \<Rightarrow> StrfTimeWriter" where
  "Y_Format w = WriteUint (kTmBaseYear + tm_year (sw_time w)) w"

definition y_Format :: "StrfTimeWriter \<Rightarrow> StrfTimeWriter" where
  "y_Format w = Write2Digits (tm_year (sw_time w) smod 100) w"

definition m_Format :: "StrfTimeWriter \<Rightarrow> StrfTimeWriter" where
  "m_Format w = Write2Digits (tm_mon (sw_time w) + 1) w"

definition d_Format :: "StrfTimeWriter \<Rightarrow> StrfTimeWriter" where
  "d_Format w = Write2Digits (tm_mday (sw_time w)) w"

definition H_Format :: "StrfTimeWriter \<Rightarrow> StrfTimeWriter" where
  "H_Format w = Write2Digits (tm_hour (sw_time w)) w"

definition M_Format :: "StrfTimeWriter \<Rightarrow> StrfTimeWriter" where
  "M_Format w = Write2Digits (tm_min (sw_time w)) w"

definition S_Format :: "StrfTimeWriter \<Rightarrow> StrfTimeWriter" where
  "S_Format w = Write2Digits (tm_sec (sw_time w)) w"

definition e_Format :: "StrfTimeWriter \<Rightarrow> StrfTimeWriter" where
  "e_Format w = WriteUint (tm_mday (sw_time w))
     (if tm_mday (sw_time w) < 10 then WriteChar (CHR '' '') w else w)"

definition A_Format :: "StrfTimeWriter \<Rightarrow> StrfTimeWriter option" where
  "A_Format w = do { n \<leftarrow> name_of kWeekdays (tm_wday (sw_time w)); Some (WriteString n w) }"

definition a_Format :: "StrfTimeWriter \<Rightarrow> StrfTimeWriter option" where
  "a_Format w = do { n \<leftarrow> name_of kWeekdays_short (tm_wday (sw_time w)); Some (WriteString n w) }"

definition B_Format :: "StrfTimeWriter \<Rightarrow> StrfTimeWriter option" where
  "B_Format w = do { n \<leftarrow> name_of kMonths (tm_mon (sw_time w)); Some (WriteString n w) }"

definition b_Format :: "StrfTimeWriter \<Rightarrow> StrfTimeWriter option" where
  "b_Format w = do { n \<leftarrow> name_of kMonths_short (tm_mon (sw_time w)); Some (WriteString n w) }"

definition h_Format :: "StrfTimeWriter \<Rightarrow> StrfTimeWriter option" where
  "h_Format w = b_Format w"

definition C_Format :: "StrfTimeWriter \<Rightarrow> StrfTimeWriter" where
  "C_Format w = Write2Digits (19 + tm_year (sw_time w) sdiv 100) w"

definition D_Format :: "StrfTimeWriter \<Rightarrow> StrfTimeWriter" where
  "D_Format w = y_Format (WriteChar (CHR ''/'') (d_Format (WriteChar (CHR ''/'') (m_Format w))))"

definition F_Format :: "StrfTimeWriter \<Rightarrow> StrfTimeWriter" where
  "F_Format w = d_Format (WriteChar (CHR ''-'') (m_Format (WriteChar (CHR ''-'') (Y_Format w))))"

definition I_Format :: "StrfTimeWriter \<Rightarrow> StrfTimeWriter" where
  "I_Format w = Write2Digits (tm_hour (sw_time w) smod 12) w"

definition j_Format :: "StrfTimeWriter \<Rightarrow> StrfTimeWriter" where
  "j_Format w = (
     let w1 = (if tm_yday (sw_time w) < 100 then WriteZeroBoundaryCheck w else w);
         w2 = (if tm_yday (sw_time w) < 10 then WriteZeroBoundaryCheck w1 else w1)
     in WriteUint (tm_yday (sw_time w)) w2)"

definition p_Format :: "StrfTimeWriter \<Rightarrow> StrfTimeWriter" where
  "p_Format w = WriteString (if tm_hour (sw_time w) < 12 then ''AM'' else ''PM'') w"

definition R_Format :: "StrfTimeWriter \<Rightarrow> StrfTimeWriter" where
  "R_Format w = M_Format (WriteChar (CHR '':'') (H_Format w))"

definition T_Format :: "StrfTimeWriter \<Rightarrow> StrfTimeWriter" where
  "T_Format w = S_Format (WriteChar (CHR '':'') (M_Format (WriteChar (CHR '':'') (H_Format w))))"

definition U_Format :: "StrfTimeWriter \<Rightarrow> StrfTimeWriter option" where
  "U_Format w = do { n \<leftarrow> CalculateSundayBasedWeek (sw_time w); Some (Write2Digits n w) }"

definition W_Format :: "StrfTimeWriter \<Rightarrow> StrfTimeWriter option" where
  "W_Format w = do { n \<leftarrow> CalculateMondayBasedWeek (sw_time w); Some (Write2Digits n w) }"

definition w_Format :: "StrfTimeWriter \<Rightarrow> StrfTimeWriter" where
  "w_Format w = WriteUint (tm_wday (sw_time w)) w"

definition x_Format :: "StrfTimeWriter \<Rightarrow> StrfTimeWriter" where
  "x_Format w = D_Format w"

definition X_Format :: "StrfTimeWriter \<Rightarrow> StrfTimeWriter" where
  "X_Format w = p_Format (I_Format w)"

definition Z_Format :: "StrfTimeWriter \<Rightarrow> StrfTimeWriter" where
  "Z_Format w = (
     let offset = tz_west_offset_minutes (sw_tz w)
           + (if tm_isdst (sw_time w) \<noteq> 0 \<and> tz_dst_time_offset_minutes (sw_tz w) \<noteq> 0
              then tz_dst_time_offset_minutes (sw_tz w) else 0);
         is_negative = offset < 0;
         w0 = WriteChar (if is_negative then CHR ''-'' else CHR ''+'') w;
         w1 = (if offset < 1000 then WriteChar (CHR ''0'') w0 else w0);
         w2 = (if offset < 100 then WriteChar (CHR ''0'') w1 else w1);
         w3 = (if offset < 10 then WriteChar (CHR ''0'') w2 else w2)
     in WriteUint (if is_negative then - offset else offset) w3)"

definition z_Format :: "StrfTimeWriter \<Rightarrow> StrfTimeWriter" where
  "z_Format w = Z_Format w"

definition Percent_Format :: "StrfTimeWriter \<Rightarrow> StrfTimeWriter" where
  "Percent_Format w = WriteChar (CHR ''%'') w"

text \<open>\<open>c\<close> is \<open>*(format_ - 1)\<close>.\<close>

definition InvalidFormat :: "char \<Rightarrow> StrfTimeWriter \<Rightarrow> StrfTimeWriter" where
  "InvalidFormat c w = WriteChar c (WriteChar (CHR ''%'') w)"

definition r_Format :: "StrfTimeWriter \<Rightarrow> StrfTimeWriter" where
  "r_Format w = p_Format (WriteChar (CHR '' '') (S_Format (WriteChar (CHR '':'')
     (M_Format (WriteChar (CHR '':'') (I_Format w))))))"

definition G_Format :: "StrfTimeWriter \<Rightarrow> StrfTimeWriter option" where
  "G_Format w = do { n \<leftarrow> CalculateIsoBasedYear (sw_time w); Some (WriteUint n w) }"

definition g_Format :: "StrfTimeWriter \<Rightarrow> StrfTimeWriter option" where
  "g_Format w = do { n \<leftarrow> CalculateIsoBasedYear (sw_time w); Some (Write2Digits (n smod 100) w) }"

definition V_Format :: "StrfTimeWriter \<Rightarrow> StrfTimeWriter option" where
  "V_Format w = do { n \<leftarrow> CalculateIsoBasedWeek (sw_time w); Some (Write2Digits n w) }"

definition u_Format :: "StrfTimeWriter \<Rightarrow> StrfTimeWriter" where
  "u_Format w = WriteUint ((if tm_wday (sw_time w) = 0 then 6 else tm_wday (sw_time w) - 1) + 1) w"

text \<open>The switch of \<open>ProcessFormat_\<close> on the conversion character.\<close>

definition ProcessFormat_switch :: "char \<Rightarrow> StrfTimeWriter \<Rightarrow> StrfTimeWriter option" where
  "ProcessFormat_switch c w =
    (if c = CHR ''Y'' then Some (Y_Format w)
     else if c = CHR ''y'' then Some (y_Format w)
     else if c = CHR ''m'' then Some (m_Format w)
     else if c = CHR ''d'' then Some (d_Format w)
     else if c = CHR ''H'' then Some (H_Format w)
     else if c = CHR ''M'' then Some (M_Format w)
     else if c = CHR ''S'' then Some (S_Format w)
     else if c = CHR ''A'' then A_Format w
     else if c = CHR ''a'' then a_Format w
     else if c = CHR ''B'' then B_Format w
     else if c = CHR ''b'' then b_Format w
     else if c = CHR ''C'' then Some (C_Format w)
     else if c = CHR ''D'' then Some (D_Format w)
     else if c = CHR ''F'' then Some (F_Format w)
     else if c = CHR ''I'' then Some (I_Format w)
     else if c = CHR ''j'' then Some (j_Format w)
     else if c = CHR ''p'' then Some (p_Format w)
     else if c = CHR ''R'' then Some (R_Format w)
     else if c = CHR ''T'' then Some (T_Format w)
     else if c = CHR ''U'' then U_Format w
     else if c = CHR ''W'' then W_Format w
     else if c = CHR ''w'' then Some (w_Format w)
     else if c = CHR ''x'' then Some (x_Format w)
     else if c = CHR ''X'' then Some (X_Format w)
     else if c = CHR ''Z'' then Some (Z_Format w)
     else if c = CHR ''z'' then Some (z_Format w)
     else if c = CHR ''%'' then Some (Percent_Format w)
     else if c = CHR ''e'' then Some (e_Format w)
     else if c = CHR ''h'' then h_Format w
     else if c = CHR ''g'' then g_Format w
     else if c = CHR ''G'' then G_Format w
     else if c = CHR ''u'' then Some (u_Format w)
     else if c = CHR ''V'' then V_Format w
     else if c = CHR ''r'' then Some (r_Format w)
     else Some (InvalidFormat c w))"

text \<open>\<open>*(format_++)\<close>.\<close>

definition next_char :: "StrfTimeWriter \<Rightarrow> (char \<times> StrfTimeWriter) option" where
  "next_char w = (case sw_format w of [] \<Rightarrow> None | c # rest \<Rightarrow> Some (c, w\<lparr>sw_format := rest\<rparr>))"

definition ProcessFormat :: "StrfTimeWriter \<Rightarrow> StrfTimeWriter option" where
  "ProcessFormat w = do {
     (c, w) \<leftarrow> next_char w;
     (c, w) \<leftarrow> (if c = CHR ''O'' \<or> c = CHR ''E'' then next_char w else Some (c, w));
     ProcessFormat_switch c w }"

lemma sw_format_ops [simp]:
  "sw_format (WriteUint n w) = sw_format w"
  "sw_format (WriteChar c w) = sw_format w"
  "sw_format (WriteZeroBoundaryCheck w) = sw_format w"
  "sw_format (WriteString s w) = sw_format w"
  "sw_format (Write2Digits n w) = sw_format w"
proof -
  show s: "sw_format (WriteString s w) = sw_format w" for s w by (induction s w rule: WriteString.induct) auto
  show "sw_format (WriteUint n w) = sw_format w" "sw_format (WriteChar c w) = sw_format w"
    "sw_format (WriteZeroBoundaryCheck w) = sw_format w" "sw_format (Write2Digits n w) = sw_format w"
    by (auto simp: WriteUint_def WriteChar_def WriteZeroBoundaryCheck_def Write2Digits_def)
qed

lemma sw_format_numbers [simp]:
  "sw_format (Y_Format w) = sw_format w" "sw_format (y_Format w) = sw_format w"
  "sw_format (m_Format w) = sw_format w" "sw_format (d_Format w) = sw_format w"
  "sw_format (H_Format w) = sw_format w" "sw_format (M_Format w) = sw_format w"
  "sw_format (S_Format w) = sw_format w" "sw_format (e_Format w) = sw_format w"
  "sw_format (C_Format w) = sw_format w" "sw_format (I_Format w) = sw_format w"
  "sw_format (j_Format w) = sw_format w" "sw_format (p_Format w) = sw_format w"
  "sw_format (w_Format w) = sw_format w" "sw_format (Z_Format w) = sw_format w"
  "sw_format (Percent_Format w) = sw_format w" "sw_format (InvalidFormat c w) = sw_format w"
  "sw_format (u_Format w) = sw_format w"
  by (simp_all add: Y_Format_def y_Format_def m_Format_def d_Format_def H_Format_def M_Format_def
      S_Format_def e_Format_def C_Format_def I_Format_def j_Format_def p_Format_def w_Format_def
      Z_Format_def Percent_Format_def InvalidFormat_def u_Format_def Let_def)

lemma sw_format_composed [simp]:
  "sw_format (D_Format w) = sw_format w" "sw_format (F_Format w) = sw_format w"
  "sw_format (R_Format w) = sw_format w" "sw_format (T_Format w) = sw_format w"
  "sw_format (X_Format w) = sw_format w" "sw_format (r_Format w) = sw_format w"
  by (simp_all add: D_Format_def F_Format_def R_Format_def T_Format_def X_Format_def r_Format_def)

definition keeps_format :: "StrfTimeWriter \<Rightarrow> StrfTimeWriter option \<Rightarrow> bool" where
  "keeps_format w r \<longleftrightarrow> (\<forall>w'. r = Some w' \<longrightarrow> sw_format w' = sw_format w)"

lemma keeps_if: "keeps_format w r \<Longrightarrow> keeps_format w r' \<Longrightarrow> keeps_format w (if b then r else r')"
  by simp

lemma keeps_Some: "sw_format w' = sw_format w \<Longrightarrow> keeps_format w (Some w')"
  by (simp add: keeps_format_def)

lemma keeps_bind: "(\<And>n. sw_format (g n) = sw_format w) \<Longrightarrow> keeps_format w (do { n \<leftarrow> m; Some (g n) })"
  by (cases m) (auto simp: keeps_format_def)

lemma ProcessFormat_switch_keeps: "keeps_format w (ProcessFormat_switch c w)"
  unfolding ProcessFormat_switch_def x_Format_def z_Format_def
    h_Format_def A_Format_def a_Format_def B_Format_def b_Format_def U_Format_def W_Format_def
    G_Format_def g_Format_def V_Format_def
  by (rule keeps_if keeps_Some keeps_bind sw_format_ops sw_format_numbers sw_format_composed)+

lemma ProcessFormat_switch_format: "ProcessFormat_switch c w = Some w' \<Longrightarrow> sw_format w' = sw_format w"
  using ProcessFormat_switch_keeps by (simp add: keeps_format_def)

lemma ProcessFormat_shortens: "ProcessFormat w = Some w' \<Longrightarrow> length (sw_format w') < length (sw_format w)"
  by (auto simp: ProcessFormat_def next_char_def bind_eq_Some_conv split: list.splits if_splits
      dest!: ProcessFormat_switch_format)

text \<open>The loop of \<open>Write\<close>; every iteration reads at least one character of the format.\<close>

function Write_loop :: "StrfTimeWriter \<Rightarrow> (bool \<times> StrfTimeWriter) option" where
  "Write_loop w = (case sw_format w of
     [] \<Rightarrow> None
   | c # rest \<Rightarrow> do {
       w' \<leftarrow> (if c = CHR ''%'' then ProcessFormat (w\<lparr>sw_format := rest\<rparr>)
             else Some (w\<lparr>sw_format := rest, sw_buf := sw_buf w @ [c]\<rparr>));
       if length (sw_buf w') < sw_size w' \<and> c \<noteq> NUL then Write_loop w' else Some (c = NUL, w') })"
  by auto
termination
  by (relation "measure (\<lambda>w. length (sw_format w))")
    (auto split: if_splits dest: ProcessFormat_shortens)

declare Write_loop.simps [simp del]

definition StrfTimeWriter_Write :: "StrfTimeWriter \<Rightarrow> (bool \<times> StrfTimeWriter) option" where
  "StrfTimeWriter_Write w = (if sw_size w = 0 then Some (False, w) else Write_loop w)"

text \<open>\<open>strftime\<close> returns the length and the characters written to the buffer.\<close>

definition strftime :: "Timezone \<Rightarrow> nat \<Rightarrow> char list \<Rightarrow> tm \<Rightarrow> (nat \<times> char list) option" where
  "strftime tz max_size format time_ptr = do {
     (is_success, w) \<leftarrow> StrfTimeWriter_Write \<lparr>sw_buf = [], sw_format = format @ [NUL], sw_size = max_size,
       sw_time = time_ptr, sw_tz = tz\<rparr>;
     Some (if is_success then length (sw_buf w) - 1 else 0, sw_buf w) }"

section \<open>asctime\<close>

datatype errno = NO_ERROR | EOVERFLOW | EINVAL

text \<open>The buffer is \<open>None\<close> for a null pointer, and otherwise what has been written to it.\<close>

definition asctime_s :: "Timezone \<Rightarrow> bool \<Rightarrow> nat \<Rightarrow> tm option \<Rightarrow> (errno \<times> char list) option" where
  "asctime_s tz buf bufsz time_ptr = (case time_ptr of
     None \<Rightarrow> Some (EOVERFLOW, if buf \<and> bufsz > 0 then [NUL] else [])
   | Some t \<Rightarrow>
       if bufsz < 26 then Some (EOVERFLOW, if buf \<and> bufsz > 0 then [NUL] else [])
       else if \<not> buf then Some (EOVERFLOW, [])
       else if \<not> ValidateTm t then Some (EINVAL, [NUL])
       else do {
         (_, b) \<leftarrow> strftime tz bufsz ''%a %b %d %H:%M:%S %C%y'' t;
         Some (NO_ERROR, b) })"

section \<open>What a conversion appends\<close>

text \<open>Decimal numerals, the reference for the digit loops.\<close>

fun dec :: "nat \<Rightarrow> char list" where
  "dec n = (if n < 10 then [char_of (48 + n)] else dec (n div 10) @ [char_of (48 + n mod 10)])"

declare dec.simps [simp del]

lemma list_split2:
  assumes "i < j" and "j < length str"
  shows "\<exists>xs a ys b zs. str = xs @ a # ys @ b # zs \<and> length xs = i \<and> length xs + 1 + length ys = j"
proof -
  have 1: "str = take i str @ str ! i # drop (Suc i) str"
    using assms by (simp add: id_take_nth_drop)
  let ?r = "drop (Suc i) str" and ?k = "j - Suc i"
  have 2: "?r = take ?k ?r @ ?r ! ?k # drop (Suc ?k) ?r"
    using assms by (intro id_take_nth_drop) simp
  have "str = take i str @ str ! i # take ?k ?r @ ?r ! ?k # drop (Suc ?k) ?r"
    using 1 2 by metis
  moreover have "length (take i str) = i" "length (take i str) + 1 + length (take ?k ?r) = j"
    using assms by auto
  ultimately show ?thesis by blast
qed

lemma ReverseString_loop_rev:
  "i \<le> length str \<Longrightarrow> j < length str \<Longrightarrow> i \<le> Suc j \<Longrightarrow>
   ReverseString_loop str i j = take i str @ rev (take (Suc j - i) (drop i str)) @ drop (Suc j) str"
proof (induction str i j rule: ReverseString_loop.induct)
  case (1 str i j)
  show ?case
  proof (cases "i < j")
    case True
    let ?str = "str[i := str ! j, j := str ! i]"
    obtain xs a ys b zs where str: "str = xs @ a # ys @ b # zs" "length xs = i" "length xs + 1 + length ys = j"
      using list_split2 [OF True 1(3)] by blast
    have upd: "?str = xs @ b # ys @ a # zs"
      unfolding str(1) str(2,3) [symmetric] by (simp add: nth_append list_update_append)
    have "ReverseString_loop str i j = ReverseString_loop ?str (i + 1) (j - 1)"
      by (subst ReverseString_loop.simps) (simp add: True)
    also have "\<dots> = take (i + 1) ?str @ rev (take (Suc (j - 1) - (i + 1)) (drop (i + 1) ?str)) @ drop (Suc (j - 1)) ?str"
      by (rule 1(1)) (use True 1(2-4) in auto)
    also have "\<dots> = take i str @ rev (take (Suc j - i) (drop i str)) @ drop (Suc j) str"
      unfolding upd unfolding str(1) str(2,3) [symmetric] by simp
    finally show ?thesis .
  next
    case False
    then have "i = j \<or> i = Suc j" using 1(4) by auto
    with False show ?thesis
      using 1(3) by (auto simp: ReverseString_loop.simps take_Suc_conv_app_nth id_take_nth_drop [symmetric])
  qed
qed

lemma ReverseString_rev: "ReverseString str (length str) = rev str"
  by (cases "str = []") (auto simp: ReverseString_def ReverseString_loop_rev)

lemma unat_div10: "unat ((num :: u64) div 10) = unat num div 10"
  and unat_mod10: "unat ((num :: u64) mod 10) = unat num mod 10"
  by (simp_all add: unat_div unat_mod)

lemma div10_eq_0: "(num :: u64) div 10 = 0 \<longleftrightarrow> unat num < 10"
  using unat_div10 [of num] by (metis div_eq_0_iff unat_eq_zero zero_neq_numeral)

lemma digit_char_mod: "digit_char (num mod 10) = char_of (48 + unat num mod 10)"
  by (simp add: digit_char_def unat_mod10)

lemma digits_loop_dec: "num \<noteq> 0 \<Longrightarrow> rev (digits_loop num) = dec (unat num)"
proof (induction num rule: digits_loop.induct)
  case (1 num)
  then show ?case
    by (subst digits_loop.simps, subst dec.simps)
      (auto simp: digit_char_mod div10_eq_0 [symmetric] unat_div10 digits_loop.simps [of 0])
qed

lemma FormatUInt_dec: "FormatUInt num = dec (unat num)"
  by (auto simp: FormatUInt_def ReverseString_rev digits_loop_dec digit_char_def dec.simps [of 0] Let_def)

lemma digits_loop_len_take: "digits_loop_len num len = take len (digits_loop num)"
proof (induction num len rule: digits_loop_len.induct)
  case (2 num len)
  then show ?case by (subst digits_loop.simps) (auto simp: digits_loop.simps [of 0])
qed simp

lemma dec_not_Nil [simp]: "dec n \<noteq> []"
  by (subst dec.simps) simp

lemma FormatUIntWithoutNullTerm_dec:
  "FormatUIntWithoutNullTerm num len = rev (take len (rev (dec (unat num))))"
  by (cases len)
    (auto simp: FormatUIntWithoutNullTerm_def digits_loop_len_take ReverseString_rev
      digits_loop_dec [symmetric] digit_char_def dec.simps [of 0] Let_def)

text \<open>
  \<open>appends s w w'\<close>: the step from \<open>w\<close> to \<open>w'\<close> writes the text \<open>s\<close> when it fits, and otherwise fills the
  buffer; nothing else of the writer changes.
\<close>

definition appends :: "char list \<Rightarrow> StrfTimeWriter \<Rightarrow> StrfTimeWriter \<Rightarrow> bool" where
  "appends s w w' \<longleftrightarrow>
     (\<exists>b. w' = w\<lparr>sw_buf := b\<rparr> \<and>
       (if length (sw_buf w) + length s \<le> sw_size w then b = sw_buf w @ s else length b = sw_size w))"

definition fits :: "StrfTimeWriter \<Rightarrow> bool" where
  "fits w \<longleftrightarrow> length (sw_buf w) \<le> sw_size w"

lemma appendsI:
  assumes "w' = w\<lparr>sw_buf := b\<rparr>"
    and "length (sw_buf w) + length s \<le> sw_size w \<Longrightarrow> b = sw_buf w @ s"
    and "sw_size w < length (sw_buf w) + length s \<Longrightarrow> length b = sw_size w"
  shows "appends s w w'"
  unfolding appends_def using assms by (intro exI [of _ b]) auto

named_theorems appends_intros \<open>what the operations of the writer append\<close>

lemma appends_fields:
  assumes "appends s w w'"
  shows "sw_format w' = sw_format w" "sw_size w' = sw_size w" "sw_time w' = sw_time w" "sw_tz w' = sw_tz w"
  using assms by (auto simp: appends_def)

lemma appends_fits: "appends s w w' \<Longrightarrow> fits w \<Longrightarrow> fits w'"
  by (auto simp: appends_def fits_def split: if_splits)

lemma appends_Nil: "fits w \<Longrightarrow> appends [] w w"
  by (auto simp: appends_def fits_def intro: exI [of _ "sw_buf w"])

lemma appends_trans:
  assumes "appends s w w1" and "appends s' w1 w2" and "fits w"
  shows "appends (s @ s') w w2"
proof -
  obtain b where b: "w1 = w\<lparr>sw_buf := b\<rparr>"
    "if length (sw_buf w) + length s \<le> sw_size w then b = sw_buf w @ s else length b = sw_size w"
    using assms(1) by (auto simp: appends_def)
  obtain b' where b': "w2 = w1\<lparr>sw_buf := b'\<rparr>"
    "if length (sw_buf w1) + length s' \<le> sw_size w1 then b' = sw_buf w1 @ s' else length b' = sw_size w1"
    using assms(2) by (auto simp: appends_def)
  have "w2 = w\<lparr>sw_buf := b'\<rparr>" using b(1) b'(1) by simp
  then show ?thesis
    by (rule appendsI)
      (use b b'(2) assms(3) in \<open>auto simp: fits_def split: if_splits\<close>)
qed

lemma WriteChar_appends [appends_intros]: "fits w \<Longrightarrow> appends [c] w (WriteChar c w)"
  by (auto simp: appends_def WriteChar_def fits_def intro: exI [of _ "sw_buf w"])

lemma WriteString_appends [appends_intros]: "fits w \<Longrightarrow> appends s w (WriteString s w)"
proof (induction s arbitrary: w)
  case (Cons c s)
  show ?case
  proof (cases "length (sw_buf w) < sw_size w")
    case True
    have "appends (c # []) w (WriteChar c w)" "fits (WriteChar c w)"
      using WriteChar_appends [OF Cons.prems] appends_fits Cons.prems by auto
    then have "appends ([c] @ s) w (WriteString s (WriteChar c w))"
      using Cons by (blast intro: appends_trans)
    then show ?thesis using True by (simp add: WriteChar_def)
  next
    case False
    then show ?thesis using Cons.prems by (auto simp: appends_def fits_def intro: exI [of _ "sw_buf w"])
  qed
qed (simp add: appends_Nil)

text \<open>A number as \<open>uintmax_t\<close>, and with a leading zero below ten.\<close>

definition num_text :: "int \<Rightarrow> char list" where
  "num_text n = dec (nat (n mod 2 ^ 64))"

definition two_digits :: "int \<Rightarrow> char list" where
  "two_digits n = (if n mod 2 ^ 64 < 10 then ''0'' else []) @ num_text n"

lemma unat_word_of_int64: "unat (word_of_int n :: u64) = nat (n mod 2 ^ 64)"
  by (simp add: unsigned_of_int take_bit_eq_mod)

lemma WriteUint_appends [appends_intros]: "fits w \<Longrightarrow> appends (num_text n) w (WriteUint n w)"
  unfolding WriteUint_def
  by (rule appendsI [OF refl])
    (auto simp: fits_def FormatUIntWithoutNullTerm_dec num_text_def unat_word_of_int64)

lemma word_less_10: "(word_of_int n :: u64) < 10 \<longleftrightarrow> n mod 2 ^ 64 < 10"
  by (simp add: word_less_def uint_word_of_int)

lemma appends_if [appends_intros]:
  "fits w \<Longrightarrow> (b \<Longrightarrow> appends s w w') \<Longrightarrow> appends (if b then s else []) w (if b then w' else w)"
  by (simp add: appends_Nil)

text \<open>Two steps one after the other; the fields the conversions read stay the same.\<close>

lemma appends_then:
  assumes "fits w1 \<Longrightarrow> sw_time w1 = t \<Longrightarrow> appends s' w1 w2"
    and "appends s w w1" and "fits w" and "sw_time w = t"
  shows "appends (s @ s') w w2"
  using assms appends_trans appends_fits appends_fields by metis

lemma Write2Digits_appends [appends_intros]: "fits w \<Longrightarrow> appends (two_digits n) w (Write2Digits n w)"
  unfolding Write2Digits_def two_digits_def word_less_10 WriteZeroBoundaryCheck_def
  by (rule appends_then, (rule appends_intros refl | assumption)+)

section \<open>The text of a conversion\<close>

text \<open>
  What each conversion character stands for, as a text that does not depend on the buffer.
  \<open>None\<close> is an access outside the tables of names or of months.
\<close>

definition hm_text :: "tm \<Rightarrow> char list" where
  "hm_text t = two_digits (tm_hour t) @ '':'' @ two_digits (tm_min t)"

definition am_pm :: "tm \<Rightarrow> char list" where
  "am_pm t = (if tm_hour t < 12 then ''AM'' else ''PM'')"

definition date_text :: "tm \<Rightarrow> char list" where
  "date_text t = two_digits (tm_mon t + 1) @ ''/'' @ two_digits (tm_mday t) @ ''/'' @ two_digits (tm_year t smod 100)"

definition zone_minutes :: "tm \<Rightarrow> Timezone \<Rightarrow> int" where
  "zone_minutes t tz = tz_west_offset_minutes tz
     + (if tm_isdst t \<noteq> 0 \<and> tz_dst_time_offset_minutes tz \<noteq> 0 then tz_dst_time_offset_minutes tz else 0)"

definition zone_text :: "int \<Rightarrow> char list" where
  "zone_text m = (if m < 0 then ''-'' else ''+'') @ (if m < 1000 then ''0'' else []) @
     (if m < 100 then ''0'' else []) @ (if m < 10 then ''0'' else []) @ num_text \<bar>m\<bar>"

definition conversion_text :: "tm \<Rightarrow> Timezone \<Rightarrow> char \<Rightarrow> char list option" where
  "conversion_text t tz c =
    (if c = CHR ''Y'' then Some (num_text (1900 + tm_year t))
     else if c = CHR ''y'' then Some (two_digits (tm_year t smod 100))
     else if c = CHR ''m'' then Some (two_digits (tm_mon t + 1))
     else if c = CHR ''d'' then Some (two_digits (tm_mday t))
     else if c = CHR ''H'' then Some (two_digits (tm_hour t))
     else if c = CHR ''M'' then Some (two_digits (tm_min t))
     else if c = CHR ''S'' then Some (two_digits (tm_sec t))
     else if c = CHR ''A'' then name_of kWeekdays (tm_wday t)
     else if c = CHR ''a'' then name_of kWeekdays_short (tm_wday t)
     else if c = CHR ''B'' then name_of kMonths (tm_mon t)
     else if c = CHR ''b'' then name_of kMonths_short (tm_mon t)
     else if c = CHR ''C'' then Some (two_digits (19 + tm_year t sdiv 100))
     else if c = CHR ''D'' then Some (date_text t)
     else if c = CHR ''F'' then Some (num_text (1900 + tm_year t) @ ''-'' @ two_digits (tm_mon t + 1)
       @ ''-'' @ two_digits (tm_mday t))
     else if c = CHR ''I'' then Some (two_digits (tm_hour t smod 12))
     else if c = CHR ''j'' then Some ((if tm_yday t < 100 then ''0'' else []) @
       (if tm_yday t < 10 then ''0'' else []) @ num_text (tm_yday t))
     else if c = CHR ''p'' then Some (am_pm t)
     else if c = CHR ''R'' then Some (hm_text t)
     else if c = CHR ''T'' then Some (hm_text t @ '':'' @ two_digits (tm_sec t))
     else if c = CHR ''U'' then map_option two_digits (CalculateSundayBasedWeek t)
     else if c = CHR ''W'' then map_option two_digits (CalculateMondayBasedWeek t)
     else if c = CHR ''w'' then Some (num_text (tm_wday t))
     else if c = CHR ''x'' then Some (date_text t)
     else if c = CHR ''X'' then Some (two_digits (tm_hour t smod 12) @ am_pm t)
     else if c = CHR ''Z'' then Some (zone_text (zone_minutes t tz))
     else if c = CHR ''z'' then Some (zone_text (zone_minutes t tz))
     else if c = CHR ''%'' then Some ''%''
     else if c = CHR ''e'' then Some ((if tm_mday t < 10 then '' '' else []) @ num_text (tm_mday t))
     else if c = CHR ''h'' then name_of kMonths_short (tm_mon t)
     else if c = CHR ''g'' then map_option (\<lambda>n. two_digits (n smod 100)) (CalculateIsoBasedYear t)
     else if c = CHR ''G'' then map_option num_text (CalculateIsoBasedYear t)
     else if c = CHR ''u'' then Some (num_text (if tm_wday t = 0 then 7 else tm_wday t))
     else if c = CHR ''V'' then map_option two_digits (CalculateIsoBasedWeek t)
     else if c = CHR ''r'' then Some (two_digits (tm_hour t smod 12) @ '':'' @ two_digits (tm_min t) @
       '':'' @ two_digits (tm_sec t) @ '' '' @ am_pm t)
     else Some [CHR ''%'', c])"

lemma number_formats_append [appends_intros]:
  assumes "fits w" and "sw_time w = t"
  shows "appends (num_text (1900 + tm_year t)) w (Y_Format w)"
    and "appends (two_digits (tm_year t smod 100)) w (y_Format w)"
    and "appends (two_digits (tm_mon t + 1)) w (m_Format w)"
    and "appends (two_digits (tm_mday t)) w (d_Format w)"
    and "appends (two_digits (tm_hour t)) w (H_Format w)"
    and "appends (two_digits (tm_min t)) w (M_Format w)"
    and "appends (two_digits (tm_sec t)) w (S_Format w)"
    and "appends (two_digits (19 + tm_year t sdiv 100)) w (C_Format w)"
    and "appends (two_digits (tm_hour t smod 12)) w (I_Format w)"
    and "appends (am_pm t) w (p_Format w)"
    and "appends (num_text (tm_wday t)) w (w_Format w)"
    and "appends ''%'' w (Percent_Format w)"
  unfolding Y_Format_def y_Format_def m_Format_def d_Format_def H_Format_def M_Format_def S_Format_def
    C_Format_def I_Format_def p_Format_def w_Format_def am_pm_def Percent_Format_def assms(2)
  by (rule appends_intros, rule assms(1))+

lemma u_Format_appends [appends_intros]:
  "fits w \<Longrightarrow> sw_time w = t \<Longrightarrow> appends (num_text (if tm_wday t = 0 then 7 else tm_wday t)) w (u_Format w)"
  using WriteUint_appends [of w "if tm_wday t = 0 then 7 else tm_wday t"]
  by (auto simp: u_Format_def split: if_splits)

lemma composed_formats_append [appends_intros]:
  assumes "fits w" and "sw_time w = t"
  shows "appends (date_text t) w (D_Format w)"
    and "appends (num_text (1900 + tm_year t) @ ''-'' @ two_digits (tm_mon t + 1) @ ''-'' @ two_digits (tm_mday t))
      w (F_Format w)"
    and "appends (hm_text t) w (R_Format w)"
    and "appends (hm_text t @ '':'' @ two_digits (tm_sec t)) w (T_Format w)"
    and "appends (two_digits (tm_hour t smod 12) @ am_pm t) w (X_Format w)"
    and "appends (two_digits (tm_hour t smod 12) @ '':'' @ two_digits (tm_min t) @
       '':'' @ two_digits (tm_sec t) @ '' '' @ am_pm t) w (r_Format w)"
    and "appends [CHR ''%'', c] w (InvalidFormat c w)"
    and "appends ((if tm_mday t < 10 then '' '' else []) @ num_text (tm_mday t)) w (e_Format w)"
    and "appends ((if tm_yday t < 100 then ''0'' else []) @ (if tm_yday t < 10 then ''0'' else []) @
      num_text (tm_yday t)) w (j_Format w)"
    and "appends (zone_text (zone_minutes t (sw_tz w))) w (Z_Format w)"
proof -
  have split: "[CHR ''%'', c] = ''%'' @ [c]" by simp
  note app = append_assoc [symmetric]
  note t = assms(2)
  show "appends (date_text t) w (D_Format w)"
    unfolding D_Format_def date_text_def app
    by ((rule appends_then appends_intros assms | assumption)+)
  show "appends (num_text (1900 + tm_year t) @ ''-'' @ two_digits (tm_mon t + 1) @ ''-'' @ two_digits (tm_mday t))
      w (F_Format w)"
    unfolding F_Format_def app by ((rule appends_then appends_intros assms | assumption)+)
  show "appends (hm_text t) w (R_Format w)"
    unfolding R_Format_def hm_text_def app by ((rule appends_then appends_intros assms | assumption)+)
  show "appends (hm_text t @ '':'' @ two_digits (tm_sec t)) w (T_Format w)"
    unfolding T_Format_def hm_text_def app by ((rule appends_then appends_intros assms | assumption)+)
  show "appends (two_digits (tm_hour t smod 12) @ am_pm t) w (X_Format w)"
    unfolding X_Format_def app by ((rule appends_then appends_intros assms | assumption)+)
  show "appends (two_digits (tm_hour t smod 12) @ '':'' @ two_digits (tm_min t) @
       '':'' @ two_digits (tm_sec t) @ '' '' @ am_pm t) w (r_Format w)"
    unfolding r_Format_def app by ((rule appends_then appends_intros assms | assumption)+)
  show "appends [CHR ''%'', c] w (InvalidFormat c w)"
    unfolding InvalidFormat_def split by ((rule appends_then appends_intros assms | assumption)+)
  show "appends ((if tm_mday t < 10 then '' '' else []) @ num_text (tm_mday t)) w (e_Format w)"
    unfolding e_Format_def t by ((rule appends_then appends_intros assms | assumption)+)
  show "appends ((if tm_yday t < 100 then ''0'' else []) @ (if tm_yday t < 10 then ''0'' else []) @
      num_text (tm_yday t)) w (j_Format w)"
    unfolding j_Format_def Let_def t WriteZeroBoundaryCheck_def app
    by ((rule appends_then appends_intros assms | assumption)+)
  have sign: "(if m < 0 then ''-'' else ''+'') = [if m < 0 then CHR ''-'' else CHR ''+'']" for m :: int
    by simp
  have abs: "(if m < 0 then - m else m) = \<bar>m\<bar>" for m :: int by simp
  show "appends (zone_text (zone_minutes t (sw_tz w))) w (Z_Format w)"
    unfolding Z_Format_def Let_def t zone_minutes_def [symmetric] zone_text_def app sign abs
    by ((rule appends_then appends_intros assms | assumption)+)
qed

text \<open>The two switches in step.\<close>

definition conv_ok :: "StrfTimeWriter \<Rightarrow> char list option \<Rightarrow> StrfTimeWriter option \<Rightarrow> bool" where
  "conv_ok w text r \<longleftrightarrow> (\<forall>s. text = Some s \<longrightarrow> (\<exists>w'. r = Some w' \<and> appends s w w'))"

lemma conv_if: "(b \<Longrightarrow> conv_ok w x r) \<Longrightarrow> conv_ok w x' r' \<Longrightarrow> conv_ok w (if b then x else x') (if b then r else r')"
  by simp

lemma conv_Some: "appends s w w' \<Longrightarrow> conv_ok w (Some s) (Some w')"
  by (simp add: conv_ok_def)

lemma conv_map: "(\<And>n. appends (f n) w (g n)) \<Longrightarrow> conv_ok w (map_option f m) (do { n \<leftarrow> m; Some (g n) })"
  by (cases m) (auto simp: conv_ok_def)

lemma conv_name: "(\<And>n. appends n w (g n)) \<Longrightarrow> conv_ok w m (do { n \<leftarrow> m; Some (g n) })"
  by (cases m) (auto simp: conv_ok_def)

lemma ProcessFormat_switch_ok:
  assumes "fits w"
  shows "conv_ok w (conversion_text (sw_time w) (sw_tz w) c) (ProcessFormat_switch c w)"
  unfolding conversion_text_def ProcessFormat_switch_def x_Format_def z_Format_def
    h_Format_def A_Format_def a_Format_def B_Format_def b_Format_def U_Format_def W_Format_def
    G_Format_def g_Format_def V_Format_def
  by (rule conv_if conv_Some conv_map conv_name appends_intros refl assms)+

section \<open>The text of a format\<close>

text \<open>\<open>None\<close> also for a format that ends inside a conversion.\<close>

fun format_text :: "tm \<Rightarrow> Timezone \<Rightarrow> char list \<Rightarrow> char list option" where
  "format_text t tz [] = Some []"
| "format_text t tz [c] = (if c = CHR ''%'' then None else Some [c])"
| "format_text t tz (c # d # rest) =
     (if c \<noteq> CHR ''%'' then map_option (Cons c) (format_text t tz (d # rest))
      else if d = CHR ''O'' \<or> d = CHR ''E'' then (case rest of
        [] \<Rightarrow> None
      | e # rest' \<Rightarrow> do { s \<leftarrow> conversion_text t tz e; s' \<leftarrow> format_text t tz rest'; Some (s @ s') })
      else do { s \<leftarrow> conversion_text t tz d; s' \<leftarrow> format_text t tz rest; Some (s @ s') })"

definition written_text :: "StrfTimeWriter \<Rightarrow> char list \<Rightarrow> (bool \<times> StrfTimeWriter) option \<Rightarrow> bool" where
  "written_text w s r \<longleftrightarrow> (\<exists>ok w'. r = Some (ok, w') \<and> ok = (length (sw_buf w) + length s < sw_size w) \<and>
     (ok \<longrightarrow> sw_buf w' = sw_buf w @ s @ [NUL]) \<and> (\<not> ok \<longrightarrow> length (sw_buf w') = sw_size w))"

lemma written_text_step:
  assumes "appends s w w1" and "fits w"
    and "length (sw_buf w1) < sw_size w1 \<Longrightarrow> written_text w1 s' r"
    and "\<not> length (sw_buf w1) < sw_size w1 \<Longrightarrow> r = Some (False, w1)"
  shows "written_text w (s @ s') r"
proof (cases "length (sw_buf w1) < sw_size w1")
  case True
  then have buf: "sw_buf w1 = sw_buf w @ s" "sw_size w1 = sw_size w"
    using assms(1) by (auto simp: appends_def split: if_splits)
  show ?thesis using assms(3) [OF True] unfolding written_text_def buf by (simp add: add.assoc)
next
  case False
  have "length (sw_buf w1) = sw_size w1" "sw_size w1 = sw_size w"
    using False appends_fits [OF assms(1,2)] appends_fields [OF assms(1)] by (auto simp: fits_def)
  moreover have "\<not> length (sw_buf w) + length s < sw_size w"
    using assms(1) calculation by (auto simp: appends_def split: if_splits)
  ultimately show ?thesis using assms(4) [OF False] by (auto simp: written_text_def)
qed

lemma Write_loop_end:
  assumes "sw_format w = [NUL]" and "length (sw_buf w) < sw_size w"
  shows "written_text w [] (Write_loop w)"
  using assms by (subst Write_loop.simps) (auto simp: written_text_def)

lemma Write_loop_char:
  assumes "sw_format w = c # rest" and "c \<noteq> CHR ''%''" and "c \<noteq> NUL" and "length (sw_buf w) < sw_size w"
    and "\<And>w1. \<lbrakk>sw_format w1 = rest; sw_time w1 = sw_time w; sw_tz w1 = sw_tz w; length (sw_buf w1) < sw_size w1\<rbrakk>
      \<Longrightarrow> written_text w1 s (Write_loop w1)"
  shows "written_text w (c # s) (Write_loop w)"
proof -
  let ?w = "w\<lparr>sw_format := rest\<rparr>" and ?w1 = "w\<lparr>sw_format := rest, sw_buf := sw_buf w @ [c]\<rparr>"
  have "written_text ?w ([c] @ s) (Write_loop w)"
  proof (rule written_text_step)
    show "appends [c] ?w ?w1" by (rule appendsI [where b = "sw_buf w @ [c]"]) (use assms(4) in auto)
    show "written_text ?w1 s (Write_loop w)" if "length (sw_buf ?w1) < sw_size ?w1"
      using assms(1-3) that assms(5) [of ?w1] by (subst Write_loop.simps) simp
    show "Write_loop w = Some (False, ?w1)" if "\<not> length (sw_buf ?w1) < sw_size ?w1"
      using assms(1-3) that by (subst Write_loop.simps) simp
  qed (use assms(4) in \<open>simp add: fits_def\<close>)
  then show ?thesis unfolding written_text_def by simp
qed

lemma Write_loop_conversion:
  assumes "sw_format w = CHR ''%'' # spec @ rest" and "length (sw_buf w) < sw_size w"
    and spec: "spec = [c] \<and> c \<noteq> CHR ''O'' \<and> c \<noteq> CHR ''E'' \<or> spec = [m, c] \<and> (m = CHR ''O'' \<or> m = CHR ''E'')"
    and conv: "conversion_text (sw_time w) (sw_tz w) c = Some s"
    and "\<And>w1. \<lbrakk>sw_format w1 = rest; sw_time w1 = sw_time w; sw_tz w1 = sw_tz w; length (sw_buf w1) < sw_size w1\<rbrakk>
      \<Longrightarrow> written_text w1 s' (Write_loop w1)"
  shows "written_text w (s @ s') (Write_loop w)"
proof -
  let ?w = "w\<lparr>sw_format := rest\<rparr>"
  have "fits ?w" using assms(2) by (simp add: fits_def)
  from ProcessFormat_switch_ok [OF this, of c] conv obtain w1 where
    w1: "ProcessFormat_switch c ?w = Some w1" "appends s ?w w1"
    by (auto simp: conv_ok_def)
  have "ProcessFormat (w\<lparr>sw_format := spec @ rest\<rparr>) = ProcessFormat_switch c ?w"
    using spec by (auto simp: ProcessFormat_def next_char_def)
  then have loop: "Write_loop w = (if length (sw_buf w1) < sw_size w1 then Write_loop w1 else Some (False, w1))"
    using assms(1) w1(1) by (subst Write_loop.simps) simp
  have "written_text ?w (s @ s') (Write_loop w)"
    using w1(2) \<open>fits ?w\<close>
    by (rule written_text_step) (use loop assms(5) [of w1] appends_fields [OF w1(2)] in auto)
  then show ?thesis unfolding written_text_def by simp
qed

lemma Write_loop_text:
  assumes "format_text (sw_time w) (sw_tz w) format = Some s" and "sw_format w = format @ [NUL]"
    and "NUL \<notin> set format" and "length (sw_buf w) < sw_size w"
  shows "written_text w s (Write_loop w)"
  using assms
proof (induction "sw_time w" "sw_tz w" format arbitrary: w s rule: format_text.induct)
  case 1
  then show ?case by (simp add: Write_loop_end)
next
  case (2 c)
  then show ?case
    by (auto intro!: Write_loop_char [where rest = "[NUL]"] Write_loop_end split: if_splits)
next
  case (3 c d rest)
  consider (char) "c \<noteq> CHR ''%''" | (mod) "c = CHR ''%''" "d = CHR ''O'' \<or> d = CHR ''E''"
    | (conv) "c = CHR ''%''" "d \<noteq> CHR ''O''" "d \<noteq> CHR ''E''" by blast
  then show ?case
  proof cases
    case char
    then obtain s1 where s1: "format_text (sw_time w) (sw_tz w) (d # rest) = Some s1" "s = c # s1"
      using 3(4) by auto
    show ?thesis unfolding s1(2)
      by (rule Write_loop_char [where rest = "d # rest @ [NUL]"])
        (use char s1 3 in auto)
  next
    case mod
    then obtain e rest' s1 s2 where s1: "rest = e # rest'" "conversion_text (sw_time w) (sw_tz w) e = Some s1"
      "format_text (sw_time w) (sw_tz w) rest' = Some s2" "s = s1 @ s2"
      using 3(4) by (auto simp: bind_eq_Some_conv split: list.splits)
    show ?thesis unfolding s1(4)
      by (rule Write_loop_conversion [where spec = "[d, e]" and rest = "rest' @ [NUL]" and c = e and m = d])
        (use mod s1 3 in auto)
  next
    case conv
    then obtain s1 s2 where s1: "conversion_text (sw_time w) (sw_tz w) d = Some s1"
      "format_text (sw_time w) (sw_tz w) rest = Some s2" "s = s1 @ s2"
      using 3(4) by (auto simp: bind_eq_Some_conv)
    show ?thesis unfolding s1(3)
      by (rule Write_loop_conversion [where spec = "[d]" and rest = "rest @ [NUL]" and c = d])
        (use conv s1 3 in auto)
  qed
qed

lemma strftime_written:
  assumes "format_text t tz format = Some s" and "NUL \<notin> set format"
  shows "\<exists>buf. strftime tz n format t = Some (if length s < n then length s else 0, buf) \<and>
    (length s < n \<longrightarrow> buf = s @ [NUL]) \<and> (\<not> length s < n \<longrightarrow> length buf = n)"
proof (cases "n = 0")
  case False
  let ?w = "\<lparr>sw_buf = [], sw_format = format @ [NUL], sw_size = n, sw_time = t, sw_tz = tz\<rparr>"
  have "written_text ?w s (Write_loop ?w)"
    using assms False by (intro Write_loop_text) auto
  then show ?thesis
    using False by (auto simp: written_text_def strftime_def StrfTimeWriter_Write_def)
qed (simp add: strftime_def StrfTimeWriter_Write_def)

lemma Write_loop_overread:
  assumes "sw_format w = prefix @ [CHR ''%'', NUL]" and "CHR ''%'' \<notin> set prefix" and "NUL \<notin> set prefix"
    and "length (sw_buf w) + length prefix + 2 < sw_size w"
  shows "Write_loop w = None"
  using assms
proof (induction prefix arbitrary: w)
  case Nil
  let ?w = "InvalidFormat NUL (w\<lparr>sw_format := []\<rparr>)"
  have "ProcessFormat (w\<lparr>sw_format := [NUL]\<rparr>) = Some ?w"
    by (simp add: ProcessFormat_def next_char_def ProcessFormat_switch_def)
  moreover have "length (sw_buf ?w) < sw_size ?w"
    using Nil by (simp add: InvalidFormat_def WriteChar_def)
  moreover have "Write_loop ?w = None" by (subst Write_loop.simps) simp
  ultimately show ?case using Nil by (subst Write_loop.simps) simp
next
  case (Cons c prefix)
  then show ?case by (subst Write_loop.simps) auto
qed

lemma digit_chars [simp]:
  "char_of (48 :: nat) = CHR ''0''" "char_of (49 :: nat) = CHR ''1''" "char_of (50 :: nat) = CHR ''2''"
  "char_of (51 :: nat) = CHR ''3''" "char_of (52 :: nat) = CHR ''4''" "char_of (53 :: nat) = CHR ''5''"
  "char_of (54 :: nat) = CHR ''6''" "char_of (55 :: nat) = CHR ''7''" "char_of (56 :: nat) = CHR ''8''"
  "char_of (57 :: nat) = CHR ''9''"
  by (simp_all add: char_of_def bit_0)

lemma length_dec: "n < 10 \<Longrightarrow> length (dec n) = 1" "n < 100 \<Longrightarrow> length (dec n) \<le> 2" "n < 1000 \<Longrightarrow> length (dec n) \<le> 3"
proof -
  show 1: "n < 10 \<Longrightarrow> length (dec n) = 1" for n by (simp add: dec.simps)
  show 2: "n < 100 \<Longrightarrow> length (dec n) \<le> 2" for n
    using 1 [of "n div 10"] by (subst dec.simps) auto
  show "n < 1000 \<Longrightarrow> length (dec n) \<le> 3" for n
    using 2 [of "n div 10"] by (subst dec.simps) auto
qed

lemma length_two_digits: "0 \<le> n \<Longrightarrow> n < 100 \<Longrightarrow> length (two_digits n) \<le> 2" "0 \<le> n \<Longrightarrow> n < 1000 \<Longrightarrow> length (two_digits n) \<le> 3"
  using length_dec [of "nat n"] by (auto simp: two_digits_def num_text_def)

lemma name_of_table: "0 \<le> i \<Longrightarrow> i < int (length names) \<Longrightarrow> name_of names i = Some (names ! nat i)"
  by (auto simp: name_of_def nth_opt_def)

lemma short_names:
  "k < 7 \<Longrightarrow> length (kWeekdays_short ! k) = 3" "k < 12 \<Longrightarrow> length (kMonths_short ! k) = 3"
proof -
  have "\<forall>x\<in>set kWeekdays_short. length x = 3" "\<forall>x\<in>set kMonths_short. length x = 3"
    by (simp_all add: kWeekdays_short_def kMonths_short_def)
  then show "k < 7 \<Longrightarrow> length (kWeekdays_short ! k) = 3" "k < 12 \<Longrightarrow> length (kMonths_short ! k) = 3"
    using nth_mem [of k kWeekdays_short] nth_mem [of k kMonths_short]
    by (auto simp del: nth_mem simp: kWeekdays_short_def kMonths_short_def)
qed

section \<open>Properties\<close>

text \<open>
  C29: \<open>strftime\<close> writes the text of its format with a terminator and returns the length of the text
  when it fits into the buffer; otherwise it returns 0. It never writes beyond the buffer.
\<close>
theorem strftime_correct:
  assumes "format_text t tz format = Some s" and "NUL \<notin> set format"
  shows "\<exists>buf. strftime tz max_size format t = Some (if length s < max_size then length s else 0, buf) \<and>
    (length s < max_size \<longrightarrow> buf = s @ [NUL]) \<and> length buf \<le> max_size"
  using strftime_written [OF assms, of max_size] by (cases "length s < max_size") auto

text \<open>
  C31: a format that ends with a single percent sign makes \<open>strftime\<close> read on behind the terminator
  of the format: the terminator is taken for the conversion character and the loop does not see it.
\<close>
theorem strftime_overreads_format:
  assumes "CHR ''%'' \<notin> set prefix" and "NUL \<notin> set prefix" and "length prefix + 2 < max_size"
  shows "strftime tz max_size (prefix @ ''%'') t = None"
  using assms by (simp add: strftime_def StrfTimeWriter_Write_def Write_loop_overread)

text \<open>
  C32: the twelve-hour clock shows noon and midnight as 00 and the first of January is day 000 of the
  year, where the C standard has the ranges 01 to 12 and 001 to 366.
\<close>
theorem strftime_clock_and_day_from_zero:
  assumes "tm_hour t = 0 \<or> tm_hour t = 12" and "tm_yday t = 0" and "6 < max_size"
  shows "strftime tz max_size ''%I %j'' t = Some (6, ''00 000'' @ [NUL])"
proof -
  have "format_text t tz ''%I %j'' = Some ''00 000''"
    using assms(1,2) by (auto simp: conversion_text_def two_digits_def num_text_def dec.simps)
  from strftime_written [OF this, of max_size] assms(3) show ?thesis by simp
qed

text \<open>
  C30: for every time that \<open>ValidateTm\<close> accepts, a buffer of 26 characters is enough for \<open>asctime_s\<close>: it
  succeeds and the buffer holds day, month, date, time of day, century and year.
\<close>
theorem asctime_s_correct:
  assumes "ValidateTm t" and "26 \<le> bufsz"
  shows "asctime_s tz True bufsz (Some t) = Some (NO_ERROR,
    kWeekdays_short ! nat (tm_wday t) @ '' '' @ kMonths_short ! nat (tm_mon t) @ '' '' @
    two_digits (tm_mday t) @ '' '' @ hm_text t @ '':'' @ two_digits (tm_sec t) @ '' '' @
    two_digits (19 + tm_year t div 100) @ two_digits (tm_year t mod 100) @ [NUL])"
proof -
  let ?s = "kWeekdays_short ! nat (tm_wday t) @ '' '' @ kMonths_short ! nat (tm_mon t) @ '' '' @
    two_digits (tm_mday t) @ '' '' @ hm_text t @ '':'' @ two_digits (tm_sec t) @ '' '' @
    two_digits (19 + tm_year t div 100) @ two_digits (tm_year t mod 100)"
  have v: "0 \<le> tm_wday t" "tm_wday t < 7" "0 \<le> tm_mon t" "tm_mon t < 12" "0 \<le> tm_year t" "tm_year t \<le> 9999"
    using assms(1) by (auto simp: ValidateTm_def)
  have ft: "format_text t tz ''%a %b %d %H:%M:%S %C%y'' = Some ?s"
    using v by (simp add: conversion_text_def name_of_table kWeekdays_short_def kMonths_short_def
        sdiv_nonneg smod_nonneg hm_text_def)
  have nul: "NUL \<notin> set ''%a %b %d %H:%M:%S %C%y''" by simp
  have "length (two_digits (tm_mday t)) \<le> 2" "length (two_digits (tm_hour t)) \<le> 2"
    "length (two_digits (tm_min t)) \<le> 2" "length (two_digits (tm_sec t)) \<le> 2"
    "length (two_digits (19 + tm_year t div 100)) \<le> 3" "length (two_digits (tm_year t mod 100)) \<le> 2"
    using assms(1) by (auto simp: ValidateTm_def intro!: length_two_digits)
  moreover have "length (kWeekdays_short ! nat (tm_wday t)) = 3" "length (kMonths_short ! nat (tm_mon t)) = 3"
    using v by (auto intro!: short_names)
  ultimately have "length ?s < bufsz" using assms(2) by (simp add: hm_text_def)
  then show ?thesis
    using strftime_written [OF ft nul, of bufsz] assms by (auto simp: asctime_s_def)
qed

text \<open>The last second of the twentieth century in a buffer that is large enough and in one that is not.\<close>

definition new_year :: tm where
  "new_year = \<lparr>tm_sec = 59, tm_min = 59, tm_hour = 23, tm_mday = 31, tm_mon = 11, tm_year = 99,
     tm_wday = 5, tm_yday = 364, tm_isdst = 0\<rparr>"

theorem strftime_correct_witness:
  "strftime kUtcTimezone 20 ''%F %T'' new_year = Some (19, ''1999-12-31 23:59:59'' @ [NUL]) \<and>
   (\<exists>buf. strftime kUtcTimezone 19 ''%F %T'' new_year = Some (0, buf))"
proof -
  have "format_text new_year kUtcTimezone ''%F %T'' = Some ''1999-12-31 23:59:59''"
    by (simp add: conversion_text_def two_digits_def num_text_def dec.simps new_year_def hm_text_def)
  from strftime_correct [OF this, of 20] strftime_correct [OF this, of 19] show ?thesis by auto
qed

theorem asctime_s_correct_witness:
  "asctime_s kUtcTimezone True 26 (Some new_year) = Some (NO_ERROR, ''Fri Dec 31 23:59:59 1999'' @ [NUL])"
  using asctime_s_correct [of new_year 26 kUtcTimezone]
  by (simp add: ValidateTm_def new_year_def kWeekdays_short_def kMonths_short_def two_digits_def
      num_text_def dec.simps hm_text_def)

theorem strftime_overreads_format_witness:
  "strftime kUtcTimezone 8 (''100'' @ ''%'') new_year = None"
  by (rule strftime_overreads_format) simp_all

theorem strftime_clock_and_day_from_zero_witness:
  "strftime kUtcTimezone 7 ''%I %j'' (new_year\<lparr>tm_hour := 12, tm_yday := 0\<rparr>) = Some (6, ''00 000'' @ [NUL])"
  by (rule strftime_clock_and_day_from_zero) simp_all

end
