(* ===== verification/Libc_Printf.thy ===== *)
theory Libc_Printf
  imports Libc_Format
begin

text \<open>
  \<open>vsnprintf\<close> (\<open>libs/libc/src/stdio/snprintf.cpp\<close>) and \<open>FormatMetricUint\<close> (\<open>internal/formats.hpp\<close>).

  The variable arguments are the 64-bit slots of the calling convention, in order; an argument that
  is missing or of the wrong kind is \<open>BadArgument\<close>. The conversions of floating-point numbers compute with
  \<open>double\<close> and are left out: they are the outcome \<open>DoubleConversion\<close>. A write outside the
  destination or outside the local buffer of 2048 characters is \<open>OutOfBounds\<close>. The size of the
  destination, a number that fits an \<open>int\<close>, is the length of the list \<open>pb_str\<close>.
\<close>

section \<open>Data\<close>

datatype LengthModifier = LM_None | LM_h | LM_hh | LM_l | LM_ll | LM_j | LM_z | LM_t

datatype va_arg = VaInt u64 | VaStr "char list option" | VaDouble u64

record printf_buf =
  pb_str :: "char list"
  pb_i :: nat
  pb_n :: "(u64 \<times> nat) list"

record printf_spec =
  sp_width :: int
  sp_precision :: int
  sp_prefix :: char
  sp_reverse_padding :: bool
  sp_zero_padding :: bool
  sp_is_hash :: bool
  sp_is_space :: bool
  sp_is_plus :: bool
  sp_length_modifier :: LengthModifier

definition init_spec :: printf_spec where
  "init_spec = \<lparr>sp_width = - 1, sp_precision = - 1, sp_prefix = NUL, sp_reverse_padding = False,
     sp_zero_padding = False, sp_is_hash = False, sp_is_space = False, sp_is_plus = False,
     sp_length_modifier = LM_None\<rparr>"

text \<open>How a conversion can end the call.\<close>

datatype printf_stop = FormatEnds | OutOfBounds | BadArgument | DoubleConversion

text \<open>
  What a case of the switch writes itself: \<open>PutChar\<close>, the unchecked \<open>str[i++]\<close>, or the number of
  characters so far to an address.
\<close>

datatype printf_item = Put char | Raw char | StoreN u64

definition kIsLower :: nat where "kIsLower = 0x20"

definition kBufferSize :: nat where "kBufferSize = 1024 * 2"

definition PutChar :: "char \<Rightarrow> printf_buf \<Rightarrow> printf_buf" where
  "PutChar c b = (if length (pb_str b) > 0
     then b\<lparr>pb_str := (pb_str b)[(if pb_i b < length (pb_str b) then pb_i b else length (pb_str b) - 1) := c],
            pb_i := pb_i b + 1\<rparr>
     else b)"

fun PutChars :: "char list \<Rightarrow> printf_buf \<Rightarrow> printf_buf" where
  "PutChars [] b = b"
| "PutChars (c # cs) b = PutChars cs (PutChar c b)"

fun run_item :: "printf_buf \<Rightarrow> printf_item \<Rightarrow> printf_buf option" where
  "run_item b (Put c) = Some (PutChar c b)"
| "run_item b (Raw c) = (if pb_i b < length (pb_str b)
     then Some (b\<lparr>pb_str := (pb_str b)[pb_i b := c], pb_i := pb_i b + 1\<rparr>) else None)"
| "run_item b (StoreN a) = Some (b\<lparr>pb_n := pb_n b @ [(a, pb_i b)]\<rparr>)"

section \<open>Numbers\<close>

abbreviation (input) is_digit :: "char \<Rightarrow> bool" where
  "is_digit c \<equiv> 48 \<le> (of_char c :: nat) \<and> (of_char c :: nat) \<le> 57"

fun GetDecimal :: "int \<Rightarrow> char list \<Rightarrow> int \<times> char list" where
  "GetDecimal i [] = (i, [])"
| "GetDecimal i (c # str) =
     (if is_digit c then GetDecimal (to_int32 (i * 10 + (of_char c - 48))) str else (i, c # str))"

text \<open>\<open>va_arg\<close> with the type the length modifier selects, widened to \<open>uintmax_t\<close>.\<close>

definition int_arg :: "LengthModifier \<Rightarrow> bool \<Rightarrow> u64 \<Rightarrow> u64" where
  "int_arg lm unsigned_conv w = (case lm of
     LM_h \<Rightarrow> if unsigned_conv then take_bit 16 w else signed_take_bit 15 w
   | LM_hh \<Rightarrow> if unsigned_conv then take_bit 8 w else signed_take_bit 7 w
   | LM_None \<Rightarrow> if unsigned_conv then take_bit 32 w else signed_take_bit 31 w
   | _ \<Rightarrow> w)"

definition char_or :: "char \<Rightarrow> nat \<Rightarrow> char" where
  "char_or c lower = char_of ((of_char c :: nat) OR lower)"

lemma shift4_smaller: "num \<noteq> 0 \<Longrightarrow> unat (drop_bit 4 num) < unat (num :: u64)"
  by (simp add: drop_bit_eq_div unat_div unat_gt_0)

lemma shift3_smaller: "num \<noteq> 0 \<Longrightarrow> unat (drop_bit 3 num) < unat (num :: u64)"
  by (simp add: drop_bit_eq_div unat_div unat_gt_0)

function hex_loop :: "u64 \<Rightarrow> nat \<Rightarrow> char list" where
  "hex_loop num lower = (if num = 0 then []
     else char_or (''0123456789ABCDEF'' ! unat (num AND 15)) lower # hex_loop (drop_bit 4 num) lower)"
  by auto
termination by (relation "measure (\<lambda>(num, _). unat num)") (auto intro: shift4_smaller)

function oct_loop :: "u64 \<Rightarrow> char list" where
  "oct_loop num = (if num = 0 then []
     else digit_char (num AND 7) # oct_loop (drop_bit 3 num))"
  by auto
termination by (relation "measure unat") (auto intro: shift3_smaller)

declare hex_loop.simps [simp del] oct_loop.simps [simp del]

definition FormatHex :: "u64 \<Rightarrow> nat \<Rightarrow> bool \<Rightarrow> int \<Rightarrow> bool \<Rightarrow> int \<Rightarrow> char list" where
  "FormatHex num lower prefix precision zeroPadding width =
    (if num = 0 then (if precision = - 1 then ''0'' else replicate (nat precision) (CHR ''0''))
     else let
       str = hex_loop num lower;
       zeros = (if precision \<noteq> - 1 then precision - int (length str)
                else width - int (length str) - (if prefix then 2 else 0));
       str = (if zeroPadding then str @ replicate (nat zeros) (CHR ''0'') else str);
       str = (if prefix then str @ [char_or (CHR ''X'') lower, CHR ''0''] else str)
     in ReverseString str (length str))"

definition FormatOct :: "u64 \<Rightarrow> bool \<Rightarrow> int \<Rightarrow> bool \<Rightarrow> int \<Rightarrow> char list" where
  "FormatOct num prefix precision zeroPadding width =
    (if num = 0 then (if precision = - 1 then ''0'' else replicate (nat precision) (CHR ''0''))
     else let
       str = oct_loop num;
       zeros = (if precision \<noteq> - 1 then precision - int (length str) - (if prefix then 1 else 0)
                else width - int (length str) - (if prefix then 1 else 0));
       str = (if zeroPadding then str @ replicate (nat zeros) (CHR ''0'') else str);
       str = (if prefix then str @ [CHR ''0''] else str)
     in ReverseString str (length str))"

section \<open>Conversions\<close>

text \<open>The cases of the switch: the changed specification and the characters of \<open>data\<close>.\<close>

definition conv_decimal :: "printf_spec \<Rightarrow> char \<Rightarrow> u64 \<Rightarrow> printf_spec \<times> char list" where
  "conv_decimal sp c w = (
     let d = int_arg (sp_length_modifier sp) (c = CHR ''u'') w;
         negative = (c \<noteq> CHR ''u'' \<and> sint d < 0);
         d = (if negative then - d else d);
         sp = (if negative then sp\<lparr>sp_prefix := CHR ''-'', sp_width := sp_width sp - 1\<rparr>
               else if sp_is_plus sp then sp\<lparr>sp_prefix := CHR ''+'', sp_width := sp_width sp - 1\<rparr>
               else if sp_is_space sp then sp\<lparr>sp_prefix := CHR '' '', sp_width := sp_width sp - 1\<rparr>
               else sp);
         sp = (if sp_precision sp \<noteq> - 1 then sp\<lparr>sp_zero_padding := False\<rparr> else sp)
     in (sp, FormatUInt d))"

definition conv_hex :: "printf_spec \<Rightarrow> char \<Rightarrow> u64 \<Rightarrow> printf_spec \<times> char list" where
  "conv_hex sp c w = (
     if c = CHR ''p'' \<and> w = 0 then (sp\<lparr>sp_zero_padding := False, sp_precision := 0\<rparr>, ''(nil)'')
     else let
       x = (if c = CHR ''p'' then w else int_arg (sp_length_modifier sp) True w);
       sp = (if c = CHR ''p'' then sp\<lparr>sp_is_hash := True\<rparr> else sp);
       lower = (of_char c :: nat) AND kIsLower
     in if sp_precision sp \<ge> 0
        then (sp\<lparr>sp_zero_padding := False\<rparr>, FormatHex x lower (sp_is_hash sp) (sp_precision sp) True (- 1))
        else if sp_zero_padding sp
        then (if x \<noteq> 0 then sp\<lparr>sp_zero_padding := False\<rparr> else sp,
              FormatHex x lower (sp_is_hash sp) (- 1) True (sp_width sp))
        else (sp, FormatHex x lower (sp_is_hash sp) (- 1) False (- 1)))"

definition conv_oct :: "printf_spec \<Rightarrow> u64 \<Rightarrow> printf_spec \<times> char list" where
  "conv_oct sp w = (
     let x = int_arg (sp_length_modifier sp) True w
     in if sp_precision sp \<ge> 0
        then (sp\<lparr>sp_zero_padding := False\<rparr>, FormatOct x (sp_is_hash sp) (sp_precision sp) True (- 1))
        else if sp_zero_padding sp
        then (if x \<noteq> 0 then sp\<lparr>sp_zero_padding := False\<rparr> else sp,
              FormatOct x (sp_is_hash sp) (- 1) True (sp_width sp))
        else (sp, FormatOct x (sp_is_hash sp) (- 1) False (- 1)))"

definition conv_string :: "printf_spec \<Rightarrow> char list option \<Rightarrow> printf_spec \<times> char list" where
  "conv_string sp s = (case s of
     None \<Rightarrow> (sp\<lparr>sp_zero_padding := False, sp_precision := 0\<rparr>, ''(null)'')
   | Some data \<Rightarrow> (sp\<lparr>sp_zero_padding := False\<rparr>,
       if sp_precision sp \<ge> 0 \<and> int (length data) > sp_precision sp
       then take (nat (sp_precision sp)) data else data))"

definition conv_char :: "printf_spec \<Rightarrow> u64 \<Rightarrow> printf_spec \<times> char list" where
  "conv_char sp w = (sp\<lparr>sp_precision := - 1, sp_zero_padding := False\<rparr>, [char_of (unat w)])"

fun modifier_of :: "char \<Rightarrow> LengthModifier" where
  "modifier_of c =
    (if c = CHR ''h'' then LM_h else if c = CHR ''l'' then LM_l else if c = CHR ''j'' then LM_j
     else if c = CHR ''z'' then LM_z else LM_t)"

text \<open>The next modifier, \<open>None\<close> when the combination is refused.\<close>

definition next_modifier :: "LengthModifier \<Rightarrow> char \<Rightarrow> LengthModifier option" where
  "next_modifier lm c =
    (if c = CHR ''h'' \<and> lm = LM_h then Some LM_hh
     else if c = CHR ''l'' \<and> lm = LM_l then Some LM_ll
     else if lm = LM_None then Some (modifier_of c)
     else None)"

type_synonym conversion = "printf_spec \<times> printf_item list \<times> char list \<times> va_arg list \<times> char list"

text \<open>The local buffer holds the characters and the terminator.\<close>

definition in_buffer ::
  "printf_spec \<times> char list \<Rightarrow> va_arg list \<Rightarrow> char list \<Rightarrow> (printf_stop, conversion) expected"
where
  "in_buffer r va iter = (case r of (sp, data) \<Rightarrow>
     if length data < kBufferSize then Inr (sp, [], data, va, iter) else Inl OutOfBounds)"

lemma GetDecimal_le: "GetDecimal i str = (n, rest) \<Longrightarrow> length rest \<le> length str"
  by (induction i str arbitrary: n rest rule: GetDecimal.induct) (force split: if_splits)+

text \<open>
  The switch, from the character after the percent sign on. The arguments left and the format after
  the conversion character are part of the result.
\<close>

function directive :: "printf_spec \<Rightarrow> va_arg list \<Rightarrow> char list \<Rightarrow> (printf_stop, conversion) expected" where
  "directive sp va [] = Inl FormatEnds"
| "directive sp va (c # iter) =
    (if c = CHR ''%'' then Inr (sp, [Raw (CHR ''%'')], [], va, iter)
     else if c = CHR ''-'' then directive (sp\<lparr>sp_reverse_padding := True\<rparr>) va iter
     else if c = CHR ''.'' then directive (sp\<lparr>sp_precision := 0\<rparr>) va iter
     else if c = CHR ''0'' \<and> sp_width sp < 0 \<and> sp_precision sp < 0 \<and> \<not> sp_zero_padding sp \<and>
             \<not> sp_reverse_padding sp
     then directive (sp\<lparr>sp_zero_padding := True\<rparr>) va iter
     else if is_digit c then
       let (n, iter') = GetDecimal 0 (c # iter) in
       directive (if sp_precision sp \<ge> 0 then sp\<lparr>sp_precision := n\<rparr> else sp\<lparr>sp_width := n\<rparr>) va iter'
     else if c = CHR ''*'' then (case va of
         VaInt w # va' \<Rightarrow>
           (let n = sint (signed_take_bit 31 w) in
            if sp_precision sp \<ge> 0 then directive (sp\<lparr>sp_precision := n\<rparr>) va' iter
            else if n < 0
            then directive (sp\<lparr>sp_width := n * - 1, sp_reverse_padding := True\<rparr>) va' iter
            else directive (sp\<lparr>sp_width := n\<rparr>) va' iter)
       | _ \<Rightarrow> Inl BadArgument)
     else if c = CHR ''+'' then directive (sp\<lparr>sp_is_plus := True\<rparr>) va iter
     else if c = CHR '' '' then directive (sp\<lparr>sp_is_space := True\<rparr>) va iter
     else if c = CHR ''#'' then directive (sp\<lparr>sp_is_hash := True\<rparr>) va iter
     else if c \<in> set ''hljzt'' then (case next_modifier (sp_length_modifier sp) c of
         Some lm \<Rightarrow> directive (sp\<lparr>sp_length_modifier := lm\<rparr>) va iter
       | None \<Rightarrow> Inr (sp, [Put (CHR ''%''), Put c], [], va, iter))
     else if c \<in> set ''diu'' then (case va of
         VaInt w # va' \<Rightarrow> in_buffer (conv_decimal sp c w) va' iter
       | _ \<Rightarrow> Inl BadArgument)
     else if c \<in> set ''pxX'' then (case va of
         VaInt w # va' \<Rightarrow> in_buffer (conv_hex sp c w) va' iter
       | _ \<Rightarrow> Inl BadArgument)
     else if c = CHR ''o'' then (case va of
         VaInt w # va' \<Rightarrow> in_buffer (conv_oct sp w) va' iter
       | _ \<Rightarrow> Inl BadArgument)
     else if c \<in> set ''fFeEgGaA'' then (case va of
         VaDouble _ # _ \<Rightarrow> Inl DoubleConversion
       | _ \<Rightarrow> Inl BadArgument)
     else if c = CHR ''s'' then (case va of
         VaStr s # va' \<Rightarrow> (case conv_string sp s of (sp', data) \<Rightarrow> Inr (sp', [], data, va', iter))
       | _ \<Rightarrow> Inl BadArgument)
     else if c = CHR ''c'' then (case va of
         VaInt w # va' \<Rightarrow> in_buffer (conv_char sp w) va' iter
       | _ \<Rightarrow> Inl BadArgument)
     else if c = CHR ''n'' then (case va of
         VaInt a # va' \<Rightarrow> Inr (sp, [StoreN a], [], va', iter)
       | _ \<Rightarrow> Inl BadArgument)
     else Inr (sp, [Put (CHR ''%''), Put c], [], va, iter))"
  by pat_completeness auto
termination
  by (relation "measure (\<lambda>(_, _, iter). length iter)") (auto dest!: GetDecimal_le [OF sym])

declare directive.simps [simp del]

text \<open>
  The last part of the loop body: padding, prefix, zeros and data. A loop \<open>while (width-- > 0)\<close> leaves
  \<open>width\<close> negative, so only one of the two loops over it writes.
\<close>

definition padded :: "printf_spec \<Rightarrow> char list \<Rightarrow> char list" where
  "padded sp data = (
     let conversion_length = int (length data);
         precision = (if sp_precision sp < 0 \<and> sp_zero_padding sp then sp_width sp else sp_precision sp);
         width = sp_width sp - conversion_length;
         precision = precision - conversion_length;
         width = (if precision > 0 then width - precision else width);
         left = \<not> sp_reverse_padding sp \<and> \<not> sp_zero_padding sp
     in (if left then replicate (nat width) (CHR '' '') else []) @
        (if sp_prefix sp \<noteq> NUL then [sp_prefix sp] else []) @
        replicate (nat precision) (CHR ''0'') @ data @
        (if left then [] else replicate (nat width) (CHR '' '')))"

text \<open>Every conversion reads at least one character of the format.\<close>

definition shortens :: "nat \<Rightarrow> (printf_stop, conversion) expected \<Rightarrow> bool" where
  "shortens n r \<longleftrightarrow> (case r of Inl _ \<Rightarrow> True | Inr (_, _, _, _, rest) \<Rightarrow> length rest < n)"

lemma shortens_simps [simp]:
  "shortens n (Inl e)" "shortens n (Inr (sp, items, data, va, rest)) \<longleftrightarrow> length rest < n"
  "length rest < n \<Longrightarrow> shortens n (in_buffer r va rest)"
  by (auto simp: shortens_def in_buffer_def split: prod.splits)

lemma shortens_intros:
  "(b \<Longrightarrow> shortens n x) \<Longrightarrow> shortens n y \<Longrightarrow> shortens n (if b then x else y)"
  "shortens n x \<Longrightarrow> (\<And>a va. shortens n (l a va)) \<Longrightarrow> shortens n (case_list x l va)"
  "(\<And>w. shortens n (f w)) \<Longrightarrow> (\<And>w. shortens n (g w)) \<Longrightarrow> (\<And>w. shortens n (h w)) \<Longrightarrow> shortens n (case_va_arg f g h a)"
  "shortens n x \<Longrightarrow> (\<And>lm. shortens n (f' lm)) \<Longrightarrow> shortens n (case_option x f' m)"
  "(\<And>sp data. shortens n (g' sp data)) \<Longrightarrow> shortens n (case_prod g' r)"
  by (auto split: list.split va_arg.split option.split prod.split)

lemma directive_shortens: "shortens (length iter) (directive sp va iter)"
proof (induction "length iter" arbitrary: sp va iter rule: less_induct)
  case less
  show ?case
  proof (cases iter)
    case (Cons c it)
    have IH: "shortens (Suc (length it)) (directive sp va it')" if "length it' \<le> length it" for sp va it'
      using less [of it' sp va] that Cons by (auto simp: shortens_def split: sum.splits)
    have digits: "shortens (Suc (length it)) (let (n, it') = GetDecimal 0 (c # it) in directive (f n) va it')"
      if "is_digit c" for f va
      using that by (auto split: prod.split dest!: GetDecimal_le intro: IH)
    show ?thesis
      unfolding Cons directive.simps list.size(4) add_0_right add_Suc_right
      by (rule shortens_intros(1) digits IH order.refl shortens_intros(2-) shortens_simps lessI
          shortens_simps(2) [THEN iffD2] | assumption | simp only: Let_def)+
  qed (simp add: directive.simps)
qed

text \<open>\<open>Returns\<close> is the value returned, with the destination.\<close>

datatype printf_result = Returns int printf_buf | Stops printf_stop

function vsnprintf_loop :: "printf_buf \<Rightarrow> va_arg list \<Rightarrow> char list \<Rightarrow> printf_result" where
  "vsnprintf_loop b va [] = (let b' = PutChar NUL b in Returns (int (pb_i b') - 1) b')"
| "vsnprintf_loop b va (c # iter) =
    (if c \<noteq> CHR ''%'' then vsnprintf_loop (PutChar c b) va iter
     else case directive init_spec va iter of
       Inl e \<Rightarrow> if e = FormatEnds then Returns (- 1) b else Stops e
     | Inr (sp, items, data, va', rest) \<Rightarrow>
         (case foldM run_item b items of
           None \<Rightarrow> Stops OutOfBounds
         | Some b' \<Rightarrow> vsnprintf_loop (PutChars (padded sp data) b') va' rest))"
  by pat_completeness auto
termination
proof (relation "measure (\<lambda>(_, _, iter). length iter)", goal_cases)
  case (3 b va c iter r sp items data va' rest b')
  then show ?case using directive_shortens [of iter init_spec va] by auto
qed auto

definition vsnprintf :: "char list \<Rightarrow> char list \<Rightarrow> va_arg list \<Rightarrow> printf_result" where
  "vsnprintf str format va = vsnprintf_loop \<lparr>pb_str = str, pb_i = 0, pb_n = []\<rparr> va format"

definition snprintf :: "char list \<Rightarrow> char list \<Rightarrow> va_arg list \<Rightarrow> printf_result" where
  "snprintf str format args = vsnprintf str format args"

section \<open>FormatMetricUint\<close>

definition kPrefixes :: "char list list" where
  "kPrefixes = [[], ''K'', ''M'', ''G'', ''T'', ''P'', ''E'', ''Z'', ''Y'']"

text \<open>\<open>n\<close> is the number of prefixes left.\<close>

fun FormatMetric_loop :: "nat \<Rightarrow> nat \<Rightarrow> u64 \<Rightarrow> nat \<times> u64" where
  "FormatMetric_loop 0 i num = (i, num)"
| "FormatMetric_loop (Suc n) i num =
     (if num \<ge> 1000000 then FormatMetric_loop n (i + 1) (num div 1024) else (i, num))"

definition FormatMetricUint :: "char list \<Rightarrow> u64 \<Rightarrow> printf_result option" where
  "FormatMetricUint buffer num = do {
     let (i, num) = FormatMetric_loop (length kPrefixes) 0 num;
     p \<leftarrow> nth_opt kPrefixes i;
     Some (snprintf buffer ''%lld %s'' [VaInt num, VaStr (Some p)]) }"

section \<open>The text of a format\<close>

text \<open>
  The specification: the characters a call produces, with no destination. \<open>None\<close> is a call that has no
  text, because the format ends inside a conversion or an argument does not fit.
\<close>

fun item_text :: "printf_item \<Rightarrow> char list" where
  "item_text (Put c) = [c]"
| "item_text (Raw c) = [c]"
| "item_text (StoreN a) = []"

function expand :: "va_arg list \<Rightarrow> char list \<Rightarrow> char list option" where
  "expand va [] = Some []"
| "expand va (c # iter) =
    (if c \<noteq> CHR ''%'' then map_option (Cons c) (expand va iter)
     else case directive init_spec va iter of
       Inl _ \<Rightarrow> None
     | Inr (sp, items, data, va', rest) \<Rightarrow>
         map_option (append (concat (map item_text items) @ padded sp data)) (expand va' rest))"
  by pat_completeness auto
termination
proof (relation "measure (\<lambda>(_, iter). length iter)", goal_cases)
  case (3 va c iter r sp items data va' rest)
  then show ?case using directive_shortens [of iter init_spec va] by auto
qed auto

text \<open>
  The destination after the characters \<open>s\<close>: the text as far as it has room, the last character
  overwritten by the latest one.
\<close>

definition shows_text :: "char list \<Rightarrow> char list \<Rightarrow> printf_buf \<Rightarrow> bool" where
  "shows_text str s b \<longleftrightarrow> pb_i b = length s \<and>
     pb_str b = (if length s \<le> length str then s @ drop (length s) str else take (length str - 1) s @ [last s])"

lemma shows_text_length: "shows_text str s b \<Longrightarrow> str \<noteq> [] \<Longrightarrow> length (pb_str b) = length str"
  by (auto simp: shows_text_def min_def not_le Suc_le_eq)

lemma shows_text_in_place:
  assumes "shows_text str s b" and "length s < length str"
  shows "shows_text str (s @ [c]) (b\<lparr>pb_str := (pb_str b)[pb_i b := c], pb_i := pb_i b + 1\<rparr>)"
proof -
  obtain d str' where "drop (length s) str = d # str'"
    using assms(2) by (metis Cons_nth_drop_Suc)
  moreover from this have "drop (Suc (length s)) str = str'"
    by (metis drop_Suc list.sel(3) tl_drop)
  ultimately show ?thesis using assms by (auto simp: shows_text_def)
qed

lemma PutChar_shows:
  assumes "shows_text str s b" and "str \<noteq> []"
  shows "shows_text str (s @ [c]) (PutChar c b)"
proof (cases "length s < length str")
  case True
  have "PutChar c b = b\<lparr>pb_str := (pb_str b)[pb_i b := c], pb_i := pb_i b + 1\<rparr>"
    using True assms shows_text_length [OF assms] by (simp add: PutChar_def shows_text_def)
  then show ?thesis using shows_text_in_place [OF assms(1) True] by simp
next
  case False
  have "pb_str b = take (length str - 1) s @ [last s]"
  proof (cases "length s = length str")
    case True
    then have "s \<noteq> []" using assms(2) by auto
    then have "s = take (length str - 1) s @ [last s]"
      using append_butlast_last_id [of s] unfolding True [symmetric] by (simp add: butlast_conv_take)
    then show ?thesis using assms(1) True by (simp add: shows_text_def)
  qed (use assms(1) False in \<open>simp add: shows_text_def\<close>)
  moreover have "length (take (length str - 1) s) = length str - 1" using False by simp
  ultimately have upd: "(pb_str b)[length str - 1 := c] = take (length str - 1) s @ [c]"
    by (metis list_update_length)
  have "PutChar c b = b\<lparr>pb_str := take (length str - 1) s @ [c], pb_i := length s + 1\<rparr>"
    using False assms shows_text_length [OF assms] upd by (simp add: PutChar_def shows_text_def)
  then show ?thesis using False by (simp add: shows_text_def not_less)
qed

lemma PutChars_shows:
  "shows_text str s b \<Longrightarrow> str \<noteq> [] \<Longrightarrow> shows_text str (s @ cs) (PutChars cs b)"
proof (induction cs arbitrary: s b)
  case (Cons c cs)
  then show ?case using PutChar_shows [OF Cons.prems, of c] Cons.IH [of "s @ [c]" "PutChar c b"] by simp
qed simp

lemma run_items_shows:
  assumes "shows_text str s b" and "str \<noteq> []"
  shows "case foldM run_item b items of
      Some b' \<Rightarrow> shows_text str (s @ concat (map item_text items)) b'
    | None \<Rightarrow> length str < length (s @ concat (map item_text items))"
  using assms
proof (induction items arbitrary: s b)
  case (Cons item items)
  have step: "case run_item b item of Some b' \<Rightarrow> shows_text str (s @ item_text item) b'
    | None \<Rightarrow> length str \<le> length s \<and> item_text item \<noteq> []"
  proof (cases item)
    case (Raw c)
    then show ?thesis
      using Cons.prems shows_text_in_place [OF Cons.prems(1)] shows_text_length [OF Cons.prems]
      by (auto simp: shows_text_def)
  next
    case (StoreN a)
    then show ?thesis using Cons.prems by (simp add: shows_text_def)
  qed (use PutChar_shows [OF Cons.prems] in simp)
  show ?case
  proof (cases "run_item b item")
    case None
    then show ?thesis using step by (cases "item_text item") auto
  next
    case (Some b')
    then show ?thesis
      using step Cons.IH [of "s @ item_text item" b'] Cons.prems(2)
      by (cases "foldM run_item b' items") auto
  qed
qed simp

lemma vsnprintf_loop_shows:
  assumes "shows_text str s b" and "str \<noteq> []" and "expand va format = Some s'"
  shows "vsnprintf_loop b va format = Stops OutOfBounds \<and> length str < length (s @ s') \<or>
    (\<exists>b'. vsnprintf_loop b va format = Returns (int (length (s @ s'))) b' \<and> shows_text str (s @ s' @ [NUL]) b')"
  using assms
proof (induction b va format arbitrary: s s' rule: vsnprintf_loop.induct)
  case (1 b va)
  note shown = PutChar_shows [OF 1(1,2), of NUL]
  then have "pb_i (PutChar NUL b) = Suc (length s)" by (simp add: shows_text_def)
  then show ?case using shown 1(3) by simp
next
  case (2 b va c iter)
  show ?case
  proof (cases "c = CHR ''%''")
    case False
    then obtain s1 where s1: "expand va iter = Some s1" "s' = c # s1" using 2(5) by auto
    show ?thesis using 2(1) [OF False PutChar_shows [OF 2(3,4)] 2(4) s1(1)] False s1(2) by simp
  next
    case True
    then obtain sp items data va' rest s1 where
      d: "directive init_spec va iter = Inr (sp, items, data, va', rest)" and
      s1: "expand va' rest = Some s1" "s' = concat (map item_text items) @ padded sp data @ s1"
      using 2(5) by (cases "directive init_spec va iter") (auto split: prod.splits)
    show ?thesis
    proof (cases "foldM run_item b items")
      case None
      then have "length str < length (s @ concat (map item_text items))"
        using run_items_shows [OF 2(3,4), of items] by simp
      then show ?thesis using None True d s1(2) by simp
    next
      case (Some b')
      then have "shows_text str (s @ concat (map item_text items)) b'"
        using run_items_shows [OF 2(3,4), of items] by simp
      note shown = PutChars_shows [OF this 2(4), of "padded sp data"]
      have "vsnprintf_loop b va (c # iter) = vsnprintf_loop (PutChars (padded sp data) b') va' rest"
        using True d Some by simp
      then show ?thesis
        using 2(2) [OF _ d refl refl refl refl Some shown 2(4) s1(1)] True s1(2) by simp
    qed
  qed
qed

lemma vsnprintf_shows:
  assumes "str \<noteq> []" and "expand va format = Some s"
  shows "vsnprintf str format va = Stops OutOfBounds \<and> length str < length s \<or>
    (\<exists>b. vsnprintf str format va = Returns (int (length s)) b \<and> shows_text str (s @ [NUL]) b)"
  using vsnprintf_loop_shows [of str "[]" "\<lparr>pb_str = str, pb_i = 0, pb_n = []\<rparr>" va format s] assms
  by (simp add: vsnprintf_def shows_text_def)

text \<open>The end of the text in the destination.\<close>

definition terminated :: "char list \<Rightarrow> char list \<Rightarrow> char list" where
  "terminated str s = (if length s < length str then s @ [NUL] @ drop (length s + 1) str
     else take (length str - 1) s @ [NUL])"

lemma shows_text_terminated: "shows_text str (s @ [NUL]) b \<Longrightarrow> pb_str b = terminated str s"
  by (auto simp: shows_text_def terminated_def)

section \<open>Numerals\<close>

lemma of_char_digit: "n < 10 \<Longrightarrow> (of_char (char_of (48 + n :: nat)) :: nat) = 48 + n"
  by (simp add: of_char_of)

lemma atoi_digits_dec: "atoi_digits r (dec n @ rest) = atoi_digits (r * 10 ^ length (dec n) + of_nat n) rest"
proof (induction n arbitrary: rest rule: dec.induct)
  case (1 n)
  show ?case
  proof (cases "n < 10")
    case True
    then show ?thesis by (simp add: dec.simps of_char_digit)
  next
    case False
    have "of_nat n = (of_nat (n div 10) * 10 + of_nat (n mod 10) :: 32 word)"
      by (metis div_mult_mod_eq of_nat_add of_nat_mult of_nat_numeral)
    then show ?thesis
      using False by (subst (1 2) dec.simps) (simp add: 1 of_char_digit algebra_simps less_Suc_eq_le [of "n mod 10" 9, symmetric])
  qed
qed

lemma dec_head: "\<exists>m rest. dec n = char_of (48 + m) # rest \<and> m < (10 :: nat)"
proof (induction n rule: dec.induct)
  case (1 n)
  show ?case
  proof (cases "n < 10")
    case False
    with 1 obtain m rest where "dec (n div 10) = char_of (48 + m) # rest" "m < (10 :: nat)" by blast
    then have "dec n = char_of (48 + m) # rest @ [char_of (48 + n mod 10)]"
      using False by (subst dec.simps) simp
    then show ?thesis using \<open>m < 10\<close> by blast
  qed (metis dec.simps)
qed

lemma atoi_dec: "atoi (dec n) = of_nat n" "atoi (CHR ''-'' # dec n) = - of_nat n"
proof -
  obtain m rest where m: "dec n = char_of (48 + m) # rest" "m < (10 :: nat)" using dec_head by blast
  have ne: "char_of (48 + m) \<noteq> c" if "(of_char c :: nat) < 48" for c
    using that of_char_digit [OF m(2)] by auto
  have "atoi_digits 0 (dec n) = of_nat n" using atoi_digits_dec [of 0 n "[]"] by simp
  then show "atoi (dec n) = of_nat n" "atoi (CHR ''-'' # dec n) = - of_nat n"
    using m(1) by (simp_all add: atoi_def ne)
qed

lemma length_dec_le: "n < 10 ^ Suc k \<Longrightarrow> length (dec n) \<le> Suc k"
proof (induction k arbitrary: n)
  case (Suc k)
  then have "n div 10 < 10 ^ Suc k" by (simp add: less_mult_imp_div_less mult.commute)
  from Suc.IH [OF this] show ?case by (subst dec.simps) simp
qed (simp add: dec.simps)

lemma sign_extend_32:
  fixes w :: u64
  defines "x \<equiv> sint (ucast w :: 32 word)"
  shows "signed_take_bit 31 w = word_of_int x" and "- (2 ^ 31) \<le> x" and "x < 2 ^ 31"
    and "sint (word_of_int x :: u64) = x"
proof -
  have "signed_take_bit 31 w = (scast (ucast w :: 32 word) :: u64)"
    by (rule bit_word_eqI) (auto simp: bit_signed_take_bit_iff bit_signed_iff bit_unsigned_iff min_def)
  then show "signed_take_bit 31 w = word_of_int x" by (simp add: x_def of_int_sint)
  show r: "- (2 ^ 31) \<le> x" "x < 2 ^ 31"
    using sint_ge [of "ucast w :: 32 word"] sint_lt [of "ucast w :: 32 word"] by (simp_all add: x_def)
  then show "sint (word_of_int x :: u64) = x"
    by (simp add: signed_of_int signed_take_bit_int_eq_self)
qed

lemma expand_d:
  fixes w :: u64
  defines "x \<equiv> sint (ucast w :: 32 word)"
  shows "expand [VaInt w] ''%d'' = Some ((if x < 0 then ''-'' else []) @ dec (nat \<bar>x\<bar>))"
proof -
  note x = sign_extend_32 [of w, folded x_def]
  let ?n = "nat \<bar>x\<bar>"
  have n: "unat (if x < 0 then - word_of_int x else word_of_int x :: u64) = ?n"
  proof -
    have "(if x < 0 then - word_of_int x else word_of_int x :: u64) = word_of_int \<bar>x\<bar>" by simp
    moreover have "\<bar>x\<bar> mod 2 ^ 64 = \<bar>x\<bar>" using x(2,3) by (intro mod_pos_pos_trivial) auto
    ultimately show ?thesis by (simp only: unat_word_of_int64)
  qed
  have "?n < 10 ^ Suc 9" using x(2,3) by auto
  then have "length (dec ?n) \<le> 10" using length_dec_le [of ?n 9] by simp
  then have len: "length (dec ?n) < kBufferSize" by (simp add: kBufferSize_def)
  let ?sp = "if x < 0 then init_spec\<lparr>sp_prefix := CHR ''-'', sp_width := - 2\<rparr> else init_spec"
  have conv: "conv_decimal init_spec (CHR ''d'') w = (?sp, dec ?n)"
    unfolding conv_decimal_def int_arg_def FormatUInt_dec Let_def
    using n x(4) by (auto simp: init_spec_def x(1) split: if_splits)
  have "directive init_spec [VaInt w] ''d'' = in_buffer (conv_decimal init_spec (CHR ''d'') w) [] []"
    by (subst directive.simps) simp
  then have "directive init_spec [VaInt w] ''d'' = Inr (?sp, [], dec ?n, [], [])"
    unfolding conv using len by (simp add: in_buffer_def)
  then show ?thesis by (simp add: padded_def init_spec_def Let_def)
qed

lemma of_nat_abs_32:
  fixes w :: u64
  defines "x \<equiv> sint (ucast w :: 32 word)"
  shows "(if x < 0 then - 1 else 1) * of_nat (nat \<bar>x\<bar>) = (ucast w :: 32 word)"
proof -
  have "(if x < 0 then - 1 else 1) * of_nat (nat \<bar>x\<bar>) = (of_int x :: 32 word)" by simp
  then show ?thesis by (simp add: x_def)
qed

lemma expand_precision_s:
  assumes "n < 2 ^ 31" and "length s < n"
  shows "expand [VaInt (of_nat n), VaStr (Some s)] ''%.*s'' = Some (replicate (n - length s) (CHR ''0'') @ s)"
proof -
  have "sint (signed_take_bit 31 (of_nat n :: u64)) = int n"
  proof -
    have "ucast (of_nat n :: u64) = (of_nat n :: 32 word)"
      using assms(1) by (simp add: unsigned_of_nat take_bit_nat_eq_self)
    moreover have "sint (of_nat n :: 32 word) = int n"
      using assms(1) by (simp add: signed_of_nat signed_take_bit_int_eq_self)
    ultimately show ?thesis using sign_extend_32(1,4) [of "of_nat n"] by simp
  qed
  then show ?thesis
    using assms(2) by (simp add: directive.simps init_spec_def conv_string_def padded_def Let_def nat_diff_distrib)
qed

lemma percent_out_of_bounds:
  assumes "CHR ''%'' \<notin> set s" and "pb_str b = [] \<or> length (pb_str b) \<le> pb_i b + length s"
  shows "vsnprintf_loop b va (s @ ''%%'') = Stops OutOfBounds"
  using assms
proof (induction s arbitrary: b)
  case Nil
  then show ?case by (auto simp: directive.simps)
next
  case (Cons c s)
  then show ?case by (auto simp: PutChar_def)
qed

section \<open>Properties\<close>



text \<open>
  A precision larger than the length of the argument of \<open>%s\<close> pads the string with zeros on the
  left, where the C standard has a maximum that does not pad.
\<close>
theorem string_precision_pads_zeros:
  assumes "n < 2 ^ 31" and "length s < n" and "n < length str"
  shows "\<exists>b. vsnprintf str ''%.*s'' [VaInt (of_nat n), VaStr (Some s)] = Returns (int n) b \<and>
    pb_str b = replicate (n - length s) (CHR ''0'') @ s @ [NUL] @ drop (n + 1) str"
proof -
  have "str \<noteq> []" using assms by auto
  from vsnprintf_shows [OF this expand_precision_s [OF assms(1,2)]] assms obtain b where
    b: "vsnprintf str ''%.*s'' [VaInt (of_nat n), VaStr (Some s)] = Returns (int n) b"
    "shows_text str ((replicate (n - length s) (CHR ''0'') @ s) @ [NUL]) b" by auto
  from b(1) shows_text_terminated [OF b(2)] assms show ?thesis by (simp add: terminated_def)
qed

text \<open>
  Two percent signs in the format are written without a look at the size of the destination:
  when the text before them fills it, the write is out of bounds.
\<close>
theorem percent_overruns:
  assumes "CHR ''%'' \<notin> set s" and "length str \<le> length s"
  shows "vsnprintf str (s @ ''%%'') va = Stops OutOfBounds"
  unfolding vsnprintf_def using assms by (intro percent_out_of_bounds) auto



theorem string_precision_pads_zeros_witness:
  "\<exists>b. vsnprintf (replicate 8 NUL) ''%.*s'' [VaInt (of_nat 5), VaStr (Some ''ab'')] = Returns (int 5) b \<and>
     pb_str b = ''000'' @ ''ab'' @ [NUL] @ drop 6 (replicate 8 NUL)"
proof -
  have three: "replicate (5 - length ''ab'') (CHR ''0'') = ''000''" by (simp add: numeral_eq_Suc)
  show ?thesis
    using string_precision_pads_zeros [of 5 "''ab''" "replicate 8 NUL"] unfolding three by simp
qed

theorem percent_overruns_witness:
  "vsnprintf ''....'' (''100 '' @ ''%%'') [] = Stops OutOfBounds"
  by (rule percent_overruns) simp_all

end
