(* ===== verification/Fat_Disk.thy ===== *)
theory Fat_Disk
  imports Mem_Types Libc_String
begin

text \<open>
  The storage below the FAT file systems: the in-memory sector device
  (\<open>kernel/src/fs/vfs/io/in_memory.hpp\<close>), typed access to a span of bytes
  (\<open>libs/libcpp/include/internal/span.hpp\<close>), the boot sector with its validation and
  the directory entries with their encoding (\<open>kernel/src/fs/vfs/fat/fat.hpp\<close>).

  The device is the memory of the disk image. \<open>ReadRange\<close> copies into a buffer of 64 KiB, so that a
  span is a list of bytes; every caller uses it before the next read. An \<open>ASSERT\<close> that
  fails is \<open>None\<close>.
\<close>

section \<open>The sector device\<close>

record InMemory =
  im_address :: memory
  im_sector_size :: nat

definition kMaxTempBufSize :: nat where "kMaxTempBufSize = 64 * 1024"

definition bytes_at :: "memory \<Rightarrow> nat \<Rightarrow> nat \<Rightarrow> u8 list" where
  "bytes_at m a n = map m [a..<a + n]"

definition put_bytes :: "memory \<Rightarrow> nat \<Rightarrow> u8 list \<Rightarrow> memory" where
  "put_bytes m a bs = (\<lambda>x. if a \<le> x \<and> x < a + length bs then bs ! (x - a) else m x)"

definition InMemory_ReadRange :: "InMemory \<Rightarrow> nat \<Rightarrow> nat \<Rightarrow> u8 list option" where
  "InMemory_ReadRange io start count = do {
     let total_size = count * im_sector_size io;
     ASSERT (total_size \<le> kMaxTempBufSize);
     Some (bytes_at (im_address io) (start * im_sector_size io) total_size) }"

definition InMemory_ReadSector :: "InMemory \<Rightarrow> nat \<Rightarrow> u8 list option" where
  "InMemory_ReadSector io offset = InMemory_ReadRange io offset 1"

definition InMemory_WriteRange :: "InMemory \<Rightarrow> nat \<Rightarrow> nat \<Rightarrow> u8 list \<Rightarrow> InMemory option" where
  "InMemory_WriteRange io start count data = do {
     ASSERT (length data = count * im_sector_size io);
     Some (io\<lparr>im_address := put_bytes (im_address io) (start * im_sector_size io) data\<rparr>) }"

definition InMemory_WriteSector :: "InMemory \<Rightarrow> nat \<Rightarrow> u8 list \<Rightarrow> InMemory option" where
  "InMemory_WriteSector io offset data = InMemory_WriteRange io offset 1 data"

section \<open>Little-endian access to spans\<close>

definition get_u8 :: "u8 list \<Rightarrow> nat \<Rightarrow> u8 option" where
  "get_u8 s offset = do { ASSERT (offset + 1 \<le> length s); Some (s ! offset) }"

definition get_u16 :: "u8 list \<Rightarrow> nat \<Rightarrow> u16 option" where
  "get_u16 s offset = do {
     ASSERT (offset + 2 \<le> length s);
     Some (ucast (s ! offset) OR push_bit 8 (ucast (s ! (offset + 1)))) }"

definition get_u32 :: "u8 list \<Rightarrow> nat \<Rightarrow> u32 option" where
  "get_u32 s offset = do {
     ASSERT (offset + 4 \<le> length s);
     Some (ucast (s ! offset) OR push_bit 8 (ucast (s ! (offset + 1)))
       OR push_bit 16 (ucast (s ! (offset + 2))) OR push_bit 24 (ucast (s ! (offset + 3)))) }"

definition u16_bytes :: "u16 \<Rightarrow> u8 list" where
  "u16_bytes v = [ucast v, ucast (drop_bit 8 v)]"

definition u32_bytes :: "u32 \<Rightarrow> u8 list" where
  "u32_bytes v = [ucast v, ucast (drop_bit 8 v), ucast (drop_bit 16 v), ucast (drop_bit 24 v)]"

definition overwrite :: "u8 list \<Rightarrow> nat \<Rightarrow> u8 list \<Rightarrow> u8 list" where
  "overwrite s offset bs = take offset s @ bs @ drop (offset + length bs) s"

lemma length_overwrite [simp]: "offset + length bs \<le> length s \<Longrightarrow> length (overwrite s offset bs) = length s"
  by (simp add: overwrite_def)

lemma nth_overwrite:
  "offset + length bs \<le> length s \<Longrightarrow> i < length s \<Longrightarrow>
   overwrite s offset bs ! i = (if offset \<le> i \<and> i < offset + length bs then bs ! (i - offset) else s ! i)"
  by (auto simp: overwrite_def nth_append min_def not_less)

lemma length_u16_bytes [simp]: "length (u16_bytes v) = 2" by (simp add: u16_bytes_def)
lemma length_u32_bytes [simp]: "length (u32_bytes v) = 4" by (simp add: u32_bytes_def)

lemma u16_of_bytes: "ucast (ucast v :: u8) OR push_bit 8 (ucast (ucast (drop_bit 8 v) :: u8)) = (v :: u16)"
  by (rule bit_word_eqI) (auto simp: bit_simps)

lemma u32_of_bytes:
  "ucast (ucast v :: u8) OR push_bit 8 (ucast (ucast (drop_bit 8 v) :: u8))
     OR push_bit 16 (ucast (ucast (drop_bit 16 v) :: u8)) OR push_bit 24 (ucast (ucast (drop_bit 24 v) :: u8))
     = (v :: u32)"
proof (rule bit_word_eqI)
  fix n assume "n < LENGTH(32)"
  then consider "n < 8" | "8 \<le> n" "n < 16" | "16 \<le> n" "n < 24" | "24 \<le> n" "n < 32" by fastforce
  then show "bit (ucast (ucast v :: u8) OR push_bit 8 (ucast (ucast (drop_bit 8 v) :: u8))
     OR push_bit 16 (ucast (ucast (drop_bit 16 v) :: u8)) OR push_bit 24 (ucast (ucast (drop_bit 24 v) :: u8)) :: u32) n
     = bit v n"
    by cases (auto simp: bit_simps)
qed

lemma bytes_of_u16:
  "ucast (ucast a OR push_bit 8 (ucast b) :: u16) = (a :: u8)"
  "ucast (drop_bit 8 (ucast a OR push_bit 8 (ucast b) :: u16)) = (b :: u8)"
  by (rule bit_word_eqI; auto simp: bit_simps dest: bit_imp_le_length)+

lemma bytes_of_u32:
  fixes a b c d :: u8
  defines "w \<equiv> (ucast a OR push_bit 8 (ucast b) OR push_bit 16 (ucast c) OR push_bit 24 (ucast d) :: u32)"
  shows "ucast w = a" "ucast (drop_bit 8 w) = b" "ucast (drop_bit 16 w) = c" "ucast (drop_bit 24 w) = d"
  unfolding w_def by (rule bit_word_eqI; auto simp: bit_simps dest: bit_imp_le_length)+

lemma get_u16_overwrite:
  "offset + 2 \<le> length s \<Longrightarrow> get_u16 (overwrite s offset (u16_bytes v)) offset = Some v"
  by (simp add: get_u16_def nth_overwrite u16_bytes_def u16_of_bytes)

lemma get_u32_overwrite:
  "offset + 4 \<le> length s \<Longrightarrow> get_u32 (overwrite s offset (u32_bytes v)) offset = Some v"
  by (simp add: get_u32_def nth_overwrite u32_bytes_def u32_of_bytes)

text \<open>Reads beside the bytes written.\<close>

lemma get_u16_overwrite_other:
  "offset + length bs \<le> length s \<Longrightarrow> i + 2 \<le> offset \<or> offset + length bs \<le> i \<Longrightarrow>
   get_u16 (overwrite s offset bs) i = get_u16 s i"
  by (auto simp: get_u16_def nth_overwrite ASSERT_bind)

lemma get_u32_overwrite_other:
  "offset + length bs \<le> length s \<Longrightarrow> i + 4 \<le> offset \<or> offset + length bs \<le> i \<Longrightarrow>
   get_u32 (overwrite s offset bs) i = get_u32 s i"
  by (auto simp: get_u32_def nth_overwrite ASSERT_bind)

section \<open>The boot sector\<close>

text \<open>
  \<open>BootSector\<close> with the fields of the common part and, for FAT32, of its extension. The fields
  that no code reads are left out.
\<close>

record BootSector =
  bs_jump_instruction :: "u8 list"
  bs_bytes_per_sector :: u16
  bs_sectors_per_cluster :: u8
  bs_reserved_sectors :: u16
  bs_number_of_fats :: u8
  bs_root_dir_entries :: u16
  bs_total_sectors_word :: u16
  bs_media_descriptor :: u8
  bs_fat_size_word :: u16
  bs_total_sectors_dword :: u32
  bs_fat_size_dword :: u32
  bs_root_cluster :: u32

definition kSignature :: u16 where "kSignature = 0xAA55"

definition kMaxClusterSize :: nat where "kMaxClusterSize = 32768"

definition read_BootSector :: "u8 list \<Rightarrow> BootSector option" where
  "read_BootSector s = do {
     ASSERT (36 \<le> length s);
     bps \<leftarrow> get_u16 s 11; spc \<leftarrow> get_u8 s 13; res \<leftarrow> get_u16 s 14; nf \<leftarrow> get_u8 s 16;
     rde \<leftarrow> get_u16 s 17; tsw \<leftarrow> get_u16 s 19; md \<leftarrow> get_u8 s 21; fsw \<leftarrow> get_u16 s 22;
     tsd \<leftarrow> get_u32 s 32; fsd \<leftarrow> get_u32 s 36; rc \<leftarrow> get_u32 s 44;
     Some \<lparr>bs_jump_instruction = take 3 s, bs_bytes_per_sector = bps, bs_sectors_per_cluster = spc,
       bs_reserved_sectors = res, bs_number_of_fats = nf, bs_root_dir_entries = rde,
       bs_total_sectors_word = tsw, bs_media_descriptor = md, bs_fat_size_word = fsw,
       bs_total_sectors_dword = tsd, bs_fat_size_dword = fsd, bs_root_cluster = rc\<rparr> }"

definition ValidateBootSignature :: "u8 list \<Rightarrow> bool option" where
  "ValidateBootSignature sector_data = do {
     w \<leftarrow> get_u16 sector_data 510;
     Some (w = kSignature) }"

definition ValidateJumpInstruction :: "BootSector \<Rightarrow> bool" where
  "ValidateJumpInstruction bs \<longleftrightarrow>
     bs_jump_instruction bs ! 0 = 0xEB \<and> bs_jump_instruction bs ! 2 = 0x90 \<or>
     bs_jump_instruction bs ! 0 = 0xE9"

definition ValidateSectorAndClusterSize :: "BootSector \<Rightarrow> bool" where
  "ValidateSectorAndClusterSize bs \<longleftrightarrow>
     (if \<not> IsPowerOfTwo (bs_bytes_per_sector bs) \<or> bs_bytes_per_sector bs < 512 \<or>
         bs_bytes_per_sector bs > 4096 then False
      else if \<not> IsPowerOfTwo (bs_sectors_per_cluster bs) \<or> bs_sectors_per_cluster bs < 1 \<or>
         bs_sectors_per_cluster bs > 128 then False
      else unat (bs_bytes_per_sector bs) * unat (bs_sectors_per_cluster bs) \<le> kMaxClusterSize)"

definition ValidateReservedSectors :: "BootSector \<Rightarrow> bool" where
  "ValidateReservedSectors bs \<longleftrightarrow> bs_reserved_sectors bs \<noteq> 0"

definition ValidateFatCount :: "BootSector \<Rightarrow> bool" where
  "ValidateFatCount bs \<longleftrightarrow> bs_number_of_fats bs \<noteq> 0"

definition ValidateMediaDescriptor :: "BootSector \<Rightarrow> bool" where
  "ValidateMediaDescriptor bs \<longleftrightarrow>
     bs_media_descriptor bs \<in> set [0xF0, 0xF8, 0xF9, 0xFA, 0xFB, 0xFC, 0xFD, 0xFE, 0xFF]"

text \<open>The first byte of the first entry, whatever the width of the entries.\<close>

definition ValidateFatMediaDescriptor :: "InMemory \<Rightarrow> BootSector \<Rightarrow> bool option" where
  "ValidateFatMediaDescriptor io bs = do {
     fat_region \<leftarrow> InMemory_ReadSector io (unat (bs_reserved_sectors bs));
     b \<leftarrow> get_u8 fat_region 0;
     Some (b = bs_media_descriptor bs) }"

definition Fat_IsValid :: "InMemory \<Rightarrow> bool option" where
  "Fat_IsValid io = do {
     sector_data \<leftarrow> InMemory_ReadSector io 0;
     signature \<leftarrow> ValidateBootSignature sector_data;
     if \<not> signature then Some False else do {
       boot_sector \<leftarrow> read_BootSector sector_data;
       if \<not> ValidateJumpInstruction boot_sector \<or> \<not> ValidateSectorAndClusterSize boot_sector \<or>
          \<not> ValidateReservedSectors boot_sector \<or> \<not> ValidateFatCount boot_sector \<or>
          \<not> ValidateMediaDescriptor boot_sector
       then Some False
       else ValidateFatMediaDescriptor io boot_sector } }"

section \<open>Directory entries\<close>

record DirectoryEntry =
  de_filename :: "u8 list"
  de_attributes :: u8
  de_reserved :: u8
  de_creation_time_tenth :: u8
  de_creation_time :: u16
  de_creation_date :: u16
  de_last_access_date :: u16
  de_first_cluster_high :: u16
  de_last_write_time :: u16
  de_last_write_date :: u16
  de_first_cluster_low :: u16
  de_file_size :: u32

definition kMaxNameLength :: nat where "kMaxNameLength = 11"

abbreviation (input) entry_size :: nat where "entry_size \<equiv> 32"

definition kDeletedEntry :: u8 where "kDeletedEntry = 0xE5"

definition kEOD :: u8 where "kEOD = 0x00"

definition kLongNameMask :: u8 where "kLongNameMask = 0x3F"

text \<open>The values of \<open>Attributes\<close>.\<close>

definition attr_ReadOnly :: u8 where "attr_ReadOnly = 0x01"
definition attr_VolumeLabel :: u8 where "attr_VolumeLabel = 0x08"
definition attr_Directory :: u8 where "attr_Directory = 0x10"
definition attr_Archive :: u8 where "attr_Archive = 0x20"
definition attr_LongName :: u8 where "attr_LongName = 0x0F"

definition word16 :: "u8 \<Rightarrow> u8 \<Rightarrow> u16" where
  "word16 a b = ucast a OR push_bit 8 (ucast b)"

definition word32 :: "u8 \<Rightarrow> u8 \<Rightarrow> u8 \<Rightarrow> u8 \<Rightarrow> u32" where
  "word32 a b c d = ucast a OR push_bit 8 (ucast b) OR push_bit 16 (ucast c) OR push_bit 24 (ucast d)"

text \<open>The packed structure of 32 bytes and back.\<close>

definition entry_of :: "u8 list \<Rightarrow> DirectoryEntry" where
  "entry_of s = \<lparr>de_filename = take 11 s, de_attributes = s ! 11, de_reserved = s ! 12,
     de_creation_time_tenth = s ! 13, de_creation_time = word16 (s ! 14) (s ! 15),
     de_creation_date = word16 (s ! 16) (s ! 17), de_last_access_date = word16 (s ! 18) (s ! 19),
     de_first_cluster_high = word16 (s ! 20) (s ! 21), de_last_write_time = word16 (s ! 22) (s ! 23),
     de_last_write_date = word16 (s ! 24) (s ! 25), de_first_cluster_low = word16 (s ! 26) (s ! 27),
     de_file_size = word32 (s ! 28) (s ! 29) (s ! 30) (s ! 31)\<rparr>"

definition entry_bytes :: "DirectoryEntry \<Rightarrow> u8 list" where
  "entry_bytes e = de_filename e @
     [de_attributes e, de_reserved e, de_creation_time_tenth e] @
     u16_bytes (de_creation_time e) @ u16_bytes (de_creation_date e) @ u16_bytes (de_last_access_date e) @
     u16_bytes (de_first_cluster_high e) @ u16_bytes (de_last_write_time e) @ u16_bytes (de_last_write_date e) @
     u16_bytes (de_first_cluster_low e) @ u32_bytes (de_file_size e)"

text \<open>\<open>internal::get<DirectoryEntry>(data, offset)\<close>.\<close>

definition get_DirectoryEntry :: "u8 list \<Rightarrow> nat \<Rightarrow> DirectoryEntry option" where
  "get_DirectoryEntry s offset = do {
     ASSERT (offset + entry_size \<le> length s);
     Some (entry_of (take entry_size (drop offset s))) }"

definition first_byte :: "DirectoryEntry \<Rightarrow> u8" where
  "first_byte e = de_filename e ! 0"

definition DE_IsFree :: "DirectoryEntry \<Rightarrow> bool" where
  "DE_IsFree e \<longleftrightarrow> first_byte e = kDeletedEntry"

definition DE_IsFurtherEntriesFree :: "DirectoryEntry \<Rightarrow> bool" where
  "DE_IsFurtherEntriesFree e \<longleftrightarrow> first_byte e = kEOD"

definition DE_IsLongNameSubComponent :: "DirectoryEntry \<Rightarrow> bool" where
  "DE_IsLongNameSubComponent e \<longleftrightarrow> de_attributes e AND kLongNameMask = attr_LongName \<and> \<not> DE_IsFree e"

definition DE_IsDirectory :: "DirectoryEntry \<Rightarrow> bool" where
  "DE_IsDirectory e \<longleftrightarrow> de_attributes e AND (attr_Directory OR attr_VolumeLabel) = attr_Directory"

definition DE_IsFile :: "DirectoryEntry \<Rightarrow> bool" where
  "DE_IsFile e \<longleftrightarrow> de_attributes e AND (attr_Directory OR attr_VolumeLabel) = 0"

definition DE_IsVolumeLabel :: "DirectoryEntry \<Rightarrow> bool" where
  "DE_IsVolumeLabel e \<longleftrightarrow> de_attributes e AND (attr_Directory OR attr_VolumeLabel) = attr_VolumeLabel"

definition DE_IsValid :: "DirectoryEntry \<Rightarrow> bool" where
  "DE_IsValid e \<longleftrightarrow> DE_IsFile e \<or> DE_IsDirectory e \<or> DE_IsVolumeLabel e"

definition DE_IsRootDirectory :: "DirectoryEntry \<Rightarrow> bool" where
  "DE_IsRootDirectory e \<longleftrightarrow> DE_IsDirectory e \<and> de_first_cluster_low e = 0 \<and> de_first_cluster_high e = 0"

fun CheckSum_loop :: "u8 \<Rightarrow> u8 list \<Rightarrow> u8" where
  "CheckSum_loop acc [] = acc"
| "CheckSum_loop acc (c # cs) =
     CheckSum_loop ((if acc AND 1 \<noteq> 0 then 0x80 else 0) + drop_bit 1 acc + c) cs"

definition DE_GetCheckSum :: "DirectoryEntry \<Rightarrow> u8" where
  "DE_GetCheckSum e = CheckSum_loop 0 (take kMaxNameLength (de_filename e))"

lemma word16_bytes [simp]:
  "ucast (word16 a b) = a" "ucast (drop_bit 8 (word16 a b)) = b" "u16_bytes (word16 a b) = [a, b]"
  by (simp_all only: word16_def bytes_of_u16 u16_bytes_def)

lemma word32_bytes [simp]: "u32_bytes (word32 a b c d) = [a, b, c, d]"
  by (simp only: word32_def bytes_of_u32 u32_bytes_def)

lemma bytes_word16 [simp]: "word16 (ucast v) (ucast (drop_bit 8 v)) = v"
  by (simp add: word16_def u16_of_bytes)

lemma bytes_word32 [simp]: "word32 (ucast v) (ucast (drop_bit 8 v)) (ucast (drop_bit 16 v)) (ucast (drop_bit 24 v)) = v"
  by (simp add: word32_def u32_of_bytes)

lemma length_entry_bytes [simp]: "length (de_filename e) = 11 \<Longrightarrow> length (entry_bytes e) = 32"
  by (simp add: entry_bytes_def)

lemma length_entry_of [simp]: "length s = 32 \<Longrightarrow> length (de_filename (entry_of s)) = 11"
  by (simp add: entry_of_def)

lemma entry_of_bytes: 
  assumes "length (de_filename e) = 11"
  shows "entry_of (entry_bytes e) = e"
proof -
  obtain f0 f1 f2 f3 f4 f5 f6 f7 f8 f9 f10 where "de_filename e = [f0, f1, f2, f3, f4, f5, f6, f7, f8, f9, f10]"
    using assms by (auto simp: length_Suc_conv numeral_eq_Suc)
  then show ?thesis
    by (cases e) (simp add: entry_of_def entry_bytes_def u16_bytes_def u32_bytes_def)
qed

lemma entry_bytes_of:
  assumes "length s = 32"
  shows "entry_bytes (entry_of s) = s"
proof -
  have "drop 11 s = map ((!) s) [11..<32]"
    by (rule nth_equalityI) (use assms in \<open>simp_all del: upt_conv_Cons upt_rec_numeral\<close>)
  then have "s = take 11 s @ map ((!) s) [11..<32]" by (metis append_take_drop_id)
  then show ?thesis
    by (subst (2) \<open>s = _\<close>) (simp add: entry_bytes_def entry_of_def upt_conv_Cons)
qed

end
