(* ===== verification/Fat_Table.thy ===== *)
theory Fat_Table
  imports Fat_Disk
begin

text \<open>
  The file allocation tables of FAT12, FAT16 and FAT32 (\<open>kernel/src/fs/vfs/fat/fat12.hpp\<close>,
  \<open>fat16.hpp\<close>, \<open>fat32.hpp\<close> and the cluster operations of \<open>fat.hpp\<close>).

  \<open>Fat\<close> is a class template over its implementation; what it takes from the implementation is the record
  \<open>fat_impl\<close>, with the three instances \<open>Fat12\<close>, \<open>Fat16\<close> and \<open>Fat32\<close>. The locale \<open>fat_table\<close> states what the
  rest of the file system needs of a table, and is interpreted for each of the three. Cluster
  numbers are natural numbers; the tables hold at most \<open>kEOC\<close> clusters, so that they fit
  \<open>ClusterNumT\<close>.
\<close>

section \<open>The file system object\<close>

record fat =
  fat_io :: InMemory
  fat_bs :: BootSector
  fat_region_start :: nat
  fat_region_count :: nat
  root_dir_region_start :: nat
  root_dir_region_count :: nat
  data_region_start :: nat
  data_region_count :: nat
  fat_cluster_count :: nat

abbreviation fat_mem :: "fat \<Rightarrow> memory" where
  "fat_mem f \<equiv> im_address (fat_io f)"

abbreviation bytes_per_sector :: "fat \<Rightarrow> nat" where
  "bytes_per_sector f \<equiv> unat (bs_bytes_per_sector (fat_bs f))"

abbreviation sectors_per_cluster :: "fat \<Rightarrow> nat" where
  "sectors_per_cluster f \<equiv> unat (bs_sectors_per_cluster (fat_bs f))"

definition kFirstClusterNumber :: nat where "kFirstClusterNumber = 2"

definition DivRoundUp :: "nat \<Rightarrow> nat \<Rightarrow> nat" where
  "DivRoundUp x y = (x + y - 1) div y"

text \<open>The sizes of the regions; \<open>fat_size\<close> is the size of one table in sectors. 32-bit arithmetic wraps.\<close>

definition fat_region_sectors :: "u32 \<Rightarrow> BootSector \<Rightarrow> u32" where
  "fat_region_sectors fat_size bs = ucast (bs_number_of_fats bs) * fat_size"

definition root_dir_sectors :: "BootSector \<Rightarrow> u32" where
  "root_dir_sectors bs =
     of_nat (DivRoundUp (unat (bs_root_dir_entries bs) * entry_size) (unat (bs_bytes_per_sector bs)))"

definition data_start_sector :: "u32 \<Rightarrow> BootSector \<Rightarrow> u32" where
  "data_start_sector fat_size bs =
     ucast (bs_reserved_sectors bs) + fat_region_sectors fat_size bs + root_dir_sectors bs"

definition data_sectors :: "u32 \<Rightarrow> BootSector \<Rightarrow> u32" where
  "data_sectors fat_size bs =
     (if bs_total_sectors_word bs \<noteq> 0 then ucast (bs_total_sectors_word bs) else bs_total_sectors_dword bs)
       - data_start_sector fat_size bs"

definition count_of_clusters :: "u32 \<Rightarrow> BootSector \<Rightarrow> u32" where
  "count_of_clusters fat_size bs = data_sectors fat_size bs div ucast (bs_sectors_per_cluster bs)"

text \<open>
  The constructors. \<open>size\<close> is the size of the boot sector structure. The warning about an unclean
  shutdown has no effect on the object.
\<close>

definition Fat_construct :: "nat \<Rightarrow> (BootSector \<Rightarrow> u32) \<Rightarrow> InMemory \<Rightarrow> fat option" where
  "Fat_construct struct_size fat_size io = do {
     s \<leftarrow> InMemory_ReadSector io 0;
     ASSERT (struct_size \<le> length s);
     bs \<leftarrow> read_BootSector s;
     let n = fat_size bs;
     Some \<lparr>fat_io = io\<lparr>im_sector_size := unat (bs_bytes_per_sector bs)\<rparr>, fat_bs = bs,
       fat_region_start = unat (bs_reserved_sectors bs),
       fat_region_count = unat (fat_region_sectors n bs),
       root_dir_region_start = unat (ucast (bs_reserved_sectors bs) + fat_region_sectors n bs),
       root_dir_region_count = unat (root_dir_sectors bs),
       data_region_start = unat (data_start_sector n bs),
       data_region_count = unat (data_sectors n bs),
       fat_cluster_count = unat (count_of_clusters n bs)\<rparr> }"

definition Fat12_construct :: "InMemory \<Rightarrow> fat option" where
  "Fat12_construct io = Fat_construct 62 (\<lambda>bs. ucast (bs_fat_size_word bs)) io"

definition Fat16_construct :: "InMemory \<Rightarrow> fat option" where
  "Fat16_construct io = Fat_construct 62 (\<lambda>bs. ucast (bs_fat_size_word bs)) io"

definition Fat32_construct :: "InMemory \<Rightarrow> fat option" where
  "Fat32_construct io = Fat_construct 90
     (\<lambda>bs. if bs_fat_size_word bs \<noteq> 0 then ucast (bs_fat_size_word bs) else bs_fat_size_dword bs) io"

text \<open>The validation of a disk image for each type.\<close>

definition valid_and :: "InMemory \<Rightarrow> (BootSector \<Rightarrow> bool) \<Rightarrow> bool option" where
  "valid_and io p = do {
     valid \<leftarrow> Fat_IsValid io;
     if \<not> valid then Some False
     else do { s \<leftarrow> InMemory_ReadSector io 0; bs \<leftarrow> read_BootSector s; Some (p bs) } }"

definition Fat12_IsValid :: "InMemory \<Rightarrow> bool option" where
  "Fat12_IsValid io = valid_and io (\<lambda>bs. count_of_clusters (ucast (bs_fat_size_word bs)) bs < 4085)"

definition Fat16_IsValid :: "InMemory \<Rightarrow> bool option" where
  "Fat16_IsValid io = valid_and io (\<lambda>bs.
     let cluster_count = count_of_clusters (ucast (bs_fat_size_word bs)) bs in
     cluster_count \<ge> 4085 \<and> cluster_count < 65525)"

definition Fat32_IsValid :: "InMemory \<Rightarrow> bool option" where
  "Fat32_IsValid io = valid_and io (\<lambda>bs.
     if bs_fat_size_word bs \<noteq> 0 \<or> bs_total_sectors_word bs \<noteq> 0 then False
     else count_of_clusters (bs_fat_size_dword bs) bs \<ge> 65525)"

section \<open>Table entries\<close>

definition kClusterMask12 :: u16 where "kClusterMask12 = drop_bit 4 (- 1)"

definition kClusterMask16 :: u16 where "kClusterMask16 = - 1"

definition kClusterMask32 :: u32 where "kClusterMask32 = drop_bit 4 (- 1)"

definition kEOC12 :: nat where "kEOC12 = 0x0FF8"

definition kEOC16 :: nat where "kEOC16 = 0xFFF8"

text \<open>\<open>kBitMask\<close> of \<open>libs/libcpp/include/bits_ext.hpp\<close>, whose loop runs from the start bit to the length.\<close>

definition kBitMask :: "nat \<Rightarrow> nat \<Rightarrow> u32" where
  "kBitMask kBitStart kBitLength = foldl (\<lambda>mask bt. mask OR push_bit bt 1) 0 [kBitStart..<kBitLength]"

definition kEOC32 :: nat where "kEOC32 = unat (kBitMask 3 25)"

definition Fat16_GetFATEntry :: "fat \<Rightarrow> nat \<Rightarrow> nat option" where
  "Fat16_GetFATEntry f cluster = do {
     let fat_offset = cluster * 2;
     let sector_number = fat_region_start f + fat_offset div bytes_per_sector f;
     let sector_offset = fat_offset mod bytes_per_sector f;
     sector \<leftarrow> InMemory_ReadSector (fat_io f) sector_number;
     entry \<leftarrow> get_u16 sector sector_offset;
     Some (unat (entry AND kClusterMask16)) }"

definition Fat16_SetFATEntry :: "fat \<Rightarrow> nat \<Rightarrow> nat \<Rightarrow> fat option" where
  "Fat16_SetFATEntry f cluster val = do {
     let fat_offset = cluster * 2;
     let sector_number = fat_region_start f + fat_offset div bytes_per_sector f;
     let sector_offset = fat_offset mod bytes_per_sector f;
     sector \<leftarrow> InMemory_ReadSector (fat_io f) sector_number;
     entry \<leftarrow> get_u16 sector sector_offset;
     let entry' = (entry AND NOT kClusterMask16) OR (of_nat val AND kClusterMask16);
     io \<leftarrow> InMemory_WriteSector (fat_io f) sector_number (overwrite sector sector_offset (u16_bytes entry'));
     Some (f\<lparr>fat_io := io\<rparr>) }"

definition Fat32_GetFATEntry :: "fat \<Rightarrow> nat \<Rightarrow> nat option" where
  "Fat32_GetFATEntry f cluster = do {
     let fat_offset = cluster * 4;
     let sector_number = fat_region_start f + fat_offset div bytes_per_sector f;
     let sector_offset = fat_offset mod bytes_per_sector f;
     sector \<leftarrow> InMemory_ReadSector (fat_io f) sector_number;
     entry \<leftarrow> get_u32 sector sector_offset;
     Some (unat (entry AND kClusterMask32)) }"

definition Fat32_SetFATEntry :: "fat \<Rightarrow> nat \<Rightarrow> nat \<Rightarrow> fat option" where
  "Fat32_SetFATEntry f cluster val = do {
     let fat_offset = cluster * 4;
     let sector_number = fat_region_start f + fat_offset div bytes_per_sector f;
     let sector_offset = fat_offset mod bytes_per_sector f;
     sector \<leftarrow> InMemory_ReadSector (fat_io f) sector_number;
     entry \<leftarrow> get_u32 sector sector_offset;
     let entry' = (entry AND NOT kClusterMask32) OR (of_nat val AND kClusterMask32);
     io \<leftarrow> InMemory_WriteSector (fat_io f) sector_number (overwrite sector sector_offset (u32_bytes entry'));
     Some (f\<lparr>fat_io := io\<rparr>) }"

definition Fat12_GetFATEntry :: "fat \<Rightarrow> nat \<Rightarrow> nat option" where
  "Fat12_GetFATEntry f cluster = do {
     ASSERT (cluster < fat_cluster_count f + kFirstClusterNumber);
     let fat_offset = cluster + cluster div 2;
     let sector_number = fat_region_start f + fat_offset div bytes_per_sector f;
     let sector_offset = fat_offset mod bytes_per_sector f;
     let count = (if sector_offset = bytes_per_sector f - 1 then 2 else 1);
     range \<leftarrow> InMemory_ReadRange (fat_io f) sector_number count;
     entry \<leftarrow> get_u16 range sector_offset;
     Some (unat (if cluster mod 2 = 0 then entry AND kClusterMask12 else drop_bit 4 entry)) }"

definition Fat12_SetFATEntry :: "fat \<Rightarrow> nat \<Rightarrow> nat \<Rightarrow> fat option" where
  "Fat12_SetFATEntry f cluster val = do {
     ASSERT (cluster < fat_cluster_count f + kFirstClusterNumber);
     let fat_offset = cluster + cluster div 2;
     let sector_number = fat_region_start f + fat_offset div bytes_per_sector f;
     let sector_offset = fat_offset mod bytes_per_sector f;
     let count = (if sector_offset = bytes_per_sector f - 1 then 2 else 1);
     range \<leftarrow> InMemory_ReadRange (fat_io f) sector_number count;
     entry \<leftarrow> get_u16 range sector_offset;
     let entry' = (if cluster mod 2 = 0 then (entry AND 0xF000) OR (of_nat val AND 0x0FFF)
                   else (entry AND 0x000F) OR push_bit 4 (of_nat val AND 0x0FFF));
     io \<leftarrow> InMemory_WriteRange (fat_io f) sector_number count (overwrite range sector_offset (u16_bytes entry'));
     Some (f\<lparr>fat_io := io\<rparr>) }"

section \<open>The implementations\<close>

record fat_impl =
  impl_GetFATEntry :: "fat \<Rightarrow> nat \<Rightarrow> nat option"
  impl_SetFATEntry :: "fat \<Rightarrow> nat \<Rightarrow> nat \<Rightarrow> fat option"
  impl_kEOC :: nat
  impl_ClusterNum_bits :: nat
  impl_kHasFixedRootDir :: bool
  impl_GetRootCluster :: "fat \<Rightarrow> nat"

definition Fat12 :: fat_impl where
  "Fat12 = \<lparr>impl_GetFATEntry = Fat12_GetFATEntry, impl_SetFATEntry = Fat12_SetFATEntry,
     impl_kEOC = kEOC12, impl_ClusterNum_bits = 16, impl_kHasFixedRootDir = True, impl_GetRootCluster = (\<lambda>_. 0)\<rparr>"

definition Fat16 :: fat_impl where
  "Fat16 = \<lparr>impl_GetFATEntry = Fat16_GetFATEntry, impl_SetFATEntry = Fat16_SetFATEntry,
     impl_kEOC = kEOC16, impl_ClusterNum_bits = 16, impl_kHasFixedRootDir = True, impl_GetRootCluster = (\<lambda>_. 0)\<rparr>"

definition Fat32 :: fat_impl where
  "Fat32 = \<lparr>impl_GetFATEntry = Fat32_GetFATEntry, impl_SetFATEntry = Fat32_SetFATEntry,
     impl_kEOC = kEOC32, impl_ClusterNum_bits = 32, impl_kHasFixedRootDir = False,
     impl_GetRootCluster = (\<lambda>f. unat (bs_root_cluster (fat_bs f)))\<rparr>"

section \<open>Clusters\<close>

definition GetFirstCluster :: "DirectoryEntry \<Rightarrow> nat" where
  "GetFirstCluster entry =
     unat (push_bit 16 (ucast (de_first_cluster_high entry)) OR ucast (de_first_cluster_low entry) :: u32)"

text \<open>\<open>cluster - 2\<close> wraps at 64 bits and the result is cut to 32.\<close>

definition GetClusterSector :: "fat \<Rightarrow> nat \<Rightarrow> nat" where
  "GetClusterSector f cluster =
     nat ((int (data_region_start f) + (int cluster - int kFirstClusterNumber) * int (sectors_per_cluster f)) mod 2 ^ 32)"

definition GetClusterSize :: "fat \<Rightarrow> nat" where
  "GetClusterSize f = sectors_per_cluster f * bytes_per_sector f"

fun AllocateCluster_loop :: "fat_impl \<Rightarrow> fat \<Rightarrow> nat \<Rightarrow> nat \<Rightarrow> nat \<Rightarrow> (nat \<times> fat) option" where
  "AllocateCluster_loop impl f val cluster 0 = Some (0, f)"
| "AllocateCluster_loop impl f val cluster (Suc n) = do {
     e \<leftarrow> impl_GetFATEntry impl f cluster;
     if e = 0
     then do { f' \<leftarrow> impl_SetFATEntry impl f cluster val; Some (cluster, f') }
     else AllocateCluster_loop impl f val (cluster + 1) n }"

text \<open>The last argument of the loop is the number of clusters left to look at.\<close>

definition AllocateCluster :: "fat_impl \<Rightarrow> fat \<Rightarrow> (nat \<times> fat) option" where
  "AllocateCluster impl f =
     AllocateCluster_loop impl f (impl_kEOC impl) kFirstClusterNumber (fat_cluster_count f)"

partial_function (option) FreeClusterChain :: "fat_impl \<Rightarrow> fat \<Rightarrow> nat \<Rightarrow> fat option" where
  "FreeClusterChain impl f cluster =
    (if cluster \<noteq> 0 \<and> cluster < impl_kEOC impl
     then do {
       next_c \<leftarrow> impl_GetFATEntry impl f cluster;
       f' \<leftarrow> impl_SetFATEntry impl f cluster 0;
       FreeClusterChain impl f' next_c }
     else Some f)"

fun SkipClusters :: "fat_impl \<Rightarrow> fat \<Rightarrow> nat \<Rightarrow> nat \<Rightarrow> nat option" where
  "SkipClusters impl f cluster 0 = Some cluster"
| "SkipClusters impl f cluster (Suc count) =
    (if cluster < impl_kEOC impl
     then do { cluster' \<leftarrow> impl_GetFATEntry impl f cluster; SkipClusters impl f cluster' count }
     else Some cluster)"

fun EnsureClusterChain :: "fat_impl \<Rightarrow> fat \<Rightarrow> nat \<Rightarrow> nat \<Rightarrow> (nat \<times> fat) option" where
  "EnsureClusterChain impl f cluster 0 = Some (cluster, f)"
| "EnsureClusterChain impl f cluster (Suc clusters_needed) = do {
     next_c \<leftarrow> impl_GetFATEntry impl f cluster;
     if next_c \<ge> impl_kEOC impl
     then do {
       (new, f') \<leftarrow> AllocateCluster impl f;
       if new = 0 then Some (0, f')
       else do {
         f'' \<leftarrow> impl_SetFATEntry impl f' cluster new;
         EnsureClusterChain impl f'' new clusters_needed } }
     else EnsureClusterChain impl f next_c clusters_needed }"

definition ReadCluster :: "fat \<Rightarrow> nat \<Rightarrow> u8 list option" where
  "ReadCluster f cluster =
     InMemory_ReadRange (fat_io f) (GetClusterSector f cluster) (sectors_per_cluster f)"

definition WriteCluster :: "fat \<Rightarrow> nat \<Rightarrow> u8 list \<Rightarrow> fat option" where
  "WriteCluster f cluster data = do {
     io \<leftarrow> InMemory_WriteRange (fat_io f) (GetClusterSector f cluster) (sectors_per_cluster f) data;
     Some (f\<lparr>fat_io := io\<rparr>) }"

section \<open>Access by address\<close>

lemma length_bytes_at [simp]: "length (bytes_at m a n) = n"
  by (simp add: bytes_at_def)

lemma nth_bytes_at [simp]: "i < n \<Longrightarrow> bytes_at m a n ! i = m (a + i)"
  by (simp add: bytes_at_def)

lemma put_bytes_at: "put_bytes m a bs x = (if a \<le> x \<and> x < a + length bs then bs ! (x - a) else m x)"
  by (simp add: put_bytes_def)

lemma bytes_at_put_same: "length bs = n \<Longrightarrow> bytes_at (put_bytes m a bs) a n = bs"
  by (rule nth_equalityI) (auto simp: put_bytes_at)

lemma bytes_at_put_other: "b + n \<le> a \<or> a + length bs \<le> b \<Longrightarrow> bytes_at (put_bytes m a bs) b n = bytes_at m b n"
  by (rule nth_equalityI) (auto simp: put_bytes_at)

text \<open>Reading a range, changing some bytes and writing it back changes just these bytes.\<close>

lemma put_overwrite:
  assumes "off + length bs \<le> n"
  shows "put_bytes m a (overwrite (bytes_at m a n) off bs) = put_bytes m (a + off) bs"
proof
  fix x
  have len: "length (overwrite (bytes_at m a n) off bs) = n" using assms by simp
  show "put_bytes m a (overwrite (bytes_at m a n) off bs) x = put_bytes m (a + off) bs x"
  proof (cases "a \<le> x \<and> x < a + n")
    case True
    then obtain i where "x = a + i" "i < n" by (metis le_Suc_ex nat_add_left_cancel_less)
    then show ?thesis using assms len by (auto simp: put_bytes_at nth_overwrite)
  next
    case False
    then show ?thesis using assms len by (auto simp: put_bytes_at)
  qed
qed

lemma sector_address: "(s + off div b) * b + off mod b = s * b + (off :: nat)"
  by (simp add: algebra_simps)

text \<open>What the table of every type needs of the geometry.\<close>

definition fat_ok :: "fat \<Rightarrow> bool" where
  "fat_ok f \<longleftrightarrow> im_sector_size (fat_io f) = bytes_per_sector f \<and>
     bytes_per_sector f mod 4 = 0 \<and> 32 \<le> bytes_per_sector f \<and> bytes_per_sector f \<le> 4096 \<and>
     1 \<le> sectors_per_cluster f \<and> GetClusterSize f \<le> kMaxClusterSize \<and> GetClusterSize f mod 32 = 0 \<and>
     fat_region_start f + fat_region_count f \<le> root_dir_region_start f \<and>
     root_dir_region_start f + root_dir_region_count f \<le> data_region_start f \<and>
     data_region_start f + fat_cluster_count f * sectors_per_cluster f < 2 ^ 32"

definition table_base :: "fat \<Rightarrow> nat" where
  "table_base f = fat_region_start f * bytes_per_sector f"

definition table_end :: "fat \<Rightarrow> nat" where
  "table_end f = (fat_region_start f + fat_region_count f) * bytes_per_sector f"

text \<open>Only the memory differs, and only inside, or only outside, the table.\<close>

definition with_mem :: "fat \<Rightarrow> memory \<Rightarrow> fat" where
  "with_mem f m = f\<lparr>fat_io := (fat_io f)\<lparr>im_address := m\<rparr>\<rparr>"

lemma with_mem_simps [simp]:
  "fat_mem (with_mem f m) = m" "fat_bs (with_mem f m) = fat_bs f"
  "im_sector_size (fat_io (with_mem f m)) = im_sector_size (fat_io f)"
  "fat_region_start (with_mem f m) = fat_region_start f" "fat_region_count (with_mem f m) = fat_region_count f"
  "root_dir_region_start (with_mem f m) = root_dir_region_start f"
  "root_dir_region_count (with_mem f m) = root_dir_region_count f"
  "data_region_start (with_mem f m) = data_region_start f" "data_region_count (with_mem f m) = data_region_count f"
  "fat_cluster_count (with_mem f m) = fat_cluster_count f" "with_mem (with_mem f m) m' = with_mem f m'"
  "table_base (with_mem f m) = table_base f" "table_end (with_mem f m) = table_end f"
  "GetClusterSize (with_mem f m) = GetClusterSize f" "fat_ok (with_mem f m) = fat_ok f"
  "GetClusterSector (with_mem f m) = GetClusterSector f" "with_mem f (fat_mem f) = f"
  by (simp_all add: with_mem_def table_base_def table_end_def GetClusterSize_def fat_ok_def GetClusterSector_def fun_eq_iff)

lemma write_back:
  "\<lbrakk>im_sector_size io = b; off + length bs \<le> count * b\<rbrakk> \<Longrightarrow>
   InMemory_WriteRange io s count (overwrite (bytes_at (im_address io) (s * b) (count * b)) off bs) =
     Some (io\<lparr>im_address := put_bytes (im_address io) (s * b + off) bs\<rparr>)"
  by (simp add: InMemory_WriteRange_def put_overwrite)

lemma read_range:
  "\<lbrakk>im_sector_size io = b; count * b \<le> kMaxTempBufSize\<rbrakk> \<Longrightarrow>
   InMemory_ReadRange io s count = Some (bytes_at (im_address io) (s * b) (count * b))"
  by (simp add: InMemory_ReadRange_def)

lemma entry_in_sector:
  fixes c k b :: nat
  assumes "b mod k = 0" and "0 < b" and "0 < k"
  shows "c * k mod b + k \<le> b"
proof -
  obtain q where q: "b = k * q" using assms(1) by (auto simp: mod_eq_0_iff_dvd dvd_def)
  have "c * k mod b = k * (c mod q)" unfolding q mult.commute [of c] by (simp only: mult_mod_right)
  then have "c * k mod b + k = k * Suc (c mod q)" by simp
  moreover have "c mod q < q" using assms(2) q by simp
  then have "k * Suc (c mod q) \<le> k * q" by (intro mult_le_mono2) simp
  ultimately show ?thesis using q by simp
qed

definition mem16 :: "memory \<Rightarrow> nat \<Rightarrow> u16" where
  "mem16 m a = word16 (m a) (m (a + 1))"

lemma Fat16_entries:
  assumes "fat_ok f"
  shows "Fat16_GetFATEntry f c =
      Some (unat (mem16 (fat_mem f) (table_base f + 2 * c)))"
    and "Fat16_SetFATEntry f c v = Some (with_mem f (put_bytes (fat_mem f) (table_base f + 2 * c) (u16_bytes (of_nat v))))"
proof -
  let ?b = "bytes_per_sector f" and ?io = "fat_io f"
  let ?s = "fat_region_start f + c * 2 div ?b"
  have b: "im_sector_size ?io = ?b" "?b mod 2 = 0" "0 < ?b" "1 * ?b \<le> kMaxTempBufSize"
    using assms by (auto simp: fat_ok_def kMaxTempBufSize_def)
  have off: "c * 2 mod ?b + 2 \<le> ?b" using entry_in_sector [OF b(2,3)] by simp
  have a: "?s * ?b + c * 2 mod ?b = table_base f + 2 * c"
    by (simp only: sector_address table_base_def mult.commute [of c])
  have get: "get_u16 (bytes_at (fat_mem f) (?s * ?b) ?b) (c * 2 mod ?b) =
      Some (mem16 (fat_mem f) (table_base f + 2 * c))"
    using off unfolding get_u16_def mem16_def word16_def a [symmetric] by (simp add: add.assoc)
  have rd: "InMemory_ReadSector ?io ?s = Some (bytes_at (fat_mem f) (?s * ?b) ?b)"
    unfolding InMemory_ReadSector_def read_range [OF b(1,4)] by simp
  show "Fat16_GetFATEntry f c =
      Some (unat (mem16 (fat_mem f) (table_base f + 2 * c)))"
    unfolding Fat16_GetFATEntry_def Let_def rd bind.bind_lunit get by (simp add: kClusterMask16_def)
  have wr: "InMemory_WriteSector ?io ?s (overwrite (bytes_at (fat_mem f) (?s * ?b) ?b) (c * 2 mod ?b) (u16_bytes w)) =
      Some (?io\<lparr>im_address := put_bytes (fat_mem f) (table_base f + 2 * c) (u16_bytes w)\<rparr>)" for w
    using write_back [OF b(1), of "c * 2 mod ?b" "u16_bytes w" 1 ?s] off a by (simp add: InMemory_WriteSector_def)
  show "Fat16_SetFATEntry f c v = Some (with_mem f (put_bytes (fat_mem f) (table_base f + 2 * c) (u16_bytes (of_nat v))))"
    unfolding Fat16_SetFATEntry_def Let_def rd bind.bind_lunit get wr by (simp add: kClusterMask16_def with_mem_def)
qed

definition set32 :: "u32 \<Rightarrow> nat \<Rightarrow> u32" where
  "set32 entry v = (entry AND NOT kClusterMask32) OR (of_nat v AND kClusterMask32)"

definition mem32 :: "memory \<Rightarrow> nat \<Rightarrow> u32" where
  "mem32 m a = word32 (m a) (m (a + 1)) (m (a + 2)) (m (a + 3))"

lemma Fat32_entries:
  assumes "fat_ok f"
  shows "Fat32_GetFATEntry f c = Some (unat (mem32 (fat_mem f) (table_base f + 4 * c) AND kClusterMask32))"
    and "Fat32_SetFATEntry f c v = Some (with_mem f (put_bytes (fat_mem f) (table_base f + 4 * c)
      (u32_bytes (set32 (mem32 (fat_mem f) (table_base f + 4 * c)) v))))"
proof -
  let ?b = "bytes_per_sector f" and ?io = "fat_io f"
  let ?s = "fat_region_start f + c * 4 div ?b" and ?o = "c * 4 mod bytes_per_sector f"
  have b: "im_sector_size ?io = ?b" "?b mod 4 = 0" "0 < ?b" "1 * ?b \<le> kMaxTempBufSize"
    using assms by (auto simp: fat_ok_def kMaxTempBufSize_def)
  have off: "?o + 4 \<le> ?b" using entry_in_sector [OF b(2,3)] by simp
  have a: "?s * ?b + ?o = table_base f + 4 * c"
    by (simp only: sector_address table_base_def mult.commute [of c])
  have get: "get_u32 (bytes_at (fat_mem f) (?s * ?b) ?b) ?o = Some (mem32 (fat_mem f) (table_base f + 4 * c))"
    using off unfolding get_u32_def mem32_def word32_def a [symmetric] by (simp add: add.assoc)
  have rd: "InMemory_ReadSector ?io ?s = Some (bytes_at (fat_mem f) (?s * ?b) ?b)"
    unfolding InMemory_ReadSector_def read_range [OF b(1,4)] by simp
  show "Fat32_GetFATEntry f c = Some (unat (mem32 (fat_mem f) (table_base f + 4 * c) AND kClusterMask32))"
    unfolding Fat32_GetFATEntry_def Let_def rd bind.bind_lunit get by simp
  have wr: "InMemory_WriteSector ?io ?s (overwrite (bytes_at (fat_mem f) (?s * ?b) ?b) ?o (u32_bytes w)) =
      Some (?io\<lparr>im_address := put_bytes (fat_mem f) (table_base f + 4 * c) (u32_bytes w)\<rparr>)" for w
    using write_back [OF b(1), of ?o "u32_bytes w" 1 ?s] off a by (simp add: InMemory_WriteSector_def)
  show "Fat32_SetFATEntry f c v = Some (with_mem f (put_bytes (fat_mem f) (table_base f + 4 * c)
      (u32_bytes (set32 (mem32 (fat_mem f) (table_base f + 4 * c)) v))))"
    unfolding Fat32_SetFATEntry_def Let_def rd bind.bind_lunit get wr by (simp add: set32_def with_mem_def)
qed

definition pos12 :: "nat \<Rightarrow> nat" where
  "pos12 c = c + c div 2"

definition get12 :: "nat \<Rightarrow> u16 \<Rightarrow> u16" where
  "get12 c entry = (if c mod 2 = 0 then entry AND kClusterMask12 else drop_bit 4 entry)"

definition set12 :: "nat \<Rightarrow> u16 \<Rightarrow> nat \<Rightarrow> u16" where
  "set12 c entry v = (if c mod 2 = 0 then (entry AND 0xF000) OR (of_nat v AND 0x0FFF)
     else (entry AND 0x000F) OR push_bit 4 (of_nat v AND 0x0FFF))"

lemma Fat12_entries:
  assumes "fat_ok f" and "c < fat_cluster_count f + 2"
  shows "Fat12_GetFATEntry f c = Some (unat (get12 c (mem16 (fat_mem f) (table_base f + pos12 c))))"
    and "Fat12_SetFATEntry f c v = Some (with_mem f (put_bytes (fat_mem f) (table_base f + pos12 c)
      (u16_bytes (set12 c (mem16 (fat_mem f) (table_base f + pos12 c)) v))))"
proof -
  let ?b = "bytes_per_sector f" and ?io = "fat_io f"
  let ?s = "fat_region_start f + (c + c div 2) div ?b" and ?o = "(c + c div 2) mod bytes_per_sector f"
  let ?n = "if ?o = ?b - 1 then 2 else 1 :: nat"
  have b: "im_sector_size ?io = ?b" "0 < ?b" "?n * ?b \<le> kMaxTempBufSize"
    using assms(1) by (auto simp: fat_ok_def kMaxTempBufSize_def)
  have "?o < ?b" using b(2) by simp
  then have off: "?o + 2 \<le> ?n * ?b" by auto
  have a: "?s * ?b + ?o = table_base f + pos12 c"
    by (simp only: sector_address table_base_def pos12_def)
  have get: "get_u16 (bytes_at (fat_mem f) (?s * ?b) (?n * ?b)) ?o = Some (mem16 (fat_mem f) (table_base f + pos12 c))"
    using off unfolding get_u16_def mem16_def word16_def a [symmetric] by (simp add: add.assoc)
  note rd = read_range [OF b(1,3), of ?s]
  have guard: "ASSERT (c < fat_cluster_count f + kFirstClusterNumber) = Some ()"
    using assms(2) by (simp add: kFirstClusterNumber_def)
  show "Fat12_GetFATEntry f c = Some (unat (get12 c (mem16 (fat_mem f) (table_base f + pos12 c))))"
    unfolding Fat12_GetFATEntry_def Let_def guard bind.bind_lunit rd get by (simp add: get12_def)
  have wr: "InMemory_WriteRange ?io ?s ?n (overwrite (bytes_at (fat_mem f) (?s * ?b) (?n * ?b)) ?o (u16_bytes w)) =
      Some (?io\<lparr>im_address := put_bytes (fat_mem f) (table_base f + pos12 c) (u16_bytes w)\<rparr>)" for w
    using write_back [OF b(1), of ?o "u16_bytes w" ?n ?s] off a by simp
  show "Fat12_SetFATEntry f c v = Some (with_mem f (put_bytes (fat_mem f) (table_base f + pos12 c)
      (u16_bytes (set12 c (mem16 (fat_mem f) (table_base f + pos12 c)) v))))"
    unfolding Fat12_SetFATEntry_def Let_def guard bind.bind_lunit rd get wr by (simp add: set12_def with_mem_def)
qed

lemma mem16_put:
  "mem16 (put_bytes m a (u16_bytes v)) a = v"
  "b + 2 \<le> a \<or> a + length bs \<le> b \<Longrightarrow> mem16 (put_bytes m a bs) b = mem16 m b"
  by (auto simp: mem16_def put_bytes_at u16_bytes_def)

lemma mem32_put:
  "mem32 (put_bytes m a (u32_bytes v)) a = v"
  "b + 4 \<le> a \<or> a + length bs \<le> b \<Longrightarrow> mem32 (put_bytes m a bs) b = mem32 m b"
  by (auto simp: mem32_def put_bytes_at u32_bytes_def)

lemma set32_value: "v < 2 ^ 28 \<Longrightarrow> unat (set32 e v AND kClusterMask32) = v"
proof -
  assume v: "v < 2 ^ 28"
  have m: "kClusterMask32 = mask 28" by (simp add: kClusterMask32_def mask_eq_exp_minus_1 drop_bit_eq_div)
  have "set32 e v AND kClusterMask32 = take_bit 28 (of_nat v)"
    unfolding set32_def m by (rule bit_word_eqI) (auto simp: bit_simps)
  then show ?thesis using v by (simp add: unsigned_take_bit_eq unsigned_of_nat take_bit_nat_eq_self)
qed

lemma kClusterMask12_mask: "kClusterMask12 = mask 12"
  by (simp add: kClusterMask12_def mask_eq_exp_minus_1 drop_bit_eq_div)

lemma masks12: "0x0FFF = (mask 12 :: u16)" "0x000F = (mask 4 :: u16)" "0xF000 = (push_bit 12 (mask 4) :: u16)"
  by (simp_all add: mask_eq_exp_minus_1 push_bit_eq_mult)

lemma set12_value:
  assumes "v < 2 ^ 12"
  shows "unat (get12 c (set12 c e v)) = v"
proof -
  have "get12 c (set12 c e v) = take_bit 12 (of_nat v)"
    unfolding get12_def set12_def kClusterMask12_mask masks12
    by (cases "c mod 2 = 0"; simp; rule bit_word_eqI) (auto simp: bit_simps)
  then show ?thesis using assms by (simp add: unsigned_take_bit_eq unsigned_of_nat take_bit_nat_eq_self)
qed

text \<open>An entry of 12 bits shares a byte with its neighbour; the half that is not its own stays.\<close>

lemma set12_neighbour_odd:
  "c mod 2 = 0 \<Longrightarrow> drop_bit 4 (word16 (ucast (drop_bit 8 (set12 c (word16 x y) v))) z) = drop_bit 4 (word16 y z)"
  unfolding set12_def masks12 word16_def by (simp, rule bit_word_eqI) (auto simp: bit_simps dest: bit_imp_le_length)

lemma set12_neighbour_even:
  "c mod 2 \<noteq> 0 \<Longrightarrow> word16 x (ucast (set12 c (word16 y z) v)) AND mask 12 = word16 x y AND mask 12"
  unfolding set12_def masks12 word16_def by (simp, rule bit_word_eqI) (auto simp: bit_simps dest: bit_imp_le_length)

section \<open>The interface of a table\<close>

text \<open>
  \<open>table_ok\<close> is the invariant of the object, \<open>lim\<close> bounds the values of an entry. Setting an entry
  changes this entry and no byte outside the table; a change outside the table changes no entry.
\<close>

locale fat_table =
  fixes impl :: fat_impl and table_ok :: "fat \<Rightarrow> bool" and lim :: nat
  assumes geometry: "table_ok f \<Longrightarrow> fat_ok f \<and> fat_cluster_count f + 2 \<le> impl_kEOC impl \<and> impl_kEOC impl < lim \<and>
      lim \<le> 2 ^ impl_ClusterNum_bits impl \<and> impl_ClusterNum_bits impl \<le> 32"
    and get_entry: "table_ok f \<Longrightarrow> c < fat_cluster_count f + 2 \<Longrightarrow> \<exists>v<lim. impl_GetFATEntry impl f c = Some v"
    and set_entry: "table_ok f \<Longrightarrow> c < fat_cluster_count f + 2 \<Longrightarrow> v < lim \<Longrightarrow>
      \<exists>m. impl_SetFATEntry impl f c v = Some (with_mem f m) \<and>
        (\<forall>a. a < table_base f \<or> table_end f \<le> a \<longrightarrow> m a = fat_mem f a) \<and>
        (\<forall>c'<fat_cluster_count f + 2. impl_GetFATEntry impl (with_mem f m) c' =
           (if c' = c then Some v else impl_GetFATEntry impl f c'))"
    and table_ok_mem: "table_ok f \<Longrightarrow> table_ok (with_mem f m)"
    and get_entry_mem: "table_ok f \<Longrightarrow> c < fat_cluster_count f + 2 \<Longrightarrow>
      (\<forall>a. table_base f \<le> a \<and> a < table_end f \<longrightarrow> m a = fat_mem f a) \<Longrightarrow>
      impl_GetFATEntry impl (with_mem f m) c = impl_GetFATEntry impl f c"
    and root_cluster: "impl_GetRootCluster impl (with_mem f m) = impl_GetRootCluster impl f"
      "impl_GetRootCluster impl f < 2 ^ impl_ClusterNum_bits impl"

text \<open>The invariants: the entries of all clusters lie in the table.\<close>

definition table_ok12 :: "fat \<Rightarrow> bool" where
  "table_ok12 f \<longleftrightarrow> fat_ok f \<and> table_base f + pos12 (fat_cluster_count f + 2) + 1 \<le> table_end f \<and>
     fat_cluster_count f + 2 \<le> kEOC12"

definition table_ok16 :: "fat \<Rightarrow> bool" where
  "table_ok16 f \<longleftrightarrow> fat_ok f \<and> table_base f + 2 * (fat_cluster_count f + 2) \<le> table_end f \<and>
     fat_cluster_count f + 2 \<le> kEOC16"

definition table_ok32 :: "fat \<Rightarrow> bool" where
  "table_ok32 f \<longleftrightarrow> fat_ok f \<and> table_base f + 4 * (fat_cluster_count f + 2) \<le> table_end f \<and>
     fat_cluster_count f + 2 \<le> kEOC32"

lemma kEOC32_value: "kEOC32 = 0x01FFFFF8"
  by (simp add: kEOC32_def kBitMask_def upt_conv_Cons push_bit_eq_mult)

interpretation t16: fat_table Fat16 table_ok16 "2 ^ 16"
proof
  fix f and c v :: nat assume ok: "table_ok16 f" and c: "c < fat_cluster_count f + 2"
  have fok: "fat_ok f" and last_c: "table_base f + 2 * (fat_cluster_count f + 2) \<le> table_end f"
    using ok by (auto simp: table_ok16_def)
  note get = Fat16_entries(1) [OF fok] and set = Fat16_entries(2) [OF fok]
  show "\<exists>v<2 ^ 16. impl_GetFATEntry Fat16 f c = Some v"
    using unsigned_less [of "mem16 (fat_mem f) (table_base f + 2 * c)"] by (auto simp: Fat16_def get)
  show "impl_GetFATEntry Fat16 (with_mem f m) c = impl_GetFATEntry Fat16 f c"
    if "\<forall>a. table_base f \<le> a \<and> a < table_end f \<longrightarrow> m a = fat_mem f a" for m
    using that c last_c Fat16_entries(1) [of "with_mem f m"] fok by (simp add: Fat16_def get mem16_def)
  assume v: "v < 2 ^ 16"
  let ?m = "put_bytes (fat_mem f) (table_base f + 2 * c) (u16_bytes (of_nat v))"
  have "impl_GetFATEntry Fat16 (with_mem f ?m) c' = (if c' = c then Some v else impl_GetFATEntry Fat16 f c')" for c'
    using v Fat16_entries(1) [of "with_mem f ?m"] fok
    by (cases c' c rule: linorder_cases)
      (simp_all add: Fat16_def get mem16_put unsigned_of_nat take_bit_nat_eq_self)
  moreover have "?m a = fat_mem f a" if "a < table_base f \<or> table_end f \<le> a" for a
    using that c last_c by (auto simp: put_bytes_at)
  ultimately show "\<exists>m. impl_SetFATEntry Fat16 f c v = Some (with_mem f m) \<and>
        (\<forall>a. a < table_base f \<or> table_end f \<le> a \<longrightarrow> m a = fat_mem f a) \<and>
        (\<forall>c'<fat_cluster_count f + 2. impl_GetFATEntry Fat16 (with_mem f m) c' =
           (if c' = c then Some v else impl_GetFATEntry Fat16 f c'))"
    by (intro exI [of _ ?m]) (simp add: Fat16_def set)
qed (auto simp: table_ok16_def Fat16_def kEOC16_def)

interpretation t32: fat_table Fat32 table_ok32 "2 ^ 28"
proof
  fix f and c v :: nat assume ok: "table_ok32 f" and c: "c < fat_cluster_count f + 2"
  have fok: "fat_ok f" and last_c: "table_base f + 4 * (fat_cluster_count f + 2) \<le> table_end f"
    using ok by (auto simp: table_ok32_def)
  note get = Fat32_entries(1) [OF fok] and set = Fat32_entries(2) [OF fok]
  have "unat (w AND kClusterMask32) < 2 ^ 28" for w
  proof -
    have "w AND kClusterMask32 = take_bit 28 w"
      by (simp add: kClusterMask32_def take_bit_eq_mask mask_eq_exp_minus_1 drop_bit_eq_div)
    then show ?thesis by (simp add: unsigned_take_bit_eq take_bit_nat_less_exp [of 28, simplified])
  qed
  then show "\<exists>v<2 ^ 28. impl_GetFATEntry Fat32 f c = Some v" by (auto simp: Fat32_def get)
  show "impl_GetFATEntry Fat32 (with_mem f m) c = impl_GetFATEntry Fat32 f c"
    if "\<forall>a. table_base f \<le> a \<and> a < table_end f \<longrightarrow> m a = fat_mem f a" for m
    using that c last_c Fat32_entries(1) [of "with_mem f m"] fok by (simp add: Fat32_def get mem32_def)
  assume v: "v < 2 ^ 28"
  let ?m = "put_bytes (fat_mem f) (table_base f + 4 * c) (u32_bytes (set32 (mem32 (fat_mem f) (table_base f + 4 * c)) v))"
  have "impl_GetFATEntry Fat32 (with_mem f ?m) c' = (if c' = c then Some v else impl_GetFATEntry Fat32 f c')" for c'
    using v Fat32_entries(1) [of "with_mem f ?m"] fok
    by (cases c' c rule: linorder_cases) (simp_all add: Fat32_def get mem32_put set32_value)
  moreover have "?m a = fat_mem f a" if "a < table_base f \<or> table_end f \<le> a" for a
    using that c last_c by (auto simp: put_bytes_at)
  ultimately show "\<exists>m. impl_SetFATEntry Fat32 f c v = Some (with_mem f m) \<and>
        (\<forall>a. a < table_base f \<or> table_end f \<le> a \<longrightarrow> m a = fat_mem f a) \<and>
        (\<forall>c'<fat_cluster_count f + 2. impl_GetFATEntry Fat32 (with_mem f m) c' =
           (if c' = c then Some v else impl_GetFATEntry Fat32 f c'))"
    by (intro exI [of _ ?m]) (simp add: Fat32_def set)
qed (use unsigned_less [of "bs_root_cluster (fat_bs f)" for f :: fat] in \<open>auto simp: table_ok32_def Fat32_def kEOC32_value\<close>)

lemma pos12_cases:
  assumes "c' \<noteq> c"
  shows "pos12 c' + 2 \<le> pos12 c \<or> pos12 c + 2 \<le> pos12 c' \<or>
    c mod 2 = 0 \<and> c' mod 2 \<noteq> 0 \<and> pos12 c' = pos12 c + 1 \<or>
    c mod 2 \<noteq> 0 \<and> c' mod 2 = 0 \<and> pos12 c = pos12 c' + 1"
proof -
  obtain k where "c = 2 * k \<or> c = 2 * k + 1" by (metis oddE evenE)
  moreover obtain j where "c' = 2 * j \<or> c' = 2 * j + 1" by (metis oddE evenE)
  ultimately show ?thesis using assms unfolding pos12_def by auto
qed

lemma get12_set12:
  fixes m a c c' v
  defines "m' \<equiv> put_bytes m (a + pos12 c) (u16_bytes (set12 c (mem16 m (a + pos12 c)) v))"
  assumes "v < 2 ^ 12"
  shows "unat (get12 c' (mem16 m' (a + pos12 c'))) = (if c' = c then v else unat (get12 c' (mem16 m (a + pos12 c'))))"
proof (cases "c' = c")
  case True
  then show ?thesis using assms(2) by (simp add: m'_def mem16_put set12_value)
next
  case False
  from pos12_cases [OF this] consider "pos12 c' + 2 \<le> pos12 c \<or> pos12 c + 2 \<le> pos12 c'"
    | "c mod 2 = 0" "c' mod 2 \<noteq> 0" "pos12 c' = pos12 c + 1" | "c mod 2 \<noteq> 0" "c' mod 2 = 0" "pos12 c = pos12 c' + 1"
    by metis
  then show ?thesis
  proof cases
    case 1
    then have "mem16 m' (a + pos12 c') = mem16 m (a + pos12 c')" unfolding m'_def by (intro mem16_put) auto
    then show ?thesis using False by simp
  next
    case 2
    have "mem16 m' (a + pos12 c') =
        word16 (ucast (drop_bit 8 (set12 c (mem16 m (a + pos12 c)) v))) (m (a + pos12 c' + 1))"
      unfolding m'_def by (simp add: mem16_def put_bytes_at u16_bytes_def 2(3))
    moreover have "mem16 m (a + pos12 c') = word16 (m (a + pos12 c + 1)) (m (a + pos12 c' + 1))"
      by (simp add: mem16_def 2(3))
    ultimately show ?thesis
      using False 2 set12_neighbour_odd [OF 2(1), of "m (a + pos12 c)" "m (a + pos12 c + 1)" v]
      by (simp add: get12_def mem16_def)
  next
    case 3
    have "mem16 m' (a + pos12 c') = word16 (m (a + pos12 c')) (ucast (set12 c (mem16 m (a + pos12 c)) v))"
      unfolding m'_def by (simp add: mem16_def put_bytes_at u16_bytes_def 3(3))
    moreover have "mem16 m (a + pos12 c') = word16 (m (a + pos12 c')) (m (a + pos12 c))"
      by (simp add: mem16_def 3(3))
    ultimately show ?thesis
      using False 3 set12_neighbour_even [OF 3(1), of "m (a + pos12 c')" "m (a + pos12 c)" "m (a + pos12 c + 1)" v]
      by (simp add: get12_def kClusterMask12_mask mem16_def)
  qed
qed

interpretation t12: fat_table Fat12 table_ok12 "2 ^ 12"
proof
  fix f and c v :: nat assume ok: "table_ok12 f" and c: "c < fat_cluster_count f + 2"
  have fok: "fat_ok f" and last_c: "table_base f + pos12 (fat_cluster_count f + 2) + 1 \<le> table_end f"
    using ok by (auto simp: table_ok12_def)
  have pos: "pos12 c + 1 \<le> pos12 (fat_cluster_count f + 2)"
    using c div_le_mono [of c "fat_cluster_count f + 2" 2] unfolding pos12_def by simp
  note get = Fat12_entries(1) [OF fok] and set = Fat12_entries(2) [OF fok c]
  have "unat (get12 c w) < 2 ^ 12" for w
  proof -
    have "get12 c w = take_bit 12 (get12 c w)"
      unfolding get12_def kClusterMask12_mask
      by (cases "c mod 2 = 0"; simp; rule bit_word_eqI) (auto simp: bit_simps dest: bit_imp_le_length)
    then have "unat (get12 c w) = take_bit 12 (unat (get12 c w))" by (metis unsigned_take_bit_eq)
    then show ?thesis by (metis take_bit_nat_less_exp)
  qed
  then show "\<exists>v<2 ^ 12. impl_GetFATEntry Fat12 f c = Some v" by (auto simp: Fat12_def get [OF c])
  show "impl_GetFATEntry Fat12 (with_mem f m) c = impl_GetFATEntry Fat12 f c"
    if "\<forall>a. table_base f \<le> a \<and> a < table_end f \<longrightarrow> m a = fat_mem f a" for m
    using that c last_c pos Fat12_entries(1) [of "with_mem f m"] fok
    by (simp add: Fat12_def get mem16_def)
  assume v: "v < 2 ^ 12"
  let ?m = "put_bytes (fat_mem f) (table_base f + pos12 c) (u16_bytes (set12 c (mem16 (fat_mem f) (table_base f + pos12 c)) v))"
  have "impl_GetFATEntry Fat12 (with_mem f ?m) c' = (if c' = c then Some v else impl_GetFATEntry Fat12 f c')"
    if "c' < fat_cluster_count f + 2" for c'
    using that Fat12_entries(1) [of "with_mem f ?m" c'] fok get12_set12 [OF v]
    by (simp add: Fat12_def get)
  moreover have "?m a = fat_mem f a" if "a < table_base f \<or> table_end f \<le> a" for a
    using that pos last_c by (auto simp: put_bytes_at)
  ultimately show "\<exists>m. impl_SetFATEntry Fat12 f c v = Some (with_mem f m) \<and>
        (\<forall>a. a < table_base f \<or> table_end f \<le> a \<longrightarrow> m a = fat_mem f a) \<and>
        (\<forall>c'<fat_cluster_count f + 2. impl_GetFATEntry Fat12 (with_mem f m) c' =
           (if c' = c then Some v else impl_GetFATEntry Fat12 f c'))"
    by (intro exI [of _ ?m]) (simp add: Fat12_def set)
qed (auto simp: table_ok12_def Fat12_def kEOC12_def)

end
