(* ===== verification/Fat_Chain.thy ===== *)
theory Fat_Chain
  imports Fat_Table "HOL-Library.Sublist"
begin

text \<open>
  Cluster chains over the table interface: what \<open>AllocateCluster_\<close>, \<open>FreeClusterChain_\<close>, \<open>SkipClusters_\<close> and
  \<open>EnsureClusterChain_\<close> of \<open>kernel/src/fs/vfs/fat/fat.hpp\<close> do to them, proved once in the locale
  \<open>fat_table\<close> and stated for the three types of file system.
\<close>

section \<open>Entries and chains\<close>

definition table_entry :: "fat_impl \<Rightarrow> fat \<Rightarrow> nat \<Rightarrow> nat" where
  "table_entry impl f c = the (impl_GetFATEntry impl f c)"

abbreviation is_cluster :: "fat \<Rightarrow> nat \<Rightarrow> bool" where
  "is_cluster f c \<equiv> 2 \<le> c \<and> c < fat_cluster_count f + 2"

definition free_clusters :: "fat_impl \<Rightarrow> fat \<Rightarrow> nat set" where
  "free_clusters impl f = {c. is_cluster f c \<and> table_entry impl f c = 0}"

text \<open>\<open>cs\<close> is the chain that starts at \<open>c\<close>: every entry holds the next cluster, the last one an end mark.\<close>

fun links :: "fat_impl \<Rightarrow> fat \<Rightarrow> nat list \<Rightarrow> bool" where
  "links impl f [] = False"
| "links impl f [c] = (is_cluster f c \<and> impl_kEOC impl \<le> table_entry impl f c)"
| "links impl f (c # d # cs) = (is_cluster f c \<and> table_entry impl f c = d \<and> links impl f (d # cs))"

definition chain :: "fat_impl \<Rightarrow> fat \<Rightarrow> nat \<Rightarrow> nat list \<Rightarrow> bool" where
  "chain impl f c cs \<longleftrightarrow> links impl f cs \<and> hd cs = c \<and> distinct cs"

text \<open>Every entry is a cluster number, zero or one, or an end mark.\<close>

definition closed_table :: "fat_impl \<Rightarrow> fat \<Rightarrow> bool" where
  "closed_table impl f \<longleftrightarrow>
     (\<forall>c<fat_cluster_count f + 2. table_entry impl f c < fat_cluster_count f + 2 \<or> impl_kEOC impl \<le> table_entry impl f c)"

text \<open>The entries in \<open>upd\<close> have their new values, the others keep theirs, as do the bytes outside the table.\<close>

definition entries_updated :: "fat_impl \<Rightarrow> fat \<Rightarrow> (nat \<rightharpoonup> nat) \<Rightarrow> fat \<Rightarrow> bool" where
  "entries_updated impl f upd f' \<longleftrightarrow> (\<exists>m. f' = with_mem f m \<and>
     (\<forall>a. a < table_base f \<or> table_end f \<le> a \<longrightarrow> m a = fat_mem f a)) \<and>
     (\<forall>c<fat_cluster_count f + 2. table_entry impl f' c = (case upd c of Some v \<Rightarrow> v | None \<Rightarrow> table_entry impl f c))"

definition cleared :: "nat set \<Rightarrow> nat \<rightharpoonup> nat" where
  "cleared S = (\<lambda>c. if c \<in> S then Some 0 else None)"

lemma cleared_insert: "[c \<mapsto> 0] ++ cleared S = cleared (insert c S)"
  by (auto simp: cleared_def map_add_def)

lemma cleared_empty: "cleared {} = Map.empty"
  by (simp add: cleared_def)

lemma entries_updated_refl: "entries_updated impl f Map.empty f"
  by (auto simp: entries_updated_def intro: exI [of _ "fat_mem f"])

lemma entries_updated_trans:
  assumes "entries_updated impl f u f'" and "entries_updated impl f' u' f''"
  shows "entries_updated impl f (u ++ u') f''"
proof -
  obtain m where m: "f' = with_mem f m" "\<forall>a. a < table_base f \<or> table_end f \<le> a \<longrightarrow> m a = fat_mem f a"
    using assms(1) by (auto simp: entries_updated_def)
  obtain m' where m': "f'' = with_mem f' m'" "\<forall>a. a < table_base f' \<or> table_end f' \<le> a \<longrightarrow> m' a = fat_mem f' a"
    using assms(2) by (auto simp: entries_updated_def)
  have "\<exists>m. f'' = with_mem f m \<and> (\<forall>a. a < table_base f \<or> table_end f \<le> a \<longrightarrow> m a = fat_mem f a)"
    using m m' by (intro exI [of _ m']) auto
  then show ?thesis
    using assms m(1) by (auto simp: entries_updated_def map_add_def split: option.splits)
qed

lemma updated_entry:
  assumes "entries_updated impl f u f'" and "c < fat_cluster_count f + 2"
  shows "u c = Some v \<Longrightarrow> table_entry impl f' c = v" and "u c = None \<Longrightarrow> table_entry impl f' c = table_entry impl f c"
  using assms by (auto simp: entries_updated_def)

lemma updated_one:
  "entries_updated impl f [k \<mapsto> v] f' \<Longrightarrow> c < fat_cluster_count f + 2 \<Longrightarrow>
    table_entry impl f' c = (if c = k then v else table_entry impl f c)"
  by (simp add: entries_updated_def)

lemma updated_cleared:
  "entries_updated impl f (cleared S) f' \<Longrightarrow> c < fat_cluster_count f + 2 \<Longrightarrow>
    table_entry impl f' c = (if c \<in> S then 0 else table_entry impl f c)"
  by (simp add: entries_updated_def cleared_def)

lemma entries_updated_fields:
  assumes "entries_updated impl f u f'"
  shows "fat_cluster_count f' = fat_cluster_count f" "GetClusterSize f' = GetClusterSize f"
    "table_base f' = table_base f" "table_end f' = table_end f"
    "data_region_start f' = data_region_start f" "GetClusterSector f' = GetClusterSector f"
    "fat_bs f' = fat_bs f" "fat_ok f' = fat_ok f"
    "im_sector_size (fat_io f') = im_sector_size (fat_io f)"
  using assms by (auto simp: entries_updated_def)

lemma links_is_cluster: "links impl f cs \<Longrightarrow> c \<in> set cs \<Longrightarrow> is_cluster f c"
  by (induction impl f cs rule: links.induct) auto

lemma links_update:
  assumes "entries_updated impl f u f'" and "set cs \<inter> dom u = {}"
  shows "links impl f' cs = links impl f cs"
  using assms
proof (induction impl f cs rule: links.induct)
  case (2 impl f c)
  then show ?case by (auto simp: entries_updated_def split: option.splits)
next
  case (3 impl f c d cs)
  then show ?case by (auto simp: entries_updated_def split: option.splits)
qed simp

text \<open>The same, by position.\<close>

lemma all_nat: "(\<forall>i. P i) \<longleftrightarrow> P 0 \<and> (\<forall>i. P (Suc i))" for P :: "nat \<Rightarrow> bool"
  by (metis not0_implies_Suc)

lemma links_iff:
  "links impl f cs \<longleftrightarrow> cs \<noteq> [] \<and> (\<forall>c\<in>set cs. is_cluster f c) \<and>
     (\<forall>i. Suc i < length cs \<longrightarrow> table_entry impl f (cs ! i) = cs ! Suc i) \<and> impl_kEOC impl \<le> table_entry impl f (last cs)"
proof (induction impl f cs rule: links.induct)
  case (3 impl f c d cs)
  have "(\<forall>i. Suc i < length (c # d # cs) \<longrightarrow> table_entry impl f ((c # d # cs) ! i) = (c # d # cs) ! Suc i) \<longleftrightarrow>
      table_entry impl f c = d \<and> (\<forall>i. Suc i < length (d # cs) \<longrightarrow> table_entry impl f ((d # cs) ! i) = (d # cs) ! Suc i)"
    by (subst all_nat) simp
  then show ?case using 3 by auto
qed auto

lemma linksD:
  assumes "links impl f cs"
  shows "cs \<noteq> []" "\<And>c. c \<in> set cs \<Longrightarrow> is_cluster f c" "\<And>i. Suc i < length cs \<Longrightarrow> table_entry impl f (cs ! i) = cs ! Suc i"
    "impl_kEOC impl \<le> table_entry impl f (last cs)"
  using assms by (auto simp: links_iff)

lemma links_nth_cluster: "links impl f cs \<Longrightarrow> i < length cs \<Longrightarrow> is_cluster f (cs ! i)"
  using linksD(2) nth_mem by blast

section \<open>Where clusters lie\<close>

definition cluster_addr :: "fat \<Rightarrow> nat \<Rightarrow> nat" where
  "cluster_addr f c = GetClusterSector f c * bytes_per_sector f"

definition cluster_data :: "fat \<Rightarrow> nat \<Rightarrow> u8 list" where
  "cluster_data f c = bytes_at (fat_mem f) (cluster_addr f c) (GetClusterSize f)"

lemma length_cluster_data [simp]: "length (cluster_data f c) = GetClusterSize f"
  by (simp add: cluster_data_def)

lemma cluster_addr_mem [simp]: "cluster_addr (with_mem f m) c = cluster_addr f c"
  by (simp add: cluster_addr_def)

lemma sector_u32: "a + b * s < 2 ^ 32 \<Longrightarrow> nat ((int a + int b * int s) mod 2 ^ 32) = a + b * s" for a b s :: nat
  using nat_int [of "a + b * s"] by (subst mod_pos_pos_trivial) (simp_all flip: of_nat_add of_nat_mult)

lemma cluster_addr_eq:
  assumes "fat_ok f" and "is_cluster f c"
  shows "cluster_addr f c = data_region_start f * bytes_per_sector f + (c - 2) * GetClusterSize f"
proof -
  have "(c - 2) * sectors_per_cluster f \<le> fat_cluster_count f * sectors_per_cluster f"
    using assms(2) by (intro mult_right_mono) auto
  then have "data_region_start f + (c - 2) * sectors_per_cluster f < 2 ^ 32"
    using assms(1) unfolding fat_ok_def by linarith
  moreover have "int c - int kFirstClusterNumber = int (c - 2)" using assms(2) by (simp add: kFirstClusterNumber_def)
  ultimately have "GetClusterSector f c = data_region_start f + (c - 2) * sectors_per_cluster f"
    unfolding GetClusterSector_def by (simp only: sector_u32)
  then show ?thesis by (simp add: cluster_addr_def GetClusterSize_def algebra_simps)
qed

lemma cluster_after_table:
  assumes "fat_ok f" and "is_cluster f c"
  shows "table_end f \<le> cluster_addr f c"
proof -
  have "(fat_region_start f + fat_region_count f) * bytes_per_sector f \<le> data_region_start f * bytes_per_sector f"
    using assms(1) by (intro mult_right_mono) (auto simp: fat_ok_def)
  then show ?thesis unfolding cluster_addr_eq [OF assms] table_end_def by linarith
qed

lemma clusters_apart:
  assumes "fat_ok f" and "is_cluster f c" and "is_cluster f d" and "c \<noteq> d"
  shows "cluster_addr f c + GetClusterSize f \<le> cluster_addr f d \<or> cluster_addr f d + GetClusterSize f \<le> cluster_addr f c"
proof -
  have "(x - 2) * n + n \<le> (y - 2) * n" if "x < y" "2 \<le> x" for x y n :: nat
    using mult_le_mono1 [of "x - 2 + 1" "y - 2" n] that by (simp add: algebra_simps)
  from this [of c d "GetClusterSize f"] this [of d c "GetClusterSize f"] show ?thesis
    using assms(2-4) unfolding cluster_addr_eq [OF assms(1,2)] cluster_addr_eq [OF assms(1,3)] by linarith
qed

text \<open>
  \<open>cs\<close> grew to \<open>cs'\<close> by clusters that were free; outside the table and the clusters of \<open>cs'\<close> no byte changed,
  and no entry of another cluster.
\<close>

definition in_cluster :: "fat \<Rightarrow> nat \<Rightarrow> nat \<Rightarrow> bool" where
  "in_cluster f c a \<longleftrightarrow> cluster_addr f c \<le> a \<and> a < cluster_addr f c + GetClusterSize f"

definition outside :: "fat \<Rightarrow> nat set \<Rightarrow> nat \<Rightarrow> bool" where
  "outside f S a \<longleftrightarrow> (a < table_base f \<or> table_end f \<le> a) \<and> (\<forall>c\<in>S. \<not> in_cluster f c a)"

definition grows :: "fat_impl \<Rightarrow> fat \<Rightarrow> nat list \<Rightarrow> fat \<Rightarrow> nat list \<Rightarrow> bool" where
  "grows impl f cs f' cs' \<longleftrightarrow>
     (\<exists>m. f' = with_mem f m \<and> (\<forall>a. outside f (set cs') a \<longrightarrow> m a = fat_mem f a)) \<and>
     links impl f' cs' \<and> distinct cs' \<and> prefix cs cs' \<and> set cs' \<subseteq> set cs \<union> free_clusters impl f \<and>
     (\<forall>c<fat_cluster_count f + 2. c \<notin> set cs' \<longrightarrow> table_entry impl f' c = table_entry impl f c)"

lemma outside_mem [simp]: "outside (with_mem f m) = outside f"
  by (simp add: outside_def in_cluster_def fun_eq_iff)

lemma grows_fields:
  assumes "grows impl f cs f' cs'"
  shows "fat_cluster_count f' = fat_cluster_count f" "GetClusterSize f' = GetClusterSize f"
    "cluster_addr f' = cluster_addr f" "fat_ok f' = fat_ok f" "fat_bs f' = fat_bs f"
    "root_dir_region_start f' = root_dir_region_start f" "root_dir_region_count f' = root_dir_region_count f"
    "im_sector_size (fat_io f') = im_sector_size (fat_io f)"
    "links impl f' cs'" "distinct cs'" "prefix cs cs'" "set cs' \<subseteq> set cs \<union> free_clusters impl f"
  using assms by (auto simp: grows_def)

lemma grows_entry:
  "grows impl f cs f' cs' \<Longrightarrow> c < fat_cluster_count f + 2 \<Longrightarrow> c \<notin> set cs' \<Longrightarrow> table_entry impl f' c = table_entry impl f c"
  by (simp add: grows_def)

lemma grows_mem:
  assumes "grows impl f cs f' cs'"
  obtains m where "f' = with_mem f m" and "\<And>a. outside f (set cs') a \<Longrightarrow> m a = fat_mem f a"
  using assms by (auto simp: grows_def)

lemma growsI:
  assumes "f' = with_mem f m" and "\<And>a. outside f (set cs') a \<Longrightarrow> m a = fat_mem f a" and "links impl f' cs'"
    and "distinct cs'" and "prefix cs cs'" and "set cs' \<subseteq> set cs \<union> free_clusters impl f"
    and "\<And>c. c < fat_cluster_count f + 2 \<Longrightarrow> c \<notin> set cs' \<Longrightarrow> table_entry impl f' c = table_entry impl f c"
  shows "grows impl f cs f' cs'"
  unfolding grows_def using assms by blast

lemma grows_other_data:
  assumes "grows impl f cs f' cs'" and "fat_ok f" and "is_cluster f c" and "c \<notin> set cs'"
  shows "cluster_data f' c = cluster_data f c"
proof -
  obtain m where m: "f' = with_mem f m" "\<forall>a. outside f (set cs') a \<longrightarrow> m a = fat_mem f a" "links impl f' cs'"
    using assms(1) by (auto simp: grows_def)
  have cl: "is_cluster f d" if "d \<in> set cs'" for d using linksD(2) [OF m(3) that] m(1) by simp
  have "outside f (set cs') a" if a: "in_cluster f c a" for a
  proof -
    have "\<not> in_cluster f d a" if "d \<in> set cs'" for d
      using clusters_apart [OF assms(2,3) cl [OF that]] a assms(4) that unfolding in_cluster_def by fastforce
    then show ?thesis
      using a cluster_after_table [OF assms(2,3)] by (simp add: outside_def in_cluster_def)
  qed
  then have "m a = fat_mem f a" if "in_cluster f c a" for a using m(2) that by blast
  then show ?thesis
    by (intro nth_equalityI) (simp_all add: m(1) cluster_data_def in_cluster_def)
qed

section \<open>The operations on chains\<close>

context fat_table
begin

lemma GetFATEntry_entry:
  assumes "table_ok f" and "c < fat_cluster_count f + 2"
  shows "impl_GetFATEntry impl f c = Some (table_entry impl f c)" and "table_entry impl f c < lim"
  using get_entry [OF assms] by (auto simp: table_entry_def)

lemma SetFATEntry_updates:
  assumes "table_ok f" and "c < fat_cluster_count f + 2" and "v < lim"
  obtains f' where "impl_SetFATEntry impl f c v = Some f'" and "table_ok f'" and "entries_updated impl f [c \<mapsto> v] f'"
proof -
  from set_entry [OF assms] obtain m where m: "impl_SetFATEntry impl f c v = Some (with_mem f m)"
    "\<forall>a. a < table_base f \<or> table_end f \<le> a \<longrightarrow> m a = fat_mem f a"
    "\<forall>c'<fat_cluster_count f + 2. impl_GetFATEntry impl (with_mem f m) c' =
           (if c' = c then Some v else impl_GetFATEntry impl f c')"
    by blast
  have "entries_updated impl f [c \<mapsto> v] (with_mem f m)"
    using m(2,3) by (auto simp: entries_updated_def table_entry_def)
  then show ?thesis using that m(1) table_ok_mem [OF assms(1)] by blast
qed

lemma updates_ok: "table_ok f \<Longrightarrow> entries_updated impl f u f' \<Longrightarrow> table_ok f'"
  using table_ok_mem by (auto simp: entries_updated_def)

lemma AllocateCluster_loop_ok:
  assumes "table_ok f" and "v < lim" and "2 \<le> c" and "c + n = fat_cluster_count f + 2"
  shows "AllocateCluster_loop impl f v c n = Some (0, f) \<and> (\<forall>k\<in>{c..<c + n}. table_entry impl f k \<noteq> 0) \<or>
    (\<exists>k f'. AllocateCluster_loop impl f v c n = Some (k, f') \<and> k \<in> {c..<c + n} \<and> table_entry impl f k = 0 \<and>
      (\<forall>j\<in>{c..<k}. table_entry impl f j \<noteq> 0) \<and> entries_updated impl f [k \<mapsto> v] f')"
  using assms
proof (induction n arbitrary: c)
  case (Suc n)
  have c: "c < fat_cluster_count f + 2" using Suc.prems by simp
  show ?case
  proof (cases "table_entry impl f c = 0")
    case True
    obtain f' where "impl_SetFATEntry impl f c v = Some f'" "entries_updated impl f [c \<mapsto> v] f'"
      using SetFATEntry_updates [OF Suc.prems(1) c Suc.prems(2)] by blast
    then show ?thesis
      using True GetFATEntry_entry [OF Suc.prems(1) c]
      by (intro disjI2 exI [of _ c] exI [of _ f'] conjI) (simp_all del: fun_upd_apply)
  next
    case False
    have step: "AllocateCluster_loop impl f v c (Suc n) = AllocateCluster_loop impl f v (c + 1) n"
      using False GetFATEntry_entry [OF Suc.prems(1) c] by simp
    have ins: "{c..<c + Suc n} = insert c {c + 1..<c + 1 + n}" "k \<in> {c + 1..<c + 1 + n} \<Longrightarrow> {c..<k} = insert c {c + 1..<k}" for k
      by auto
    have eq: "c + 1 + n = fat_cluster_count f + 2" "2 \<le> c + 1" using Suc.prems by simp_all
    from Suc.IH [OF Suc.prems(1,2) eq(2,1)] show ?thesis
    proof (elim disjE exE conjE)
      assume "AllocateCluster_loop impl f v (c + 1) n = Some (0, f)" "\<forall>k\<in>{c + 1..<c + 1 + n}. table_entry impl f k \<noteq> 0"
      then show ?thesis unfolding step ins(1) using False by simp
    next
      fix k f'
      assume k: "AllocateCluster_loop impl f v (c + 1) n = Some (k, f')" "k \<in> {c + 1..<c + 1 + n}"
        "table_entry impl f k = 0" "\<forall>j\<in>{c + 1..<k}. table_entry impl f j \<noteq> 0" "entries_updated impl f [k \<mapsto> v] f'"
      have "\<forall>j\<in>{c..<k}. table_entry impl f j \<noteq> 0" using k(4) False unfolding ins(2) [OF k(2)] by simp
      then show ?thesis unfolding step ins(1) using k by blast
    qed
  qed
qed simp

lemma AllocateCluster_cases:
  assumes "table_ok f"
  obtains (full) "AllocateCluster impl f = Some (0, f)" and "free_clusters impl f = {}"
    | (ok) k f' where "AllocateCluster impl f = Some (k, f')" and "k \<in> free_clusters impl f"
      and "\<forall>j\<in>free_clusters impl f. k \<le> j" and "entries_updated impl f [k \<mapsto> impl_kEOC impl] f'" and "table_ok f'"
proof -
  have lim: "impl_kEOC impl < lim" using geometry [OF assms] by blast
  show ?thesis
    using AllocateCluster_loop_ok [OF assms lim order_refl add.commute]
  proof (elim disjE conjE exE)
    assume "AllocateCluster_loop impl f (impl_kEOC impl) 2 (fat_cluster_count f) = Some (0, f)"
      "\<forall>k\<in>{2..<2 + fat_cluster_count f}. table_entry impl f k \<noteq> 0"
    then show ?thesis
      by (intro full) (auto simp: AllocateCluster_def kFirstClusterNumber_def free_clusters_def)
  next
    fix k f'
    assume k: "AllocateCluster_loop impl f (impl_kEOC impl) 2 (fat_cluster_count f) = Some (k, f')"
      "k \<in> {2..<2 + fat_cluster_count f}" "table_entry impl f k = 0" "\<forall>j\<in>{2..<k}. table_entry impl f j \<noteq> 0"
      "entries_updated impl f [k \<mapsto> impl_kEOC impl] f'"
    show ?thesis
    proof (rule ok [OF _ _ _ k(5) updates_ok [OF assms k(5)]])
      show "AllocateCluster impl f = Some (k, f')"
        using k(1) by (simp add: AllocateCluster_def kFirstClusterNumber_def)
      show "k \<in> free_clusters impl f" using k(2,3) by (simp add: free_clusters_def)
      show "\<forall>j\<in>free_clusters impl f. k \<le> j"
        using k(4) by (metis (mono_tags, lifting) atLeastLessThan_iff free_clusters_def leI mem_Collect_eq)
    qed
  qed
qed

lemma AllocateCluster_min:
  assumes "table_ok f"
  shows "\<exists>k f'. AllocateCluster impl f = Some (k, f') \<and> table_ok f' \<and>
    (if free_clusters impl f = {} then k = 0 \<and> f' = f
     else k = Min (free_clusters impl f) \<and> entries_updated impl f [k \<mapsto> impl_kEOC impl] f')"
proof (rule AllocateCluster_cases [OF assms], goal_cases full ok)
  case full
  then show ?case using assms by simp
next
  case (ok k f')
  have "finite (free_clusters impl f)" by (simp add: free_clusters_def)
  then have "k = Min (free_clusters impl f)" using ok(2,3) by (metis Min_eqI)
  then show ?case using ok by (metis empty_iff)
qed

lemma FreeClusterChain_stop: "c = 0 \<or> impl_kEOC impl \<le> c \<Longrightarrow> FreeClusterChain impl f c = Some f"
  by (subst FreeClusterChain.simps) auto

lemma FreeClusterChain_step:
  assumes "table_ok f" and "c \<noteq> 0" and "c < fat_cluster_count f + 2"
  obtains f' where "FreeClusterChain impl f c = FreeClusterChain impl f' (table_entry impl f c)"
    and "entries_updated impl f [c \<mapsto> 0] f'" and "table_ok f'"
proof -
  have g: "fat_cluster_count f + 2 \<le> impl_kEOC impl" "0 < lim" using geometry [OF assms(1)] by auto
  obtain f' where f': "impl_SetFATEntry impl f c 0 = Some f'" "table_ok f'" "entries_updated impl f [c \<mapsto> 0] f'"
    using SetFATEntry_updates [OF assms(1,3) g(2)] .
  show ?thesis
    by (rule that [of f'])
      (use assms f' g(1) in \<open>simp_all add: FreeClusterChain.simps [of impl f c] GetFATEntry_entry del: fun_upd_apply\<close>)
qed

definition used_entries :: "fat \<Rightarrow> nat set" where
  "used_entries f = {c. c < fat_cluster_count f + 2 \<and> table_entry impl f c \<noteq> 0}"

lemma closed_table_freed:
  "closed_table impl f \<Longrightarrow> entries_updated impl f [c \<mapsto> 0] f' \<Longrightarrow> closed_table impl f'"
  by (simp add: closed_table_def entries_updated_fields(1) updated_one)

lemma FreeClusterChain_returns:
  assumes "table_ok f" and "closed_table impl f" and "c < fat_cluster_count f + 2 \<or> impl_kEOC impl \<le> c"
  shows "\<exists>f' S. FreeClusterChain impl f c = Some f' \<and>
    entries_updated impl f (cleared S) f'"
  using assms
proof (induction "card (used_entries f)" arbitrary: f c rule: less_induct)
  case less
  show ?case
  proof (cases "c = 0 \<or> impl_kEOC impl \<le> c")
    case True
    then show ?thesis
      using FreeClusterChain_stop entries_updated_refl [of impl f] cleared_empty by metis
  next
    case False
    then have c: "c \<noteq> 0" "c < fat_cluster_count f + 2" using less.prems(3) by auto
    obtain f' where f': "FreeClusterChain impl f c = FreeClusterChain impl f' (table_entry impl f c)"
      "entries_updated impl f [c \<mapsto> 0] f'" "table_ok f'"
      using FreeClusterChain_step [OF less.prems(1) c] .
    have "\<exists>f'' S. FreeClusterChain impl f' (table_entry impl f c) = Some f'' \<and>
      entries_updated impl f' (cleared S) f''"
    proof (cases "table_entry impl f c = 0")
      case True
      then show ?thesis
        using FreeClusterChain_stop entries_updated_refl [of impl f'] cleared_empty by metis
    next
      case False
      have "used_entries f' = used_entries f - {c}" "c \<in> used_entries f" "finite (used_entries f)"
        using updated_one [OF f'(2)] entries_updated_fields(1) [OF f'(2)] False c(2)
        by (auto simp: used_entries_def split: if_splits)
      then have "card (used_entries f') < card (used_entries f)" by (metis card_Diff1_less)
      moreover have "table_entry impl f c < fat_cluster_count f' + 2 \<or> impl_kEOC impl \<le> table_entry impl f c"
        using less.prems(2) c(2) entries_updated_fields(1) [OF f'(2)] by (auto simp: closed_table_def)
      ultimately show ?thesis
        using less.hyps [OF _ f'(3) closed_table_freed [OF less.prems(2) f'(2)]] by blast
    qed
    then obtain f'' S where "FreeClusterChain impl f c = Some f''"
      and "entries_updated impl f' (cleared S) f''"
      using f'(1) by auto
    moreover have "entries_updated impl f (cleared (insert c S)) f''"
      using entries_updated_trans [OF f'(2) calculation(2)] by (simp only: cleared_insert)
    ultimately show ?thesis by blast
  qed
qed

lemma FreeClusterChain_links:
  assumes "table_ok f" and "links impl f cs" and "distinct cs"
  shows "\<exists>f'. FreeClusterChain impl f (hd cs) = Some f' \<and>
    entries_updated impl f (cleared (set cs)) f'"
  using assms
proof (induction cs arbitrary: f)
  case (Cons c cs)
  have c: "c \<noteq> 0" "c < fat_cluster_count f + 2" using links_is_cluster [OF Cons.prems(2), of c] by auto
  obtain f' where f': "FreeClusterChain impl f c = FreeClusterChain impl f' (table_entry impl f c)"
    "entries_updated impl f [c \<mapsto> 0] f'" "table_ok f'"
    using FreeClusterChain_step [OF Cons.prems(1) c] .
  have "\<exists>f''. FreeClusterChain impl f' (table_entry impl f c) = Some f'' \<and>
    entries_updated impl f' (cleared (set cs)) f''"
  proof (cases cs)
    case Nil
    then show ?thesis
      using Cons.prems(2) FreeClusterChain_stop [of "table_entry impl f c"] entries_updated_refl [of impl f'] cleared_empty
      by simp
  next
    case (Cons d ds)
    then show ?thesis
      using Cons.IH [OF f'(3)] Cons.prems(2,3) links_update [OF f'(2), of cs] by auto
  qed
  then obtain f'' where "FreeClusterChain impl f c = Some f''"
    and "entries_updated impl f' (cleared (set cs)) f''"
    using f'(1) by auto
  moreover have "entries_updated impl f (cleared (insert c (set cs))) f''"
    using entries_updated_trans [OF f'(2) calculation(2)] by (simp only: cleared_insert)
  ultimately show ?case by simp
qed simp

lemma links_entry_nonzero:
  assumes "table_ok f" and "links impl f cs" and "c \<in> set cs"
  shows "table_entry impl f c \<noteq> 0"
proof -
  obtain i where i: "i < length cs" "cs ! i = c" using assms(3) by (metis in_set_conv_nth)
  show ?thesis
  proof (cases "Suc i < length cs")
    case True
    then show ?thesis using linksD(3) [OF assms(2) True] i links_nth_cluster [OF assms(2) True] by auto
  next
    case False
    then have "cs ! i = last cs" using i(1) by (metis Suc_lessI diff_Suc_1 last_conv_nth length_0_conv not_less_zero)
    then show ?thesis using linksD(4) [OF assms(2)] i(2) geometry [OF assms(1)] by auto
  qed
qed

lemma grows_ok: "table_ok f \<Longrightarrow> grows impl f cs f' cs' \<Longrightarrow> table_ok f'"
  using table_ok_mem by (auto simp: grows_def)

lemma grows_free:
  assumes "table_ok f" and "grows impl f cs f' cs'"
  shows "free_clusters impl f' = free_clusters impl f - set cs'"
proof -
  have "c \<notin> free_clusters impl f'" if "c \<in> set cs'" for c
    using links_entry_nonzero [OF grows_ok [OF assms] grows_fields(9) [OF assms(2)] that] by (simp add: free_clusters_def)
  moreover have "table_entry impl f' c = table_entry impl f c" if "c < fat_cluster_count f + 2" "c \<notin> set cs'" for c
    using assms(2) that by (simp add: grows_def)
  ultimately have "c \<in> free_clusters impl f' \<longleftrightarrow> c \<in> free_clusters impl f \<and> c \<notin> set cs'" for c
    using grows_fields(1) [OF assms(2)] by (cases "c \<in> set cs'") (auto simp: free_clusters_def)
  then show ?thesis by blast
qed

lemma grows_trans:
  assumes "table_ok f" and "grows impl f cs f' cs'" and "grows impl f' cs' f'' cs''"
  shows "grows impl f cs f'' cs''"
proof -
  have sub: "set cs' \<subseteq> set cs''" using grows_fields(11) [OF assms(3)] set_mono_prefix by blast
  obtain m where m: "f' = with_mem f m" "\<And>a. outside f (set cs') a \<Longrightarrow> m a = fat_mem f a"
    using grows_mem [OF assms(2)] by metis
  obtain m' where m': "f'' = with_mem f' m'" "\<And>a. outside f' (set cs'') a \<Longrightarrow> m' a = fat_mem f' a"
    using grows_mem [OF assms(3)] by metis
  show ?thesis
  proof (rule growsI)
    show "f'' = with_mem f m'" using m(1) m'(1) by simp
    show "m' a = fat_mem f a" if "outside f (set cs'') a" for a
      using that sub m(2) [of a] m'(2) [of a] m(1) by (auto simp: outside_def)
    show "set cs'' \<subseteq> set cs \<union> free_clusters impl f"
      using grows_fields(12) [OF assms(2)] grows_fields(12) [OF assms(3)] grows_free [OF assms(1,2)] by blast
    show "table_entry impl f'' c = table_entry impl f c" if "c < fat_cluster_count f + 2" "c \<notin> set cs''" for c
      using grows_entry [OF assms(2)] grows_entry [OF assms(3)] sub grows_fields(1) [OF assms(2)] that by auto
    show "prefix cs cs''" using grows_fields(11) [OF assms(2)] grows_fields(11) [OF assms(3)] by (rule prefix_order.trans)
  qed (use grows_fields(9,10) [OF assms(3)] in auto)
qed

lemma updates_grows:
  assumes "entries_updated impl f u f'" and "dom u \<subseteq> set cs'" and "links impl f' cs'" and "distinct cs'"
    and "prefix cs cs'" and "set cs' \<subseteq> set cs \<union> free_clusters impl f"
  shows "grows impl f cs f' cs'"
  using assms by (auto simp: grows_def entries_updated_def outside_def split: option.splits)

lemma grows_refl: "links impl f cs \<Longrightarrow> distinct cs \<Longrightarrow> grows impl f cs f cs"
  by (rule updates_grows [OF entries_updated_refl]) auto

lemma links_snoc:
  assumes "links impl f cs" and "k \<notin> set cs" and "distinct cs" and "is_cluster f k"
    and u: "entries_updated impl f [k \<mapsto> v, last cs \<mapsto> k] f'" and "impl_kEOC impl \<le> v"
  shows "links impl f' (cs @ [k])"
proof -
  have ne: "cs \<noteq> []" using linksD(1) [OF assms(1)] .
  have e: "table_entry impl f' c = (if c = last cs then k else if c = k then v else table_entry impl f c)" if "is_cluster f c" for c
    using u that by (simp add: entries_updated_def)
  have cl: "is_cluster f' c \<longleftrightarrow> is_cluster f c" for c using entries_updated_fields(1) [OF u] by simp
  have "table_entry impl f' ((cs @ [k]) ! i) = (cs @ [k]) ! Suc i" if "Suc i < length (cs @ [k])" for i
  proof (cases "Suc i < length cs")
    case True
    have "cs ! i \<noteq> last cs"
      using True assms(3) ne by (simp add: last_conv_nth nth_eq_iff_index_eq)
    moreover have "cs ! i \<noteq> k" using True assms(2) nth_mem [of i cs] by auto
    ultimately show ?thesis
      using True e [OF links_nth_cluster [OF assms(1)], of i] linksD(3) [OF assms(1) True] by (simp add: nth_append)
  next
    case False
    then have "i = length cs - 1" using that ne by (cases cs) auto
    then show ?thesis using ne e [OF linksD(2) [OF assms(1), of "last cs"]] by (simp add: nth_append last_conv_nth)
  qed
  moreover have "last cs \<noteq> k" using assms(2) ne by auto
  ultimately show ?thesis
    unfolding links_iff using linksD(2) [OF assms(1)] assms(4,6) e [OF assms(4)] cl by auto
qed

lemma extend_chain:
  assumes "table_ok f" and "links impl f cs" and "distinct cs" and "k \<in> free_clusters impl f"
    and a: "entries_updated impl f [k \<mapsto> impl_kEOC impl] f1" and "table_ok f1"
  obtains f2 u where "impl_SetFATEntry impl f1 (last cs) k = Some f2" and "grows impl f cs f2 (cs @ [k])"
    and "entries_updated impl f u f2"
proof -
  have k: "is_cluster f k" "table_entry impl f k = 0" using assms(4) by (auto simp: free_clusters_def)
  have l: "is_cluster f (last cs)" using linksD(1,2) [OF assms(2)] by simp
  have "k \<notin> set cs" using links_entry_nonzero [OF assms(1,2)] k(2) by blast
  have "k < lim" "last cs < fat_cluster_count f1 + 2"
    using k(1) l geometry [OF assms(1)] entries_updated_fields(1) [OF a] by auto
  then obtain f2 where f2: "impl_SetFATEntry impl f1 (last cs) k = Some f2" "entries_updated impl f1 [last cs \<mapsto> k] f2"
    using SetFATEntry_updates [OF assms(6)] by metis
  have u: "entries_updated impl f [k \<mapsto> impl_kEOC impl, last cs \<mapsto> k] f2"
    using entries_updated_trans [OF a f2(2)] by (simp add: map_add_upd)
  have "grows impl f cs f2 (cs @ [k])"
  proof (rule updates_grows [OF u])
    show "links impl f2 (cs @ [k])"
      using links_snoc [OF assms(2) \<open>k \<notin> set cs\<close> assms(3) k(1) u order_refl] .
  qed (use assms(3,4) \<open>k \<notin> set cs\<close> linksD(1) [OF assms(2)] in auto)
  then show ?thesis using that f2(1) u by blast
qed

lemma next_entry:
  assumes "table_ok f" and "links impl f cs" and "i < length cs"
  shows "Suc i < length cs \<Longrightarrow> impl_GetFATEntry impl f (cs ! i) = Some (cs ! Suc i)"
    and "Suc i = length cs \<Longrightarrow> impl_GetFATEntry impl f (cs ! i) = Some (table_entry impl f (last cs))"
    and "cs ! i < impl_kEOC impl"
proof -
  have i: "is_cluster f (cs ! i)" using links_nth_cluster [OF assms(2,3)] .
  then have g: "impl_GetFATEntry impl f (cs ! i) = Some (table_entry impl f (cs ! i))"
    using GetFATEntry_entry(1) [OF assms(1)] by blast
  show "Suc i < length cs \<Longrightarrow> impl_GetFATEntry impl f (cs ! i) = Some (cs ! Suc i)"
    using g linksD(3) [OF assms(2)] by simp
  show "Suc i = length cs \<Longrightarrow> impl_GetFATEntry impl f (cs ! i) = Some (table_entry impl f (last cs))"
    using g by (metis diff_Suc_1 last_conv_nth length_0_conv nat.distinct(1))
  show "cs ! i < impl_kEOC impl" using i geometry [OF assms(1)] by auto
qed

lemma SkipClusters_chain:
  assumes "table_ok f" and "links impl f cs" and "i < length cs"
  shows "SkipClusters impl f (cs ! i) n =
    Some (if i + n < length cs then cs ! (i + n) else table_entry impl f (last cs))"
  using assms(3)
proof (induction n arbitrary: i)
  case (Suc n)
  note nx = next_entry [OF assms(1,2) Suc.prems]
  show ?case
  proof (cases "Suc i < length cs")
    case True
    then show ?thesis using nx(1,3) Suc.IH [OF True] by simp
  next
    case False
    then have l: "Suc i = length cs" using Suc.prems by simp
    have "SkipClusters impl f (table_entry impl f (last cs)) n = Some (table_entry impl f (last cs))"
      using linksD(4) [OF assms(2)] by (cases n) auto
    then show ?thesis using nx(2) [OF l] nx(3) l by simp
  qed
qed simp

lemma EnsureClusterChain_chain:
  assumes "table_ok f" and "links impl f cs" and "distinct cs" and "i < length cs"
  shows "\<exists>r f' cs' u. EnsureClusterChain impl f (cs ! i) n = Some (r, f') \<and> grows impl f cs f' cs' \<and>
    entries_updated impl f u f' \<and>
    (r = 0 \<and> free_clusters impl f' = {} \<and> length cs' \<le> i + n \<or> length cs' = max (length cs) (i + n + 1) \<and> r = cs' ! (i + n))"
  using assms
proof (induction n arbitrary: f cs i)
  case 0
  then show ?case
    using grows_refl entries_updated_refl by (intro exI [of _ "cs ! i"] exI [of _ f] exI [of _ cs] exI [of _ Map.empty]) simp
next
  case (Suc n)
  note nx = next_entry [OF Suc.prems(1,2,4)]
  show ?case
  proof (cases "Suc i < length cs")
    case True
    have step: "EnsureClusterChain impl f (cs ! i) (Suc n) = EnsureClusterChain impl f (cs ! Suc i) n"
      using nx(1) [OF True] next_entry(3) [OF Suc.prems(1,2) True] by simp
    show ?thesis unfolding step using Suc.IH [OF Suc.prems(1-3) True] by simp
  next
    case False
    then have l: "Suc i = length cs" "cs ! i = last cs"
      using Suc.prems(4) by (simp_all add: last_conv_nth less_Suc_eq_0_disj)
        (metis Suc_lessI diff_Suc_1 last_conv_nth length_0_conv nat.distinct(1))
    note g = nx(2) [OF l(1)] linksD(4) [OF Suc.prems(2)]
    show ?thesis
    proof (rule AllocateCluster_cases [OF Suc.prems(1)], goal_cases full ok)
      case full
      then have "EnsureClusterChain impl f (cs ! i) (Suc n) = Some (0, f)" using g by simp
      then show ?thesis
        using full(2) l(1) grows_refl [OF Suc.prems(2,3)] entries_updated_refl
        by (intro exI [of _ 0] exI [of _ f] exI [of _ cs] exI [of _ Map.empty]) simp
    next
      case (ok k f1)
      obtain f2 u where f2: "impl_SetFATEntry impl f1 (last cs) k = Some f2" "grows impl f cs f2 (cs @ [k])"
        "entries_updated impl f u f2"
        using extend_chain [OF Suc.prems(1-3) ok(2,4,5)] .
      have "k \<noteq> 0" using ok(2) by (auto simp: free_clusters_def)
      then have step: "EnsureClusterChain impl f (cs ! i) (Suc n) = EnsureClusterChain impl f2 ((cs @ [k]) ! Suc i) n"
        using g ok(1) f2(1) l by (simp add: nth_append)
      note ok2 = grows_ok [OF Suc.prems(1) f2(2)]
      have "Suc i < length (cs @ [k])" using l(1) by simp
      from Suc.IH [OF ok2 grows_fields(9,10) [OF f2(2)] this] obtain r f' cs' u' where r:
        "EnsureClusterChain impl f2 ((cs @ [k]) ! Suc i) n = Some (r, f')" "grows impl f2 (cs @ [k]) f' cs'"
        "entries_updated impl f2 u' f'"
        "r = 0 \<and> free_clusters impl f' = {} \<and> length cs' \<le> Suc i + n \<or>
          length cs' = max (length (cs @ [k])) (Suc i + n + 1) \<and> r = cs' ! (Suc i + n)"
        by blast
      show ?thesis
        unfolding step using r grows_trans [OF Suc.prems(1) f2(2) r(2)] entries_updated_trans [OF f2(3) r(3)]
        by (intro exI [of _ r] exI [of _ f'] exI [of _ cs'] exI [of _ "u ++ u'"]) (auto simp: l(1) [symmetric])
    qed
  qed
qed

end

section \<open>The three types of file system\<close>

definition fat_types :: "(fat_impl \<times> (fat \<Rightarrow> bool)) set" where
  "fat_types = {(Fat12, table_ok12), (Fat16, table_ok16), (Fat32, table_ok32)}"

text \<open>Each of them is a table, so that what holds of tables holds of them.\<close>

lemma fat_types_table:
  assumes "(impl, ok) \<in> fat_types"
  obtains lim where "fat_table impl ok lim"
  using assms t12.fat_table_axioms t16.fat_table_axioms t32.fat_table_axioms by (auto simp: fat_types_def)

text \<open>A disk of FAT16 with a sector per cluster and four clusters; the first three are a chain.\<close>

definition example_bs :: BootSector where
  "example_bs = \<lparr>bs_jump_instruction = [0xEB, 0x3C, 0x90], bs_bytes_per_sector = 64, bs_sectors_per_cluster = 1,
     bs_reserved_sectors = 1, bs_number_of_fats = 1, bs_root_dir_entries = 2, bs_total_sectors_word = 7,
     bs_media_descriptor = 0xF8, bs_fat_size_word = 1, bs_total_sectors_dword = 0, bs_fat_size_dword = 0,
     bs_root_cluster = 0\<rparr>"

definition example_fat :: fat where
  "example_fat = \<lparr>fat_io = \<lparr>im_address = put_bytes (\<lambda>_. 0) 64 [0xF8, 0xFF, 0xFF, 0xFF, 3, 0, 4, 0, 0xFF, 0xFF, 0, 0],
       im_sector_size = 64\<rparr>, fat_bs = example_bs,
     fat_region_start = 1, fat_region_count = 1, root_dir_region_start = 2, root_dir_region_count = 1,
     data_region_start = 3, data_region_count = 4, fat_cluster_count = 4\<rparr>"

lemma example_ok: "table_ok16 example_fat" "(Fat16, table_ok16) \<in> fat_types"
  by (simp_all add: table_ok16_def fat_ok_def table_base_def table_end_def example_fat_def example_bs_def
      GetClusterSize_def kMaxClusterSize_def kEOC16_def fat_types_def)

lemma kEOC_simps [simp]:
  "impl_kEOC Fat12 = 0xFF8" "impl_kEOC Fat16 = 0xFFF8" "impl_kEOC Fat32 = 0x01FFFFF8"
  by (simp_all add: Fat12_def Fat16_def Fat32_def kEOC12_def kEOC16_def kEOC32_value)

lemma example_entry:
  "table_entry Fat16 example_fat 0 = 0xFFF8" "table_entry Fat16 example_fat 1 = 0xFFFF" "table_entry Fat16 example_fat 2 = 3"
  "table_entry Fat16 example_fat 3 = 4" "table_entry Fat16 example_fat 4 = 0xFFFF" "table_entry Fat16 example_fat 5 = 0"
proof -
  have ok: "fat_ok example_fat" using example_ok by (simp add: table_ok16_def)
  have eq: "table_entry Fat16 example_fat = (\<lambda>c. unat (mem16 (fat_mem example_fat) (64 + 2 * c)))"
    using Fat16_entries(1) [OF ok]
    by (simp add: fun_eq_iff table_entry_def Fat16_def table_base_def example_fat_def example_bs_def)
  show "table_entry Fat16 example_fat 0 = 0xFFF8" "table_entry Fat16 example_fat 1 = 0xFFFF" "table_entry Fat16 example_fat 2 = 3"
    "table_entry Fat16 example_fat 3 = 4" "table_entry Fat16 example_fat 4 = 0xFFFF" "table_entry Fat16 example_fat 5 = 0"
    unfolding eq by (simp_all add: mem16_def put_bytes_at example_fat_def word16_def push_bit_eq_mult)
qed

lemma example_chain: "chain Fat16 example_fat 2 [2, 3, 4]" "closed_table Fat16 example_fat"
  "free_clusters Fat16 example_fat = {5}"
proof -
  have cc: "fat_cluster_count example_fat + 2 = 6" by (simp add: example_fat_def)
  have six: "c < 6 \<longleftrightarrow> c \<in> {0, 1, 2, 3, 4, 5}" for c :: nat by auto
  show "chain Fat16 example_fat 2 [2, 3, 4]"
    by (simp add: chain_def cc [simplified] example_entry)
  show "closed_table Fat16 example_fat"
    unfolding closed_table_def cc six by (simp add: example_entry [simplified])
  show "free_clusters Fat16 example_fat = {5}"
    unfolding free_clusters_def cc six using example_entry by auto
qed

section \<open>Properties\<close>

text \<open>
  C16: On every well-formed FAT12, FAT16 or FAT32, \<open>AllocateCluster_\<close> returns zero and changes nothing when no cluster
  is free; otherwise it returns the lowest free cluster and marks it as the end of a chain,
  changing no other entry of the table and no byte outside it.
\<close>

theorem AllocateCluster_first_free:
  assumes "(impl, ok) \<in> fat_types" and "ok f"
  shows "\<exists>k f'. AllocateCluster impl f = Some (k, f') \<and> ok f' \<and>
    (if free_clusters impl f = {} then k = 0 \<and> f' = f
     else k = Min (free_clusters impl f) \<and> entries_updated impl f [k \<mapsto> impl_kEOC impl] f')"
proof -
  obtain lim where "fat_table impl ok lim" by (rule fat_types_table [OF assms(1)])
  from fat_table.AllocateCluster_min [OF this assms(2)] show ?thesis .
qed

theorem AllocateCluster_first_free_witness:
  "\<exists>f'. AllocateCluster Fat16 example_fat = Some (5, f') \<and> entries_updated Fat16 example_fat [5 \<mapsto> 0xFFF8] f'"
  using AllocateCluster_first_free [OF example_ok(2,1)]
  by (auto simp: example_chain(3) simp del: fun_upd_apply)

text \<open>
  C17: \<open>FreeClusterChain_\<close> terminates on every table whose entries are cluster numbers or end marks, whether or
  not the chain is well formed or even runs in a circle, and it only ever clears entries.
\<close>

theorem FreeClusterChain_terminates:
  assumes "(impl, ok) \<in> fat_types" and "ok f" and "closed_table impl f"
    and "c < fat_cluster_count f + 2 \<or> impl_kEOC impl \<le> c"
  shows "\<exists>f' S. FreeClusterChain impl f c = Some f' \<and> ok f' \<and> entries_updated impl f (cleared S) f'"
proof -
  obtain lim where t: "fat_table impl ok lim" by (rule fat_types_table [OF assms(1)])
  show ?thesis
    using fat_table.FreeClusterChain_returns [OF t assms(2-4)] fat_table.updates_ok [OF t assms(2)] by blast
qed

theorem FreeClusterChain_terminates_witness:
  "\<exists>f' S. FreeClusterChain Fat16 example_fat 3 = Some f' \<and> table_ok16 f' \<and>
    entries_updated Fat16 example_fat (cleared S) f'"
  using FreeClusterChain_terminates [OF example_ok(2,1) example_chain(2), of 3] by (simp add: example_fat_def)

text \<open>
  C18: Freeing a chain clears the entries of exactly its clusters: they become free, every other
  cluster keeps its entry, and so does every other chain.
\<close>

theorem FreeClusterChain_frees_chain:
  assumes "(impl, ok) \<in> fat_types" and "ok f" and "chain impl f c cs"
  shows "\<exists>f'. FreeClusterChain impl f c = Some f' \<and> ok f' \<and> entries_updated impl f (cleared (set cs)) f' \<and>
    free_clusters impl f' = free_clusters impl f \<union> set cs \<and>
    (\<forall>d ds. set ds \<inter> set cs = {} \<longrightarrow> chain impl f' d ds = chain impl f d ds)"
proof -
  have cs: "links impl f cs" "distinct cs" "hd cs = c" using assms(3) by (auto simp: chain_def)
  obtain lim where t: "fat_table impl ok lim" by (rule fat_types_table [OF assms(1)])
  have "\<exists>f'. FreeClusterChain impl f c = Some f' \<and> ok f' \<and> entries_updated impl f (cleared (set cs)) f'"
    using fat_table.FreeClusterChain_links [OF t assms(2) cs(1,2)] fat_table.updates_ok [OF t assms(2)] cs(3) by blast
  then obtain f' where f': "FreeClusterChain impl f c = Some f'" "ok f'" "entries_updated impl f (cleared (set cs)) f'"
    by blast
  have "chain impl f' d ds = chain impl f d ds" if "set ds \<inter> set cs = {}" for d ds
    using links_update [OF f'(3), of ds] that by (auto simp: chain_def cleared_def dom_def)
  moreover have "free_clusters impl f' = free_clusters impl f \<union> set cs"
    using updated_cleared [OF f'(3)] entries_updated_fields(1) [OF f'(3)] links_is_cluster [OF cs(1)]
    by (auto simp: free_clusters_def split: if_splits)
  ultimately show ?thesis using f' by blast
qed

theorem FreeClusterChain_frees_chain_witness:
  "\<exists>f'. FreeClusterChain Fat16 example_fat 2 = Some f' \<and> free_clusters Fat16 f' = {2, 3, 4, 5}"
  using FreeClusterChain_frees_chain [OF example_ok(2,1) example_chain(1)] example_chain(3) by auto

end
