(* ===== verification/Vfs_Path.thy ===== *)
theory Vfs_Path
  imports Mem_Types "HOL-Library.Sublist"
begin

text \<open>
  Paths (\<open>kernel/src/fs/vfs/path.hpp\<close>, and its copy \<open>userspace/programs/shell/path.hpp\<close>) and the errors of the virtual file
  system (\<open>kernel/src/fs/vfs/error.hpp\<close>).

  A path is its text, the first \<open>path_len_\<close> characters of \<open>raw_path_\<close>, with the components as the text their
  views show. \<open>RebuildPath\<close> points the views into the new text, whose length is cut at
  \<open>kMaxPathSize\<close>; a view that would end behind the array is \<open>None\<close>.
\<close>

section \<open>Errors\<close>

datatype VfsError =
    kFileNotFound | kDirectoryNotFound | kInvalidPath | kMountPointNotFound | kAlreadyMounted | kNotMounted
  | kInvalidArgument | kAlreadyExists | kNotEmpty | kNotADirectory | kNotAFile | kInvalidName | kReadOnly
  | kDiskFull | kCrossFilesystemRename | kUnknownError

section \<open>Paths\<close>

type_synonym str = "u8 list"

record path =
  p_raw :: str
  p_components :: "str list"
  p_absolute :: bool

definition kMaxPathSize :: nat where "kMaxPathSize = 1024"
definition kMaxComponents :: nat where "kMaxComponents = 64"
definition kMaxComponentSize :: nat where "kMaxComponentSize = 128"
definition kPathSeparator :: u8 where "kPathSeparator = 0x2F"

text \<open>\<open>strncpy\<close> of all of a view: up to a zero, then zeros.\<close>

definition strncpy_view :: "str \<Rightarrow> str" where
  "strncpy_view s = (let t = takeWhile (\<lambda>c. c \<noteq> 0) s in t @ replicate (length s - length t) 0)"

text \<open>\<open>find\<close> of the next separator, or the length.\<close>

definition find_sep :: "str \<Rightarrow> nat \<Rightarrow> nat" where
  "find_sep s pos = pos + length (takeWhile (\<lambda>c. c \<noteq> kPathSeparator) (drop pos s))"

function Parse_loop :: "str \<Rightarrow> nat \<Rightarrow> str list \<Rightarrow> str list" where
  "Parse_loop full_path pos components =
    (if pos < length full_path \<and> length components < kMaxComponents
     then let next_sep = find_sep full_path pos;
              components' = (if next_sep > pos then components @ [take (next_sep - pos) (drop pos full_path)]
                             else components)
          in Parse_loop full_path (next_sep + 1) components'
     else components)"
  by auto
termination
  by (relation "measure (\<lambda>(s, pos, _). length s - pos)") (auto simp: find_sep_def)

declare Parse_loop.simps [simp del]

definition Parse :: "str \<Rightarrow> path" where
  "Parse raw =
    (if raw = [] then \<lparr>p_raw = raw, p_components = [], p_absolute = False\<rparr>
     else let is_absolute = (raw ! 0 = kPathSeparator)
          in \<lparr>p_raw = raw, p_components = Parse_loop raw (if is_absolute then 1 else 0) [],
              p_absolute = is_absolute\<rparr>)"

definition Path :: "str \<Rightarrow> path" where
  "Path sv = Parse (strncpy_view (take (min (length sv) (kMaxPathSize - 1)) sv))"

definition Path_IsEmpty :: "path \<Rightarrow> bool" where
  "Path_IsEmpty p \<longleftrightarrow> length (p_raw p) = 0"

definition Path_IsAbsolute :: "path \<Rightarrow> bool" where
  "Path_IsAbsolute p \<longleftrightarrow> p_absolute p"

definition Path_IsRelative :: "path \<Rightarrow> bool" where
  "Path_IsRelative p \<longleftrightarrow> \<not> p_absolute p"

definition Path_IsRoot :: "path \<Rightarrow> bool" where
  "Path_IsRoot p \<longleftrightarrow> p_absolute p \<and> length (p_components p) = 0"

definition Path_ComponentCount :: "path \<Rightarrow> nat" where
  "Path_ComponentCount p = length (p_components p)"

definition Path_HasComponents :: "path \<Rightarrow> bool" where
  "Path_HasComponents p \<longleftrightarrow> length (p_components p) > 0"

definition Path_GetComponent :: "path \<Rightarrow> nat \<Rightarrow> str" where
  "Path_GetComponent p index = (if index < length (p_components p) then p_components p ! index else [])"

definition Path_GetFilename :: "path \<Rightarrow> str" where
  "Path_GetFilename p =
     (if length (p_components p) = 0 then [] else p_components p ! (length (p_components p) - 1))"

text \<open>\<open>find_last_of('.')\<close>.\<close>

definition find_last_dot :: "str \<Rightarrow> nat option" where
  "find_last_dot s = (if 0x2E \<in> set s then Some (length s - 1 - length (takeWhile (\<lambda>c. c \<noteq> 0x2E) (rev s))) else None)"

definition Path_GetStem :: "path \<Rightarrow> str" where
  "Path_GetStem p =
    (let filename = Path_GetFilename p in
     if filename = [] then []
     else case find_last_dot filename of
       None \<Rightarrow> filename
     | Some dot_pos \<Rightarrow> if dot_pos = 0 then filename else take dot_pos filename)"

definition Path_GetExtension :: "path \<Rightarrow> str" where
  "Path_GetExtension p =
    (let filename = Path_GetFilename p in
     if filename = [] then []
     else case find_last_dot filename of
       None \<Rightarrow> []
     | Some dot_pos \<Rightarrow> if dot_pos = 0 then [] else drop dot_pos filename)"

fun Rebuild_loop :: "bool \<Rightarrow> str list \<Rightarrow> str \<Rightarrow> str" where
  "Rebuild_loop is_first [] buf = buf"
| "Rebuild_loop is_first (c # cs) buf =
    (let buf' = (if \<not> is_first \<and> length buf < kMaxPathSize then buf @ [kPathSeparator] else buf);
         copy_len = min (length c) (kMaxPathSize - length buf')
     in Rebuild_loop False cs (buf' @ strncpy_view (take copy_len c)))"

fun Repoint_loop :: "str \<Rightarrow> nat \<Rightarrow> str list \<Rightarrow> str list option" where
  "Repoint_loop buf current_offset [] = Some []"
| "Repoint_loop buf current_offset (c # cs) = do {
     ASSERT (current_offset + length c \<le> length buf);
     views \<leftarrow> Repoint_loop buf (current_offset + length c + 1) cs;
     Some (take (length c) (drop current_offset buf) # views) }"

definition Path_RebuildPath :: "bool \<Rightarrow> str list \<Rightarrow> path option" where
  "Path_RebuildPath is_absolute components = do {
     let buf = Rebuild_loop True components (if is_absolute then [kPathSeparator] else []);
     let is_absolute' = (length buf > 0 \<and> buf ! 0 = kPathSeparator);
     views \<leftarrow> Repoint_loop buf (if is_absolute' then 1 else 0) components;
     Some \<lparr>p_raw = buf, p_components = views, p_absolute = is_absolute'\<rparr> }"

definition kCurrentDir :: path where "kCurrentDir = Path [0x2E]"
definition kParentDir :: path where "kParentDir = Path [0x2E, 0x2E]"
definition kRoot :: path where "kRoot = Path [kPathSeparator]"

definition Path_GetParent :: "path \<Rightarrow> path option" where
  "Path_GetParent p =
    (if Path_IsRoot p \<or> length (p_components p) = 0 then Some (if Path_IsAbsolute p then kRoot else kCurrentDir)
     else if Path_IsRelative p \<and> length (p_components p) = 1 then Some kCurrentDir
     else Path_RebuildPath (p_absolute p) (take (length (p_components p) - 1) (p_components p)))"

definition Path_append :: "path \<Rightarrow> path \<Rightarrow> path option" where
  "Path_append p other =
    (if Path_IsAbsolute other then Some other
     else let result = Parse (p_raw p) in
       if length (p_components result) + length (p_components other) \<le> kMaxComponents
       then Path_RebuildPath (p_absolute result) (p_components result @ p_components other)
       else Some result)"

fun Canonical_loop :: "bool \<Rightarrow> str list \<Rightarrow> str list \<Rightarrow> str list" where
  "Canonical_loop is_absolute [] canonical = canonical"
| "Canonical_loop is_absolute (c # cs) canonical =
    (if c = p_raw kCurrentDir then Canonical_loop is_absolute cs canonical
     else if c = p_raw kParentDir
     then if length canonical > 0 \<and> canonical ! (length canonical - 1) \<noteq> p_raw kParentDir
          then Canonical_loop is_absolute cs (take (length canonical - 1) canonical)
          else if \<not> is_absolute
          then Canonical_loop is_absolute cs
                 (if length canonical < kMaxComponents then canonical @ [c] else canonical)
          else Canonical_loop is_absolute cs canonical
     else Canonical_loop is_absolute cs
            (if length canonical < kMaxComponents then canonical @ [c] else canonical))"

definition Path_GetWeaklyCanonical :: "path \<Rightarrow> path option" where
  "Path_GetWeaklyCanonical p =
     Path_RebuildPath (p_absolute p) (Canonical_loop (p_absolute p) (p_components p) [])"

definition Path_equal :: "path \<Rightarrow> path \<Rightarrow> bool" where
  "Path_equal p q \<longleftrightarrow>
    (if p_absolute p \<noteq> p_absolute q \<or> length (p_components p) \<noteq> length (p_components q) then False
     else p_components p = p_components q)"

text \<open>
  \<open>operator<\<close> on views: \<open>char_traits::compare\<close> takes characters as signed \<open>char\<close>s; then the lengths decide.
\<close>

fun view_less :: "str \<Rightarrow> str \<Rightarrow> bool" where
  "view_less _ [] = False"
| "view_less [] (_ # _) = True"
| "view_less (a # as) (b # bs) = (if sint a < sint b then True else if a \<noteq> b then False else view_less as bs)"

fun components_less :: "str list \<Rightarrow> str list \<Rightarrow> bool option" where
  "components_less (a # as) (b # bs) =
    (if view_less a b then Some True else if view_less b a then Some False else components_less as bs)"
| "components_less _ _ = None"

definition Path_less :: "path \<Rightarrow> path \<Rightarrow> bool" where
  "Path_less p q =
    (if p_absolute p \<noteq> p_absolute q then \<not> p_absolute p
     else case components_less (p_components p) (p_components q) of
       Some b \<Rightarrow> b
     | None \<Rightarrow> length (p_components p) < length (p_components q))"

fun Path_Join_from :: "path \<Rightarrow> str list \<Rightarrow> path option" where
  "Path_Join_from result [] = Some result"
| "Path_Join_from result (a # as) = do { r \<leftarrow> Path_append result (Path a); Path_Join_from r as }"

definition Path_Join :: "str list \<Rightarrow> path option" where
  "Path_Join args = Path_Join_from (Parse []) args"

section \<open>Splitting and joining\<close>

text \<open>The pieces between separators, and components joined by separators.\<close>

fun splits :: "str \<Rightarrow> str list" where
  "splits [] = [[]]"
| "splits (c # cs) = (if c = kPathSeparator then [] # splits cs else (c # hd (splits cs)) # tl (splits cs))"

fun join :: "str list \<Rightarrow> str" where
  "join [] = []"
| "join [c] = c"
| "join (c # d # cs) = c @ kPathSeparator # join (d # cs)"

definition component_ok :: "str \<Rightarrow> bool" where
  "component_ok c \<longleftrightarrow> c \<noteq> [] \<and> kPathSeparator \<notin> set c \<and> 0 \<notin> set c"

definition path_text :: "bool \<Rightarrow> str list \<Rightarrow> str" where
  "path_text is_absolute cs = (if is_absolute then [kPathSeparator] else []) @ join cs"

text \<open>The invariant of paths: the components are those of the text, which has no zero and fits the array.\<close>

definition path_ok :: "path \<Rightarrow> bool" where
  "path_ok p \<longleftrightarrow> p = Parse (p_raw p) \<and> length (p_raw p) \<le> kMaxPathSize \<and> 0 \<notin> set (p_raw p)"

lemma splits_ne [simp]: "splits s \<noteq> []"
  by (cases s) auto

lemma splits_first:
  "splits s = takeWhile (\<lambda>c. c \<noteq> kPathSeparator) s #
    (case dropWhile (\<lambda>c. c \<noteq> kPathSeparator) s of [] \<Rightarrow> [] | _ # r \<Rightarrow> splits r)"
  by (induction s) auto

lemma splits_parts: "c \<in> set (splits s) \<Longrightarrow> kPathSeparator \<notin> set c \<and> set c \<subseteq> set s"
proof (induction s arbitrary: c)
  case (Cons a s)
  obtain w ws where w: "splits s = w # ws" by (cases "splits s") auto
  have "c = [] \<or> c = w \<or> c = a # w \<and> a \<noteq> kPathSeparator \<or> c \<in> set ws"
    using Cons.prems w by (auto split: if_splits)
  moreover have "kPathSeparator \<notin> set w \<and> set w \<subseteq> set s" using Cons.IH [of w] w by simp
  moreover have "kPathSeparator \<notin> set c \<and> set c \<subseteq> set s" if "c \<in> set ws" using Cons.IH [of c] w that by simp
  ultimately show ?case by auto
qed simp

lemma length_join_Cons: "length (join (c # cs)) \<le> length c + 1 + length (join cs)"
  by (cases cs) auto

lemma length_join_splits: "length (join (filter (\<lambda>c. c \<noteq> []) (splits s))) \<le> length s"
proof (induction "length s" arbitrary: s rule: less_induct)
  case less
  let ?w = "takeWhile (\<lambda>c. c \<noteq> kPathSeparator) s"
  show ?case
  proof (cases "dropWhile (\<lambda>c. c \<noteq> kPathSeparator) s")
    case Nil
    then have "splits s = [?w]" by (subst splits_first) (simp only: list.case)
    then show ?thesis by (simp add: length_takeWhile_le)
  next
    case (Cons x r)
    have "length s = length ?w + length (x # r)" unfolding Cons [symmetric] by (metis length_append takeWhile_dropWhile_id)
    moreover from this have "length (join (filter (\<lambda>c. c \<noteq> []) (splits r))) \<le> length r" by (intro less) simp
    ultimately show ?thesis
      using length_join_Cons [of ?w "filter (\<lambda>c. c \<noteq> []) (splits r)"] by (subst splits_first) (simp add: Cons)
  qed
qed

lemma splits_join:
  assumes "cs \<noteq> []" and "\<forall>c\<in>set cs. component_ok c"
  shows "splits (join cs) = cs"
  using assms
proof (induction cs rule: join.induct)
  case (2 c)
  have "takeWhile (\<lambda>x. x \<noteq> kPathSeparator) c = c" "dropWhile (\<lambda>x. x \<noteq> kPathSeparator) c = []"
    using 2(2) by (auto simp: component_ok_def takeWhile_eq_all_conv)
  then show ?case unfolding join.simps by (subst splits_first) (simp only: list.case)
next
  case (3 c d cs)
  have "takeWhile (\<lambda>x. x \<noteq> kPathSeparator) (c @ kPathSeparator # join (d # cs)) = c"
    "dropWhile (\<lambda>x. x \<noteq> kPathSeparator) (c @ kPathSeparator # join (d # cs)) = kPathSeparator # join (d # cs)"
    using 3(3) by (subst takeWhile_append2, auto simp: component_ok_def) (subst dropWhile_append2, auto simp: component_ok_def)
  then show ?case using 3 by (subst splits_first) simp
qed simp

lemma Parse_loop_splits:
  assumes "length comps \<le> kMaxComponents"
  shows "Parse_loop s pos comps = take kMaxComponents (comps @ (if pos \<le> length s then filter (\<lambda>c. c \<noteq> []) (splits (drop pos s)) else []))"
  using assms
proof (induction s pos comps rule: Parse_loop.induct)
  case (1 s pos comps)
  let ?w = "takeWhile (\<lambda>c. c \<noteq> kPathSeparator) (drop pos s)"
  show ?case
  proof (cases "pos < length s \<and> length comps < kMaxComponents")
    case False
    then have "Parse_loop s pos comps = comps" unfolding Parse_loop.simps [of s pos comps] by (rule if_not_P)
    moreover have "filter (\<lambda>c. c \<noteq> []) (splits (drop pos s)) = []" if "pos = length s" using that by simp
    ultimately show ?thesis using 1(2) False by (cases "pos = length s") auto
  next
    case True
    have ns: "find_sep s pos = pos + length ?w" by (simp add: find_sep_def)
    let ?comps = "if find_sep s pos > pos then comps @ [take (find_sep s pos - pos) (drop pos s)] else comps"
    have w: "take (find_sep s pos - pos) (drop pos s) = ?w" unfolding ns add_diff_cancel_left' by (rule takeWhile_eq_take [symmetric])
    have step: "Parse_loop s pos comps = Parse_loop s (find_sep s pos + 1) ?comps"
      unfolding Parse_loop.simps [of s pos comps] Let_def using True by (simp only: if_True simp_thms)
    have ih: "Parse_loop s (find_sep s pos + 1) ?comps = take kMaxComponents (?comps @
        (if find_sep s pos + 1 \<le> length s then filter (\<lambda>c. c \<noteq> []) (splits (drop (find_sep s pos + 1) s)) else []))"
      using True 1(2) by (intro 1(1) [OF True refl refl]) auto
    have rest: "dropWhile (\<lambda>c. c \<noteq> kPathSeparator) (drop pos s) = drop (find_sep s pos) s"
      unfolding ns by (simp add: dropWhile_eq_drop add.commute)
    have sp: "splits (drop pos s) = ?w # (if find_sep s pos + 1 \<le> length s then splits (drop (find_sep s pos + 1) s) else [])"
    proof (cases "find_sep s pos < length s")
      case True
      then have "drop (find_sep s pos) s = s ! find_sep s pos # drop (find_sep s pos + 1) s"
        by (simp add: Cons_nth_drop_Suc)
      then show ?thesis unfolding splits_first [of "drop pos s"] rest using True by simp
    next
      case False
      then show ?thesis unfolding splits_first [of "drop pos s"] rest by simp
    qed
    have "(find_sep s pos > pos) = (?w \<noteq> [])" unfolding ns by simp
    then have comps: "?comps = comps @ filter (\<lambda>c. c \<noteq> []) [?w]" unfolding w by simp
    have args: "(comps @ filter (\<lambda>c. c \<noteq> []) [?w]) @
        (if find_sep s pos + 1 \<le> length s then filter (\<lambda>c. c \<noteq> []) (splits (drop (find_sep s pos + 1) s)) else []) =
        comps @ (if pos \<le> length s then filter (\<lambda>c. c \<noteq> []) (splits (drop pos s)) else [])"
      unfolding sp using True by simp
    show ?thesis using trans [OF step ih, unfolded comps] unfolding args .
  qed
qed


text \<open>The components of a parsed text are its first non-empty pieces.\<close>

lemma Parse_components:
  "p_components (Parse s) = take kMaxComponents (filter (\<lambda>c. c \<noteq> []) (splits s))"
proof (cases s)
  case Nil
  then show ?thesis by (simp add: Parse_def)
next
  case (Cons a r)
  have "splits (kPathSeparator # r) = [] # splits r" by simp
  then show ?thesis
    using Cons Parse_loop_splits [of "[]" s 1] Parse_loop_splits [of "[]" s 0]
    by (auto simp: Parse_def Let_def kMaxComponents_def)
qed

lemma Parse_simps [simp]: "p_raw (Parse s) = s" "p_absolute (Parse s) \<longleftrightarrow> s \<noteq> [] \<and> s ! 0 = kPathSeparator"
  by (auto simp: Parse_def Let_def)

lemma length_join_take: "length (join (take n cs)) \<le> length (join cs)"
proof (induction cs arbitrary: n rule: join.induct)
  case (2 c)
  then show ?case by (cases n) auto
next
  case (3 c d cs)
  show ?case
  proof (cases n)
    case (Suc m)
    then show ?thesis using 3 [of m] by (cases m) auto
  qed simp
qed simp

lemma path_okD:
  assumes "path_ok p"
  shows "length (p_components p) \<le> kMaxComponents" "\<forall>c\<in>set (p_components p). component_ok c"
    "length (path_text (p_absolute p) (p_components p)) \<le> length (p_raw p)"
proof -
  let ?s = "p_raw p" and ?ne = "filter (\<lambda>c. c \<noteq> [])"
  have p: "p_components p = take kMaxComponents (?ne (splits ?s))" "p_absolute p \<longleftrightarrow> ?s \<noteq> [] \<and> ?s ! 0 = kPathSeparator"
    using assms Parse_components [of ?s] Parse_simps(2) [of ?s] by (auto simp: path_ok_def)
  show "length (p_components p) \<le> kMaxComponents" by (simp add: p)
  show "\<forall>c\<in>set (p_components p). component_ok c"
    unfolding p using splits_parts assms by (fastforce simp: component_ok_def path_ok_def dest: in_set_takeD)
  show "length (path_text (p_absolute p) (p_components p)) \<le> length ?s"
  proof (cases "p_absolute p")
    case True
    then obtain r where r: "?s = kPathSeparator # r" using p(2) by (cases ?s) auto
    then show ?thesis
      using length_join_splits [of r] length_join_take [of kMaxComponents "?ne (splits r)"] True p(1)
      by (simp add: path_text_def)
  next
    case False
    then show ?thesis
      using length_join_splits [of ?s] length_join_take [of kMaxComponents "?ne (splits ?s)"] p(1)
      by (simp add: path_text_def)
  qed
qed

section \<open>Rebuilding\<close>

lemma length_strncpy_view [simp]: "length (strncpy_view s) = length s"
  using length_takeWhile_le [of _ s] by (simp add: strncpy_view_def Let_def)

lemma strncpy_view_id: "0 \<notin> set s \<Longrightarrow> strncpy_view s = s"
proof -
  assume "0 \<notin> set s"
  then have "takeWhile (\<lambda>c. c \<noteq> 0) s = s" by (intro takeWhile_eq_all_conv [THEN iffD2]) auto
  then show "strncpy_view s = s" unfolding strncpy_view_def Let_def by (simp only:) simp
qed

text \<open>The text behind the first component.\<close>

definition join_rest :: "str list \<Rightarrow> str" where
  "join_rest cs = concat (map (\<lambda>c. kPathSeparator # c) cs)"

lemma join_rest: "join (c # cs) = c @ join_rest cs"
  by (induction cs arbitrary: c) (auto simp: join_rest_def)

lemma Rebuild_loop_rest:
  "0 \<notin> \<Union>(set (map set cs)) \<Longrightarrow> length (buf @ join_rest cs) \<le> kMaxPathSize \<Longrightarrow>
   Rebuild_loop False cs buf = buf @ join_rest cs"
  by (induction cs arbitrary: buf) (auto simp: join_rest_def strncpy_view_id Let_def)

lemma Rebuild_loop_join:
  assumes "0 \<notin> \<Union>(set (map set cs))" and "length (buf @ join cs) \<le> kMaxPathSize"
  shows "Rebuild_loop True cs buf = buf @ join cs"
proof (cases cs)
  case (Cons c ds)
  have "length ((buf @ c) @ join_rest ds) \<le> kMaxPathSize" using assms(2) Cons by (simp add: join_rest)
  moreover from this have "min (length c) (kMaxPathSize - length buf) = length c" by simp
  ultimately show ?thesis
    using Rebuild_loop_rest [of ds "buf @ c"] assms(1) Cons by (simp add: join_rest strncpy_view_id Let_def)
qed simp

lemma Repoint_loop_join:
  "Repoint_loop (pre @ join cs) (length pre) cs = Some cs"
proof (induction cs arbitrary: pre rule: join.induct)
  case (3 c d cs)
  from 3 [of "pre @ c @ [kPathSeparator]"] show ?case by simp
qed simp_all

lemma RebuildPath_text:
  assumes "\<forall>c\<in>set cs. component_ok c" and "length (path_text a cs) \<le> kMaxPathSize"
  shows "Path_RebuildPath a cs = Some \<lparr>p_raw = path_text a cs, p_components = cs, p_absolute = a\<rparr>"
proof -
  let ?pre = "if a then [kPathSeparator] else []"
  have buf: "Rebuild_loop True cs ?pre = path_text a cs"
    unfolding path_text_def using assms by (intro Rebuild_loop_join) (auto simp: path_text_def component_ok_def)
  have a: "(length (path_text a cs) > 0 \<and> path_text a cs ! 0 = kPathSeparator) = a"
  proof (cases a)
    case False
    have "c ! 0 \<noteq> kPathSeparator \<and> c \<noteq> []" if "cs = c # ds" for c ds
      using assms(1) that by (cases c) (auto simp: component_ok_def)
    then show ?thesis using False by (cases cs) (auto simp: path_text_def join_rest nth_append)
  qed (simp add: path_text_def)
  have "Repoint_loop (path_text a cs) (length ?pre) cs = Some cs"
    unfolding path_text_def by (rule Repoint_loop_join)
  moreover have "length ?pre = (if a then 1 else 0)" by simp
  ultimately show ?thesis unfolding Path_RebuildPath_def buf Let_def a by simp
qed

lemma Parse_path_text:
  assumes "\<forall>c\<in>set cs. component_ok c" and "length cs \<le> kMaxComponents"
  shows "Parse (path_text a cs) = \<lparr>p_raw = path_text a cs, p_components = cs, p_absolute = a\<rparr>"
proof -
  have f: "filter (\<lambda>c. c \<noteq> []) cs = cs" using assms(1) by (auto simp: component_ok_def intro!: filter_True)
  have s: "filter (\<lambda>c. c \<noteq> []) (splits (path_text a cs)) = cs"
    using splits_join [OF _ assms(1)] f by (cases "cs = []") (auto simp: path_text_def)
  have a: "path_text a cs \<noteq> [] \<and> path_text a cs ! 0 = kPathSeparator \<longleftrightarrow> a"
  proof (cases a)
    case False
    have "c ! 0 \<noteq> kPathSeparator \<and> c \<noteq> []" if "cs = c # ds" for c ds
      using assms(1) that by (cases c) (auto simp: component_ok_def)
    then show ?thesis using False by (cases cs) (auto simp: path_text_def join_rest nth_append)
  qed (simp add: path_text_def)
  show ?thesis
    by (rule path.equality) (use a s assms(2) in \<open>simp_all add: Parse_components\<close>)
qed

text \<open>Text that does not fit leaves a view that ends behind the array.\<close>

lemma length_Rebuild_loop: "length buf \<le> kMaxPathSize \<Longrightarrow> length (Rebuild_loop b cs buf) \<le> kMaxPathSize"
proof (induction cs arbitrary: b buf)
  case (Cons c cs)
  then show ?case by (auto simp: Let_def)
qed simp

lemma Repoint_loop_fits: "Repoint_loop buf off cs = Some vs \<Longrightarrow> cs = [] \<or> off + length (join cs) \<le> length buf"
proof (induction cs arbitrary: off vs rule: join.induct)
  case (3 c d cs)
  from 3(2) obtain ws where "Repoint_loop buf (off + length c + 1) (d # cs) = Some ws"
    unfolding Repoint_loop.simps(2) [of buf off c "d # cs"]
    by (auto simp: bind_eq_Some_conv ASSERT_bind simp del: Repoint_loop.simps split: if_splits)
  from 3(1) [OF this] show ?case by simp
qed (auto simp: bind_eq_Some_conv ASSERT_bind split: if_splits)

lemma path_text_absolute:
  assumes "\<forall>c\<in>set cs. component_ok c"
  shows "path_text a cs \<noteq> [] \<and> path_text a cs ! 0 = kPathSeparator \<longleftrightarrow> a"
proof (cases a)
  case False
  have "c ! 0 \<noteq> kPathSeparator \<and> c \<noteq> []" if "cs = c # ds" for c ds
    using assms that by (cases c) (auto simp: component_ok_def)
  then show ?thesis using False by (cases cs) (auto simp: path_text_def join_rest nth_append)
qed (simp add: path_text_def)

section \<open>Canonical paths\<close>

text \<open>No \<open>.\<close>, and no \<open>..\<close> other than at the front of a relative path.\<close>

fun canonical :: "bool \<Rightarrow> str list \<Rightarrow> bool" where
  "canonical a [] = True"
| "canonical a (c # cs) =
    (if c = [0x2E, 0x2E] then \<not> a \<and> canonical a cs
     else c \<noteq> [0x2E] \<and> [0x2E] \<notin> set cs \<and> [0x2E, 0x2E] \<notin> set cs)"

lemma dir_names [simp]: "p_raw kCurrentDir = [0x2E]" "p_raw kParentDir = [0x2E, 0x2E]"
  by (simp_all add: kCurrentDir_def kParentDir_def Path_def strncpy_view_def kMaxPathSize_def)

lemma canonical_snoc:
  "canonical a (cs @ [c]) \<longleftrightarrow> canonical a cs \<and> c \<noteq> [0x2E] \<and> (c = [0x2E, 0x2E] \<longrightarrow> \<not> a \<and> set cs \<subseteq> {[0x2E, 0x2E]})"
  by (induction a cs rule: canonical.induct) auto

lemma canonical_front: "canonical a cs \<Longrightarrow> cs \<noteq> [] \<Longrightarrow> last cs = [0x2E, 0x2E] \<Longrightarrow> set cs \<subseteq> {[0x2E, 0x2E]} \<and> \<not> a"
  by (induction a cs rule: canonical.induct) (auto split: if_splits dest: last_in_set)

lemma canonical_butlast: "canonical a cs \<Longrightarrow> canonical a (butlast cs)"
  by (cases cs rule: rev_cases) (auto simp: canonical_snoc)

lemma length_join: "length (join cs) = sum_list (map length cs) + (length cs - 1)"
  by (induction cs rule: join.induct) auto

lemma sum_butlast: "sum_list (map length (butlast xs)) \<le> sum_list (map length xs)" for xs :: "str list"
  by (cases xs rule: rev_cases) auto

lemma Canonical_loop_canonical:
  "canonical a out \<Longrightarrow> length out + length cs \<le> kMaxComponents \<Longrightarrow>
   canonical a (Canonical_loop a cs out) \<and> set (Canonical_loop a cs out) \<subseteq> set out \<union> set cs \<and>
   length (Canonical_loop a cs out) \<le> length out + length cs \<and>
   sum_list (map length (Canonical_loop a cs out)) \<le> sum_list (map length out) + sum_list (map length cs)"
proof (induction cs arbitrary: out)
  case (Cons c cs)
  have skip: ?case if "Canonical_loop a (c # cs) out = Canonical_loop a cs out"
    unfolding that using Cons.IH [OF Cons.prems(1)] Cons.prems(2) by auto
  have push: ?case if "Canonical_loop a (c # cs) out = Canonical_loop a cs (out @ [c])" "canonical a (out @ [c])"
    unfolding that(1) using Cons.IH [OF that(2)] Cons.prems(2) by auto
  show ?case
  proof (cases "c = [0x2E, 0x2E]")
    case dd: True
    show ?thesis
    proof (cases "length out > 0 \<and> out ! (length out - 1) \<noteq> [0x2E, 0x2E]")
      case True
      then have eq: "Canonical_loop a (c # cs) out = Canonical_loop a cs (butlast out)" using dd by (simp add: butlast_conv_take)
      have sub: "set (butlast out) \<subseteq> set out" by (auto dest: in_set_butlastD)
      have "length (butlast out) + length cs \<le> kMaxComponents" using Cons.prems(2) by simp
      from Cons.IH [OF canonical_butlast [OF Cons.prems(1)] this] show ?thesis
        unfolding eq using sum_butlast [of out] sub by auto
    next
      case False
      then have "out = [] \<or> out \<noteq> [] \<and> last out = [0x2E, 0x2E]" by (auto simp: last_conv_nth)
      then have front: "set out \<subseteq> {[0x2E, 0x2E]}" using canonical_front [OF Cons.prems(1)] by auto
      show ?thesis
      proof (cases a)
        case True
        then have "Canonical_loop a (c # cs) out = Canonical_loop a cs out" using False dd by auto
        then show ?thesis by (rule skip)
      next
        case rel: False
        have "Canonical_loop a (c # cs) out = Canonical_loop a cs (out @ [c])" using False dd rel Cons.prems(2) by auto
        moreover have "canonical a (out @ [c])" using Cons.prems(1) front rel dd by (simp add: canonical_snoc)
        ultimately show ?thesis by (rule push)
      qed
    qed
  next
    case False
    show ?thesis
    proof (cases "c = [0x2E]")
      case True
      then show ?thesis by (intro skip) simp
    next
      case d: False
      have "Canonical_loop a (c # cs) out = Canonical_loop a cs (out @ [c])" using False d Cons.prems(2) by simp
      moreover have "canonical a (out @ [c])" using Cons.prems(1) False d by (simp add: canonical_snoc)
      ultimately show ?thesis by (rule push)
    qed
  qed
qed simp

text \<open>A canonical path is already what the loop returns.\<close>

lemma Canonical_loop_id:
  "canonical a (out @ cs) \<Longrightarrow> length (out @ cs) \<le> kMaxComponents \<Longrightarrow> Canonical_loop a cs out = out @ cs"
proof (induction cs arbitrary: out)
  case (Cons c cs)
  have pre: "canonical a (out @ [c])"
    using Cons.prems(1) by (induction a out rule: canonical.induct) auto
  have step: "Canonical_loop a (c # cs) out = Canonical_loop a cs (out @ [c])"
  proof (cases "c = [0x2E, 0x2E]")
    case True
    have out: "set out \<subseteq> {[0x2E, 0x2E]}" "\<not> a" using pre True by (auto simp: canonical_snoc)
    have "out ! (length out - 1) = [0x2E, 0x2E]" if "out \<noteq> []"
      using out(1) that by (metis last_conv_nth last_in_set singletonD subsetD)
    then show ?thesis using True out(2) Cons.prems(2) by auto
  next
    case False
    then show ?thesis using pre Cons.prems(2) by (simp add: canonical_snoc)
  qed
  show ?case unfolding step using Cons.IH [of "out @ [c]"] Cons.prems by simp
qed simp


lemma Rebuild_loop_extends: "\<exists>r. Rebuild_loop b cs buf = buf @ r"
proof (induction cs arbitrary: b buf)
  case (Cons c cs)
  define buf2 where "buf2 = (if \<not> b \<and> length buf < kMaxPathSize then buf @ [kPathSeparator] else buf)"
  define x where "x = strncpy_view (take (min (length c) (kMaxPathSize - length buf2)) c)"
  obtain r1 where r1: "buf2 = buf @ r1" unfolding buf2_def by (cases "\<not> b \<and> length buf < kMaxPathSize") auto
  obtain r where r: "Rebuild_loop False cs (buf2 @ x) = (buf2 @ x) @ r" using Cons.IH by blast
  have "Rebuild_loop b (c # cs) buf = Rebuild_loop False cs (buf2 @ x)"
    unfolding Rebuild_loop.simps Let_def buf2_def [symmetric] x_def [symmetric] ..
  also have "\<dots> = buf @ (r1 @ x @ r)" using r by (simp add: r1)
  finally show ?case by blast
qed simp

lemma Path_RebuildPath_eq:
  assumes "\<forall>c\<in>set cs. component_ok c"
  shows "Path_RebuildPath a cs = (if length (path_text a cs) \<le> kMaxPathSize
    then Some \<lparr>p_raw = path_text a cs, p_components = cs, p_absolute = a\<rparr> else None)"
proof (cases "length (path_text a cs) \<le> kMaxPathSize")
  case True
  then show ?thesis using RebuildPath_text [OF assms True] by simp
next
  case False
  let ?buf = "Rebuild_loop True cs (if a then [kPathSeparator] else [])"
  have le: "length ?buf \<le> kMaxPathSize" by (rule length_Rebuild_loop) (simp add: kMaxPathSize_def)
  have ne: "cs \<noteq> []" using False by (auto simp: path_text_def kMaxPathSize_def split: if_splits)
  have abs: "a \<Longrightarrow> length ?buf > 0 \<and> ?buf ! 0 = kPathSeparator"
  proof -
    obtain r where "Rebuild_loop True cs (if a then [kPathSeparator] else []) = (if a then [kPathSeparator] else []) @ r"
      using Rebuild_loop_extends by blast
    then show "a \<Longrightarrow> length ?buf > 0 \<and> ?buf ! 0 = kPathSeparator" by simp
  qed
  have "Repoint_loop ?buf o' cs = None" if "a \<Longrightarrow> 1 \<le> o'" for o'
  proof (rule ccontr)
    assume "Repoint_loop ?buf o' cs \<noteq> None"
    then have "o' + length (join cs) \<le> length ?buf" using Repoint_loop_fits ne by blast
    then show False using le False that by (cases a) (auto simp: path_text_def)
  qed
  then show ?thesis using False abs by (simp add: Path_RebuildPath_def Let_def)
qed

lemma rebuilt_ok:
  assumes "\<forall>c\<in>set cs. component_ok c" and "length cs \<le> kMaxComponents" and "length (path_text a cs) \<le> kMaxPathSize"
  shows "path_ok \<lparr>p_raw = path_text a cs, p_components = cs, p_absolute = a\<rparr>"
proof -
  have "0 \<notin> set (join cs)"
    using assms(1) by (induction cs rule: join.induct) (auto simp: component_ok_def kPathSeparator_def)
  then show ?thesis
    using Parse_path_text [OF assms(1,2), of a] assms(3) by (auto simp: path_ok_def path_text_def kPathSeparator_def)
qed

lemma Path_ok: "0 \<notin> set s \<Longrightarrow> path_ok (Path s)"
proof -
  assume "0 \<notin> set s"
  then have "0 \<notin> set (take n s)" for n by (auto dest: in_set_takeD)
  then show ?thesis by (simp add: Path_def path_ok_def strncpy_view_id min_def kMaxPathSize_def)
qed

lemma GetParent_components:
  assumes "path_ok p" and "p_components p \<noteq> []" and "p_absolute p \<or> length (p_components p) \<noteq> 1"
  shows "\<exists>r. Path_GetParent p = Some r \<and> path_ok r \<and> p_absolute r = p_absolute p \<and> p_components r = butlast (p_components p)"
proof -
  note ok = path_okD [OF assms(1)]
  let ?cs = "take (length (p_components p) - 1) (p_components p)"
  have cs: "?cs = butlast (p_components p)" by (simp add: butlast_conv_take)
  have c: "\<forall>c\<in>set ?cs. component_ok c" using ok(2) by (auto dest: in_set_takeD)
  have "length (path_text (p_absolute p) ?cs) \<le> kMaxPathSize"
    using ok(3) assms(1) length_join_take [of "length (p_components p) - 1" "p_components p"]
    by (simp add: path_text_def path_ok_def)
  then show ?thesis
    using Path_RebuildPath_eq [OF c] rebuilt_ok [OF c] ok(1) assms(2,3) cs
    by (auto simp: Path_GetParent_def Path_IsRoot_def Path_IsRelative_def)
qed

lemma Canonical_components:
  assumes "path_ok p"
  shows "\<exists>r. Path_GetWeaklyCanonical p = Some r \<and> path_ok r \<and> p_absolute r = p_absolute p \<and>
    p_components r = Canonical_loop (p_absolute p) (p_components p) [] \<and> canonical (p_absolute r) (p_components r)"
proof -
  note ok = path_okD [OF assms]
  let ?cs = "Canonical_loop (p_absolute p) (p_components p) []"
  have l: "canonical (p_absolute p) ?cs" "set ?cs \<subseteq> set (p_components p)" "length ?cs \<le> length (p_components p)"
    "sum_list (map length ?cs) \<le> sum_list (map length (p_components p))"
    using Canonical_loop_canonical [of "p_absolute p" "[]" "p_components p"] ok(1) by simp_all
  have c: "\<forall>c\<in>set ?cs. component_ok c" using l(2) ok(2) by auto
  have "length (path_text (p_absolute p) ?cs) \<le> kMaxPathSize"
  proof -
    have "length (join ?cs) \<le> length (join (p_components p))"
      unfolding length_join using l(3,4) by linarith
    then show ?thesis using ok(3) assms unfolding path_text_def path_ok_def length_append by linarith
  qed
  then show ?thesis
    using Path_RebuildPath_eq [OF c] rebuilt_ok [OF c] ok(1) l(1,3) by (simp add: Path_GetWeaklyCanonical_def)
qed

section \<open>Properties\<close>

text \<open>
  C19: The invariant of paths (the components are the non-empty pieces of the text, at most 64, and the
  text fits the array) holds for every path built from a string without a zero; \<open>GetParent\<close> and
  \<open>GetWeaklyCanonical\<close> always keep it, and \<open>operator/\<close> keeps it unless the joined text does not fit the array.
\<close>

theorem path_operations_typed:
  assumes "0 \<notin> set s" and "path_ok p" and "path_ok q"
  shows "path_ok (Path s) \<and> (\<exists>r. Path_GetParent p = Some r \<and> path_ok r) \<and>
    (\<exists>r. Path_GetWeaklyCanonical p = Some r \<and> path_ok r) \<and>
    (case Path_append p q of Some r \<Rightarrow> path_ok r
     | None \<Rightarrow> length (path_text (p_absolute p) (p_components p @ p_components q)) > kMaxPathSize)"
proof -
  have dirs: "path_ok kRoot" "path_ok kCurrentDir"
    by (simp_all add: kRoot_def kCurrentDir_def Path_ok kPathSeparator_def)
  have "\<exists>r. Path_GetParent p = Some r \<and> path_ok r"
  proof (cases "p_components p = [] \<or> \<not> p_absolute p \<and> length (p_components p) = 1")
    case True
    then show ?thesis using dirs by (auto simp: Path_GetParent_def Path_IsRoot_def Path_IsRelative_def)
  next
    case False
    then show ?thesis using GetParent_components [OF assms(2)] by blast
  qed
  moreover have "case Path_append p q of Some r \<Rightarrow> path_ok r
     | None \<Rightarrow> length (path_text (p_absolute p) (p_components p @ p_components q)) > kMaxPathSize"
  proof -
    have p: "Parse (p_raw p) = p" using assms(2) by (simp add: path_ok_def)
    have "\<forall>c\<in>set (p_components p @ p_components q). component_ok c"
      using path_okD(2) [OF assms(2)] path_okD(2) [OF assms(3)] by auto
    note rb = Path_RebuildPath_eq [OF this] rebuilt_ok [OF this]
    show ?thesis
      using assms(2,3) rb by (auto simp: Path_append_def Let_def p split: option.splits if_splits)
  qed
  ultimately show ?thesis using Path_ok [OF assms(1)] Canonical_components [OF assms(2)] by blast
qed

theorem path_operations_typed_witness:
  "path_ok (Path [0x2F, 0x61]) \<and> (\<exists>r. Path_GetParent (Path [0x2F, 0x61]) = Some r \<and> path_ok r)"
  using path_operations_typed [of "[0x2F, 0x61]" "Path [0x2F, 0x61]" "Path [0x62]"] by (simp add: Path_ok)



end
