(* ===== verification/Fat_Files.thy ===== *)
theory Fat_Files
  imports Fat_Chain Vfs_Path
begin

text \<open>
  The data of files in \<open>kernel/src/fs/vfs/fat/fat.hpp\<close>: \<open>ReadFileData_\<close>, \<open>WriteToClusterChain_\<close>, \<open>WriteFileData_\<close>
  and the update of a directory entry in place, with their correctness over the contents of
  cluster chains.

  A buffer the code reads from is a list, and a buffer the code fills is the list of the bytes put there. A local
  array has \<open>kMaxClusterSize\<close> bytes; a copy that does not fit is \<open>None\<close>.
\<close>

section \<open>Operations\<close>

text \<open>Assigning the 32-bit result of \<open>GetFirstCluster_\<close> to a \<open>ClusterNumT\<close>.\<close>

definition FirstCluster :: "fat_impl \<Rightarrow> DirectoryEntry \<Rightarrow> nat" where
  "FirstCluster impl entry = GetFirstCluster entry mod 2 ^ impl_ClusterNum_bits impl"

text \<open>\<open>memcpy\<close> of the first \<open>n\<close> bytes into a local array.\<close>

definition temp_copy :: "u8 list \<Rightarrow> nat \<Rightarrow> u8 list option" where
  "temp_copy data n = do { ASSERT (n \<le> kMaxClusterSize \<and> n \<le> length data); Some (take n data) }"

partial_function (option) ReadFileData_loop ::
  "fat_impl \<Rightarrow> fat \<Rightarrow> nat \<Rightarrow> nat \<Rightarrow> nat \<Rightarrow> u8 list \<Rightarrow> u8 list option" where
  "ReadFileData_loop impl f bytes_to_read cluster offset_in_cluster dst =
    (if length dst < bytes_to_read \<and> cluster < impl_kEOC impl
     then do {
       cluster_data \<leftarrow> ReadCluster f cluster;
       let copy_size = min (GetClusterSize f - offset_in_cluster) (bytes_to_read - length dst);
       let dst' = dst @ take copy_size (drop offset_in_cluster cluster_data);
       next_c \<leftarrow> impl_GetFATEntry impl f cluster;
       ReadFileData_loop impl f bytes_to_read next_c 0 dst' }
     else Some dst)"

definition ReadFileData :: "fat_impl \<Rightarrow> fat \<Rightarrow> DirectoryEntry \<Rightarrow> nat \<Rightarrow> nat \<Rightarrow> u8 list option" where
  "ReadFileData impl f entry sz offset = do {
     let bytes_to_read = min sz (unat (ucast (de_file_size entry) - of_nat offset :: u64));
     let cluster_size = GetClusterSize f;
     cluster \<leftarrow> SkipClusters impl f (FirstCluster impl entry) (offset div cluster_size);
     ReadFileData_loop impl f bytes_to_read cluster (offset mod cluster_size) [] }"

partial_function (option) WriteToClusterChain_loop ::
  "fat_impl \<Rightarrow> fat \<Rightarrow> nat \<Rightarrow> u8 list \<Rightarrow> nat \<Rightarrow> nat \<Rightarrow> (nat \<times> fat) option" where
  "WriteToClusterChain_loop impl f cluster src offset_in_cluster bytes_written =
    (if bytes_written < length src
     then do {
       cluster_data \<leftarrow> ReadCluster f cluster;
       temp_buffer \<leftarrow> temp_copy cluster_data (GetClusterSize f);
       let copy_size = min (GetClusterSize f - offset_in_cluster) (length src - bytes_written);
       let temp_buffer' = overwrite temp_buffer offset_in_cluster (take copy_size (drop bytes_written src));
       f1 \<leftarrow> WriteCluster f cluster temp_buffer';
       let bytes_written' = bytes_written + copy_size;
       if bytes_written' < length src
       then do {
         next_c \<leftarrow> impl_GetFATEntry impl f1 cluster;
         if next_c \<ge> impl_kEOC impl
         then do {
           (new, f2) \<leftarrow> AllocateCluster impl f1;
           if new = 0 then Some (bytes_written', f2)
           else do {
             f3 \<leftarrow> impl_SetFATEntry impl f2 cluster new;
             WriteToClusterChain_loop impl f3 new src 0 bytes_written' } }
         else WriteToClusterChain_loop impl f1 next_c src 0 bytes_written' }
       else WriteToClusterChain_loop impl f1 cluster src 0 bytes_written' }
     else Some (bytes_written, f))"

definition WriteToClusterChain :: "fat_impl \<Rightarrow> fat \<Rightarrow> nat \<Rightarrow> u8 list \<Rightarrow> nat \<Rightarrow> (nat \<times> fat) option" where
  "WriteToClusterChain impl f cluster src offset_in_cluster =
     WriteToClusterChain_loop impl f cluster src offset_in_cluster 0"

definition SetEntryFirstCluster :: "DirectoryEntry \<Rightarrow> nat \<Rightarrow> DirectoryEntry" where
  "SetEntryFirstCluster entry cluster = entry\<lparr>
     de_first_cluster_low := of_nat cluster AND 0xFFFF,
     de_first_cluster_high := of_nat (cluster div 2 ^ 16) AND 0xFFFF\<rparr>"

section \<open>Directory entries in place\<close>

definition UpdateEntryInFixedRootDir :: "fat \<Rightarrow> nat \<Rightarrow> DirectoryEntry \<Rightarrow> fat option" where
  "UpdateEntryInFixedRootDir f offset entry = do {
     let root_size = root_dir_region_count f * bytes_per_sector f;
     if offset \<ge> root_size then Some f
     else do {
       root_data \<leftarrow> InMemory_ReadRange (fat_io f) (root_dir_region_start f) (root_dir_region_count f);
       temp_buffer \<leftarrow> temp_copy root_data root_size;
       io \<leftarrow> InMemory_WriteRange (fat_io f) (root_dir_region_start f) (root_dir_region_count f)
         (overwrite temp_buffer offset (entry_bytes entry));
       Some (f\<lparr>fat_io := io\<rparr>) } }"

partial_function (option) FindClusterAt :: "fat_impl \<Rightarrow> fat \<Rightarrow> nat \<Rightarrow> nat \<Rightarrow> (nat \<times> nat) option" where
  "FindClusterAt impl f cluster offset =
    (if offset \<ge> GetClusterSize f \<and> cluster < impl_kEOC impl
     then do {
       next_c \<leftarrow> impl_GetFATEntry impl f cluster;
       FindClusterAt impl f next_c (offset - GetClusterSize f) }
     else Some (cluster, offset))"

definition UpdateEntryInClusterDir :: "fat_impl \<Rightarrow> fat \<Rightarrow> nat \<Rightarrow> nat \<Rightarrow> DirectoryEntry \<Rightarrow> fat option" where
  "UpdateEntryInClusterDir impl f parent_cluster offset entry = do {
     (cluster, offset') \<leftarrow> FindClusterAt impl f parent_cluster offset;
     if cluster \<ge> impl_kEOC impl then Some f
     else do {
       cluster_data \<leftarrow> ReadCluster f cluster;
       temp_buffer \<leftarrow> temp_copy cluster_data (GetClusterSize f);
       WriteCluster f cluster (overwrite temp_buffer offset' (entry_bytes entry)) } }"

definition UpdateDirectoryEntry :: "fat_impl \<Rightarrow> fat \<Rightarrow> nat \<Rightarrow> nat \<Rightarrow> DirectoryEntry \<Rightarrow> fat option" where
  "UpdateDirectoryEntry impl f parent_cluster offset entry =
    (if impl_kHasFixedRootDir impl \<and> parent_cluster = 0 then UpdateEntryInFixedRootDir f offset entry
     else UpdateEntryInClusterDir impl f parent_cluster offset entry)"

section \<open>Writing to a file\<close>

record PathLookupResult =
  lk_entry :: DirectoryEntry
  lk_parent_cluster :: nat
  lk_entry_offset :: nat
  lk_found :: bool

text \<open>The lookup result is a copy of the caller that nothing reads afterwards.\<close>

definition WriteFileData :: "fat_impl \<Rightarrow> fat \<Rightarrow> PathLookupResult \<Rightarrow> u8 list \<Rightarrow> nat \<Rightarrow>
    ((VfsError, nat) expected \<times> fat) option" where
  "WriteFileData impl f lookup src offset = do {
     let cluster_size = GetClusterSize f;
     let cluster = FirstCluster impl (lk_entry lookup);
     (cluster, lookup, f) \<leftarrow>
       (if cluster = 0
        then do {
          (cluster, f) \<leftarrow> AllocateCluster impl f;
          if cluster = 0 then Some (0, lookup, f)
          else do {
            let lookup = lookup\<lparr>lk_entry := SetEntryFirstCluster (lk_entry lookup) cluster\<rparr>;
            f \<leftarrow> UpdateDirectoryEntry impl f (lk_parent_cluster lookup) (lk_entry_offset lookup) (lk_entry lookup);
            Some (cluster, lookup, f) } }
        else Some (cluster, lookup, f));
     if cluster = 0 then Some (Inl kDiskFull, f)
     else do {
       (cluster, f) \<leftarrow> EnsureClusterChain impl f cluster (offset div cluster_size);
       if cluster = 0 then Some (Inl kDiskFull, f)
       else do {
         (bytes_written, f) \<leftarrow> WriteToClusterChain impl f cluster src (offset mod cluster_size);
         let new_size = max (unat (de_file_size (lk_entry lookup))) (offset + bytes_written);
         f \<leftarrow> (if new_size \<noteq> unat (de_file_size (lk_entry lookup))
              then UpdateDirectoryEntry impl f (lk_parent_cluster lookup) (lk_entry_offset lookup)
                     ((lk_entry lookup)\<lparr>de_file_size := of_nat new_size\<rparr>)
              else Some f);
         Some (Inr bytes_written, f) } } }"

section \<open>Contents of a chain\<close>

definition content :: "fat \<Rightarrow> nat list \<Rightarrow> u8 list" where
  "content f cs = concat (map (cluster_data f) cs)"

lemma length_concat_equal: "(\<forall>x\<in>set xs. length x = n) \<Longrightarrow> length (concat xs) = length xs * n"
  by (induction xs) auto

lemma length_content [simp]: "length (content f cs) = length cs * GetClusterSize f"
  using length_concat_equal [of "map (cluster_data f) cs" "GetClusterSize f"] by (simp add: content_def)

lemma drop_concat_equal:
  assumes "\<forall>x\<in>set xs. length x = n" and "i < length xs" and "off \<le> n"
  shows "drop (i * n + off) (concat xs) = drop off (xs ! i) @ drop (Suc i * n) (concat xs)"
  using assms
proof (induction xs arbitrary: i)
  case (Cons x xs)
  show ?case
  proof (cases i)
    case 0
    then show ?thesis using Cons.prems by simp
  next
    case (Suc j)
    have x: "length x = n" using Cons.prems by simp
    have "drop (i * n + off) (concat (x # xs)) = drop (j * n + off) (concat xs)"
      using Suc x by (simp add: add.assoc)
    also have "\<dots> = drop off (xs ! j) @ drop (Suc j * n) (concat xs)"
      using Cons.IH [of j] Cons.prems Suc by simp
    also have "drop (Suc j * n) (concat xs) = drop (Suc i * n) (concat (x # xs))"
      using Suc x by simp
    finally show ?thesis using Suc by simp
  qed
qed simp

lemma take_concat_equal:
  assumes "\<forall>x\<in>set xs. length x = n" and "i < length xs" and "off \<le> n"
  shows "take (i * n + off) (concat xs) = take (i * n) (concat xs) @ take off (xs ! i)"
  using assms
proof (induction xs arbitrary: i)
  case (Cons x xs)
  show ?case
  proof (cases i)
    case 0
    then show ?thesis using Cons.prems by simp
  next
    case (Suc j)
    then show ?thesis using Cons.IH [of j] Cons.prems by (simp add: add.assoc)
  qed
qed simp

lemma concat_update:
  assumes "\<forall>x\<in>set xs. length x = n" and "i < length xs" and "length y = n"
  shows "concat (xs[i := y]) = take (i * n) (concat xs) @ y @ drop (Suc i * n) (concat xs)"
  using assms
proof (induction xs arbitrary: i)
  case (Cons x xs)
  then show ?case by (cases i) (simp_all)
qed simp

lemma overwrite_concat:
  assumes "\<forall>x\<in>set xs. length x = n" and "i < length xs" and "off + length bs \<le> n"
  shows "overwrite (concat xs) (i * n + off) bs = concat (xs[i := overwrite (xs ! i) off bs])"
proof -
  have n: "length (xs ! i) = n" using assms(1,2) by simp
  have "concat (xs[i := overwrite (xs ! i) off bs]) =
      take (i * n) (concat xs) @ overwrite (xs ! i) off bs @ drop (Suc i * n) (concat xs)"
    using assms n by (intro concat_update) simp_all
  moreover have "take (i * n + off) (concat xs) = take (i * n) (concat xs) @ take off (xs ! i)"
    using assms by (intro take_concat_equal) simp_all
  moreover have "drop (i * n + (off + length bs)) (concat xs) = drop (off + length bs) (xs ! i) @ drop (Suc i * n) (concat xs)"
    using assms by (intro drop_concat_equal) simp_all
  ultimately show ?thesis by (simp add: overwrite_def add.assoc)
qed

lemma overwrite_append:
  "a + length x + length y \<le> length s \<Longrightarrow> overwrite (overwrite s a x) (a + length x) y = overwrite s a (x @ y)"
  by (simp add: overwrite_def ac_simps)

lemma overwrite_nil [simp]: "overwrite s a [] = s"
  by (simp add: overwrite_def)

lemma content_drop:
  assumes "i < length cs" and "off \<le> GetClusterSize f"
  shows "drop (i * GetClusterSize f + off) (content f cs) =
    drop off (cluster_data f (cs ! i)) @ drop (Suc i * GetClusterSize f) (content f cs)"
  using drop_concat_equal [of "map (cluster_data f) cs" "GetClusterSize f" i off] assms by (simp add: content_def)

lemma cluster_size_pos: "fat_ok f \<Longrightarrow> 0 < GetClusterSize f"
  by (simp add: fat_ok_def GetClusterSize_def)

lemma ReadCluster_data:
  assumes "fat_ok f"
  shows "ReadCluster f c = Some (cluster_data f c)"
proof -
  have "im_sector_size (fat_io f) = bytes_per_sector f" "GetClusterSize f \<le> kMaxTempBufSize"
    using assms by (auto simp: fat_ok_def kMaxClusterSize_def kMaxTempBufSize_def)
  then show ?thesis
    by (simp add: ReadCluster_def read_range GetClusterSize_def cluster_data_def cluster_addr_def)
qed

lemma temp_copy_data: "fat_ok f \<Longrightarrow> temp_copy (cluster_data f c) (GetClusterSize f) = Some (cluster_data f c)"
  by (simp add: temp_copy_def fat_ok_def)

definition put_cluster :: "fat \<Rightarrow> nat \<Rightarrow> u8 list \<Rightarrow> fat" where
  "put_cluster f c d = with_mem f (put_bytes (fat_mem f) (cluster_addr f c) d)"

lemma WriteCluster_data:
  assumes "fat_ok f" and "length d = GetClusterSize f"
  shows "WriteCluster f c d = Some (put_cluster f c d)"
proof -
  have "im_sector_size (fat_io f) = bytes_per_sector f" using assms(1) by (simp add: fat_ok_def)
  then show ?thesis
    using assms(2)
    by (simp add: WriteCluster_def InMemory_WriteRange_def GetClusterSize_def put_cluster_def with_mem_def cluster_addr_def)
qed

lemma put_cluster_fields [simp]:
  "fat_cluster_count (put_cluster f c d) = fat_cluster_count f" "GetClusterSize (put_cluster f c d) = GetClusterSize f"
  "fat_ok (put_cluster f c d) = fat_ok f" "cluster_addr (put_cluster f c d) c' = cluster_addr f c'"
  by (simp_all add: put_cluster_def)

lemma put_cluster_same: "length d = GetClusterSize f \<Longrightarrow> cluster_data (put_cluster f c d) c = d"
  by (simp add: put_cluster_def cluster_data_def bytes_at_put_same)

lemma put_cluster_other:
  assumes "fat_ok f" and "is_cluster f c" and "is_cluster f c'" and "c' \<noteq> c" and "length d = GetClusterSize f"
  shows "cluster_data (put_cluster f c d) c' = cluster_data f c'"
  using clusters_apart [OF assms(1,3,2,4)] assms(5)
  by (simp add: put_cluster_def cluster_data_def bytes_at_put_other)

lemma content_put_cluster:
  assumes "fat_ok f" and "distinct cs" and "\<forall>c\<in>set cs. is_cluster f c" and "i < length cs"
    and "off + length bs \<le> GetClusterSize f"
  shows "content (put_cluster f (cs ! i) (overwrite (cluster_data f (cs ! i)) off bs)) cs =
    overwrite (content f cs) (i * GetClusterSize f + off) bs"
proof -
  let ?d = "overwrite (cluster_data f (cs ! i)) off bs"
  have "map (cluster_data (put_cluster f (cs ! i) ?d)) cs = (map (cluster_data f) cs)[i := ?d]"
  proof (rule nth_equalityI)
    fix j assume "j < length (map (cluster_data (put_cluster f (cs ! i) ?d)) cs)"
    then have j: "j < length cs" by simp
    show "map (cluster_data (put_cluster f (cs ! i) ?d)) cs ! j = (map (cluster_data f) cs)[i := ?d] ! j"
    proof (cases "j = i")
      case True
      then show ?thesis using j assms(5) by (simp add: put_cluster_same)
    next
      case False
      then have "cs ! j \<noteq> cs ! i" using j assms(2,4) by (simp add: nth_eq_iff_index_eq)
      then show ?thesis using j False assms(1,3,4,5) by (simp add: put_cluster_other)
    qed
  qed simp
  then show ?thesis
    using overwrite_concat [of "map (cluster_data f) cs" "GetClusterSize f" i off bs] assms(4,5)
    by (simp add: content_def)
qed

lemma WriteToClusterChain_loop_done:
  "length src \<le> w \<Longrightarrow> WriteToClusterChain_loop impl f c src off w = Some (w, f)"
  by (subst WriteToClusterChain_loop.simps) simp

text \<open>One round, with the cluster rewritten in place.\<close>

lemma WriteToClusterChain_loop_step:
  fixes f c src off w
  defines "n \<equiv> min (GetClusterSize f - off) (length src - w)"
  defines "f1 \<equiv> put_cluster f c (overwrite (cluster_data f c) off (take n (drop w src)))"
  assumes "fat_ok f" and "w < length src" and "off < GetClusterSize f"
  shows "WriteToClusterChain_loop impl f c src off w =
    (if w + n < length src
     then do {
       next_c \<leftarrow> impl_GetFATEntry impl f1 c;
       if next_c \<ge> impl_kEOC impl
       then do {
         (new, f2) \<leftarrow> AllocateCluster impl f1;
         if new = 0 then Some (w + n, f2)
         else do {
           f3 \<leftarrow> impl_SetFATEntry impl f2 c new;
           WriteToClusterChain_loop impl f3 new src 0 (w + n) } }
       else WriteToClusterChain_loop impl f1 next_c src 0 (w + n) }
     else Some (w + n, f1))"
proof -
  have "length (overwrite (cluster_data f c) off (take n (drop w src))) = GetClusterSize f"
    using assms(4,5) by (subst length_overwrite) (auto simp: n_def)
  then have "WriteCluster f c (overwrite (cluster_data f c) off (take n (drop w src))) = Some f1"
    unfolding f1_def using WriteCluster_data [OF assms(3)] by simp
  then show ?thesis
    using assms(4) WriteToClusterChain_loop_done [of src "w + n" impl f1 c 0]
      ReadCluster_data [OF assms(3)] temp_copy_data [OF assms(3)]
    by (subst WriteToClusterChain_loop.simps) (simp add: n_def [symmetric] Let_def del: min_less_iff_conj)
qed

section \<open>Reading and writing chains\<close>

context fat_table
begin

lemma put_cluster_entry:
  assumes "table_ok f" and "is_cluster f c" and "c' < fat_cluster_count f + 2"
  shows "table_entry impl (put_cluster f c d) c' = table_entry impl f c'"
proof -
  have "table_end f \<le> cluster_addr f c" using cluster_after_table geometry assms(1,2) by blast
  then have "\<forall>a. table_base f \<le> a \<and> a < table_end f \<longrightarrow> put_bytes (fat_mem f) (cluster_addr f c) d a = fat_mem f a"
    by (simp add: put_bytes_at)
  from get_entry_mem [OF assms(1,3) this] show ?thesis by (simp add: table_entry_def put_cluster_def)
qed

lemma put_cluster_ok: "table_ok f \<Longrightarrow> table_ok (put_cluster f c d)"
  by (simp add: put_cluster_def table_ok_mem)

lemma put_cluster_links:
  assumes "table_ok f" and "is_cluster f c"
  shows "links impl (put_cluster f c d) cs = links impl f cs"
  unfolding links_iff using put_cluster_entry [OF assms] last_in_set [of cs] nth_mem [of _ cs] Suc_lessD
  by (auto 0 3)

lemma put_cluster_free:
  assumes "table_ok f" and "is_cluster f c"
  shows "free_clusters impl (put_cluster f c d) = free_clusters impl f"
  using put_cluster_entry [OF assms] by (auto simp: free_clusters_def)

lemma put_cluster_grows:
  assumes "table_ok f" and "links impl f cs" and "distinct cs" and "c \<in> set cs" and "length d = GetClusterSize f"
  shows "grows impl f cs (put_cluster f c d) cs"
proof (rule growsI)
  have c: "is_cluster f c" using linksD(2) [OF assms(2,4)] .
  show "put_cluster f c d = with_mem f (put_bytes (fat_mem f) (cluster_addr f c) d)" by (simp add: put_cluster_def)
  show "put_bytes (fat_mem f) (cluster_addr f c) d a = fat_mem f a" if "outside f (set cs) a" for a
    using that assms(4,5) by (auto simp: put_bytes_at outside_def in_cluster_def)
  show "links impl (put_cluster f c d) cs" using put_cluster_links [OF assms(1) c] assms(2) by simp
  show "table_entry impl (put_cluster f c d) x = table_entry impl f x" if "x < fat_cluster_count f + 2" for x
    using put_cluster_entry [OF assms(1) c that] .
qed (use assms(3) in auto)

text \<open>Changing entries of the table changes no data.\<close>

lemma updates_data:
  assumes "table_ok f" and "entries_updated impl f u f'" and "is_cluster f c"
  shows "cluster_data f' c = cluster_data f c"
proof -
  obtain m where m: "f' = with_mem f m" "\<forall>a. a < table_base f \<or> table_end f \<le> a \<longrightarrow> m a = fat_mem f a"
    using assms(2) by (auto simp: entries_updated_def)
  have "table_end f \<le> cluster_addr f c" using cluster_after_table geometry assms(1,3) by blast
  then show ?thesis using m by (intro nth_equalityI) (simp_all add: cluster_data_def)
qed

lemma updates_content:
  assumes "table_ok f" and "entries_updated impl f u f'" and "\<forall>c\<in>set cs. is_cluster f c"
  shows "content f' cs = content f cs"
  using updates_data [OF assms(1,2)] assms(3) by (simp add: content_def cong: map_cong)

lemma ReadFileData_loop_chain:
  assumes "table_ok f" and "links impl f cs" and "i < length cs" and "off \<le> GetClusterSize f"
  shows "ReadFileData_loop impl f n (cs ! i) off dst =
    Some (dst @ take (n - length dst) (drop (i * GetClusterSize f + off) (content f cs)))"
  using assms(3,4)
proof (induction "length cs - i" arbitrary: i off dst)
  case (Suc k)
  have fok: "fat_ok f" using geometry [OF assms(1)] by blast
  note nx = next_entry [OF assms(1,2) Suc.prems(1)]
  let ?S = "GetClusterSize f"
  let ?d = "take (min (?S - off) (n - length dst)) (drop off (cluster_data f (cs ! i)))"
  note unf = ReadFileData_loop.simps [of impl f n "cs ! i" off dst]
  show ?case
  proof (cases "length dst < n")
    case True
    have d: "?d = take (n - length dst) (drop off (cluster_data f (cs ! i)))"
      by (simp add: min_def)
    have step: "ReadFileData_loop impl f n (cs ! i) off dst = ReadFileData_loop impl f n v 0 (dst @ ?d)"
      if "impl_GetFATEntry impl f (cs ! i) = Some v" for v
      using unf True nx(3) that ReadCluster_data [OF fok] by simp
    note drp = content_drop [OF Suc.prems]
    show ?thesis
    proof (cases "Suc i < length cs")
      case True
      have "ReadFileData_loop impl f n (cs ! Suc i) 0 (dst @ ?d) =
          Some ((dst @ ?d) @ take (n - length (dst @ ?d)) (drop (Suc i * ?S + 0) (content f cs)))"
        using Suc.hyps True by (intro Suc.hyps(1)) auto
      moreover have "n - (length dst + min (?S - off) (n - length dst)) = n - (length dst + (?S - off))"
        by (simp add: min_def)
      ultimately show ?thesis using step [OF nx(1) [OF True]] unfolding drp d by simp
    next
      case False
      then have l: "Suc i = length cs" using Suc.prems(1) by simp
      have "ReadFileData_loop impl f n (table_entry impl f (last cs)) 0 (dst @ ?d) = Some (dst @ ?d)"
        using linksD(4) [OF assms(2)] by (subst ReadFileData_loop.simps) simp
      moreover have "drop (Suc i * ?S) (content f cs) = []" using l by simp
      ultimately show ?thesis using step [OF nx(2) [OF l]] unfolding drp d by simp
    qed
  next
    case False
    then show ?thesis using unf by simp
  qed
qed simp

lemma WriteToClusterChain_loop_chain:
  assumes "table_ok f" and "links impl f cs" and "distinct cs" and "i < length cs" and "off < GetClusterSize f"
    and "w < length src"
  shows "\<exists>n f' cs'. WriteToClusterChain_loop impl f (cs ! i) src off w = Some (n, f') \<and> grows impl f cs f' cs' \<and>
    w < n \<and> n \<le> length src \<and> (n < length src \<longrightarrow> free_clusters impl f' = {}) \<and>
    i * GetClusterSize f + off + (n - w) \<le> length cs' * GetClusterSize f \<and>
    (length cs < length cs' \<longrightarrow> (length cs' - 1) * GetClusterSize f < i * GetClusterSize f + off + (n - w)) \<and>
    content f' cs' = overwrite (content f cs') (i * GetClusterSize f + off) (take (n - w) (drop w src))"
  using assms
proof (induction "length src - w" arbitrary: f cs i off w rule: less_induct)
  case less
  let ?S = "GetClusterSize f"
  define n where "n = min (?S - off) (length src - w)"
  define b where "b = take n (drop w src)"
  define f1 where "f1 = put_cluster f (cs ! i) (overwrite (cluster_data f (cs ! i)) off b)"
  have fok: "fat_ok f" using geometry [OF less.prems(1)] by blast
  have ci: "is_cluster f (cs ! i)" "cs ! i \<in> set cs"
    using links_nth_cluster [OF less.prems(2,4)] less.prems(4) by auto
  have n: "off + n \<le> ?S" "0 < n" "w + n \<le> length src" "w + n < length src \<Longrightarrow> off + n = ?S"
    using less.prems(5,6) unfolding n_def by (auto simp: min_def)
  have lb: "length b = n" using n(3) by (simp add: b_def)
  then have ld: "length (overwrite (cluster_data f (cs ! i)) off b) = GetClusterSize f" using n(1) by simp
  have ok1: "table_ok f1" unfolding f1_def by (rule put_cluster_ok [OF less.prems(1)])
  have g1: "grows impl f cs f1 cs" unfolding f1_def by (rule put_cluster_grows [OF less.prems(1-3) ci(2) ld])
  note l1 = grows_fields(9) [OF g1] and S1 = grows_fields(2) [OF g1]
  have c1: "content f1 ds = overwrite (content f ds) (i * ?S + off) b"
    if "prefix cs ds" "distinct ds" "\<forall>c\<in>set ds. is_cluster f c" for ds
  proof -
    have i: "i < length ds" "ds ! i = cs ! i" using that(1) less.prems(4) by (auto simp: prefix_def nth_append)
    have "off + length b \<le> GetClusterSize f" using n(1) lb by simp
    from content_put_cluster [OF fok that(2,3) i(1) this] show ?thesis by (simp only: i(2) f1_def)
  qed
  note step = WriteToClusterChain_loop_step [OF fok less.prems(6,5), of impl "cs ! i", folded n_def, folded b_def, folded f1_def]
  show ?case
  proof (cases "w + n < length src")
    case False
    then have "WriteToClusterChain_loop impl f (cs ! i) src off w = Some (w + n, f1)" using step by simp
    moreover have "i * ?S + off + n \<le> length cs * ?S"
      using n(1) mult_le_mono1 [of "Suc i" "length cs" ?S] less.prems(4) by simp
    ultimately show ?thesis
      using g1 c1 [OF _ less.prems(3)] linksD(2) [OF less.prems(2)] n(2,3) False
      by (intro exI [of _ "w + n"] exI [of _ f1] exI [of _ cs]) (simp add: b_def)
  next
    case True
    have off: "Suc i * ?S = i * ?S + off + n" using n(4) [OF True] by simp
    have rest: ?thesis
      if r: "WriteToClusterChain_loop impl f (cs ! i) src off w = WriteToClusterChain_loop impl f2 (cs2 ! Suc i) src 0 (w + n)"
        "table_ok f2" "grows impl f cs f2 cs2" "Suc i < length cs2" "length cs < length cs2 \<longrightarrow> length cs2 = Suc (Suc i)"
        "\<And>ds. \<forall>c\<in>set ds. is_cluster f c \<Longrightarrow> content f2 ds = content f1 ds" for f2 cs2
    proof -
      note g2 = grows_fields [OF r(3)]
      have "length src - (w + n) < length src - w" "0 < GetClusterSize f2"
        using True n(2) cluster_size_pos [OF fok] g2(2) by auto
      from less.hyps [OF this(1) r(2) g2(9,10) r(4) this(2) True] obtain n' f' cs' where h:
        "WriteToClusterChain_loop impl f2 (cs2 ! Suc i) src 0 (w + n) = Some (n', f')" "grows impl f2 cs2 f' cs'"
        "w + n < n'" "n' \<le> length src" "n' < length src \<longrightarrow> free_clusters impl f' = {}"
        "Suc i * ?S + 0 + (n' - (w + n)) \<le> length cs' * ?S"
        "length cs2 < length cs' \<longrightarrow> (length cs' - 1) * ?S < Suc i * ?S + 0 + (n' - (w + n))"
        "content f' cs' = overwrite (content f2 cs') (Suc i * ?S + 0) (take (n' - (w + n)) (drop (w + n) src))"
        unfolding g2(2) by blast
      have g: "grows impl f cs f' cs'" using grows_trans [OF less.prems(1) r(3) h(2)] .
      have cl: "\<forall>c\<in>set cs'. is_cluster f c"
        using linksD(2) [OF grows_fields(9) [OF g]] grows_fields(1) [OF g] by auto
      have le: "length cs2 \<le> length cs'" using grows_fields(11) [OF h(2)] by (rule prefix_length_le)
      have eq: "i * ?S + off + (n' - w) = Suc i * ?S + (n' - (w + n))" unfolding off using h(3) by simp
      have data: "take (n' - w) (drop w src) = b @ take (n' - (w + n)) (drop (w + n) src)"
      proof -
        have "take (n + (n' - (w + n))) (drop w src) = take n (drop w src) @ take (n' - (w + n)) (drop n (drop w src))"
          by (rule take_add)
        moreover have "n + (n' - (w + n)) = n' - w" using h(3) by simp
        ultimately show ?thesis by (simp add: b_def add.commute)
      qed
      have "content f' cs' = overwrite (overwrite (content f cs') (i * ?S + off) b) (i * ?S + off + length b)
          (take (n' - (w + n)) (drop (w + n) src))"
        unfolding h(8) r(6) [OF cl] c1 [OF grows_fields(11,10) [OF g] cl] off lb by simp
      also have "\<dots> = overwrite (content f cs') (i * ?S + off) (take (n' - w) (drop w src))"
        unfolding data using h(4,6) off lb by (intro overwrite_append) simp
      finally have c: "content f' cs' = overwrite (content f cs') (i * ?S + off) (take (n' - w) (drop w src))" .
      have "(length cs' - 1) * ?S < i * ?S + off + (n' - w)" if "length cs < length cs'"
        unfolding eq using h(3,7) le r(5) that by (cases "length cs2 < length cs'") auto
      then show ?thesis using r(1) h g c eq n(2) by (intro exI [of _ n'] exI [of _ f'] exI [of _ cs']) auto
    qed
    note nx = next_entry [OF ok1 l1 less.prems(4)]
    show ?thesis
    proof (cases "Suc i < length cs")
      case t: True
      have "WriteToClusterChain_loop impl f (cs ! i) src off w = WriteToClusterChain_loop impl f1 (cs ! Suc i) src 0 (w + n)"
        using step True nx(1) [OF t] next_entry(3) [OF ok1 l1 t] by simp
      then show ?thesis using rest [OF _ ok1 g1 t] by simp
    next
      case False
      then have l: "Suc i = length cs" "cs ! i = last cs"
        using less.prems(4) by (metis Suc_lessI, metis Suc_lessI diff_Suc_1 last_conv_nth length_0_conv nat.distinct(1))
      note g = nx(2) [OF l(1)] linksD(4) [OF l1]
      show ?thesis
      proof (rule AllocateCluster_cases [OF ok1], goal_cases full ok)
        case full
        then have "WriteToClusterChain_loop impl f (cs ! i) src off w = Some (w + n, f1)" using step True g by simp
        moreover have "i * ?S + off + n \<le> length cs * ?S" using off l(1) by simp
        ultimately show ?case
          using g1 c1 [OF _ less.prems(3)] linksD(2) [OF less.prems(2)] n(2,3) full(2)
          by (intro exI [of _ "w + n"] exI [of _ f1] exI [of _ cs]) (simp add: b_def)
      next
        case (ok k f2)
        obtain f3 u where f3: "impl_SetFATEntry impl f2 (last cs) k = Some f3" "grows impl f1 cs f3 (cs @ [k])"
          "entries_updated impl f1 u f3"
          using extend_chain [OF ok1 l1 less.prems(3) ok(2,4,5)] .
        have "k \<noteq> 0" using ok(2) by (auto simp: free_clusters_def)
        then have "WriteToClusterChain_loop impl f (cs ! i) src off w =
            WriteToClusterChain_loop impl f3 ((cs @ [k]) ! Suc i) src 0 (w + n)"
          using step True g ok(1) f3(1) l by (simp add: nth_append)
        moreover have "content f3 ds = content f1 ds" if "\<forall>c\<in>set ds. is_cluster f c" for ds
          using updates_content [OF ok1 f3(3)] that grows_fields(1) [OF g1] by simp
        ultimately show ?case
          using rest [OF _ grows_ok [OF ok1 f3(2)] grows_trans [OF less.prems(1) g1 f3(2)]] l(1) by simp
      qed
    qed
  qed
qed

end

end
