(* ===== verification/Libc_Ctype.thy ===== *)
theory Libc_Ctype
  imports Kernel_Prelude
begin

text \<open>
  Character classes (\<open>libs/libc/src/include/ctype.h\<close>): the table \<open>__ctype_lookup\<close>, given by its runs of equal entries,
  the class tests, which return the bits of the entry as an \<open>int\<close>, and the conversions of case.
\<close>

section \<open>The table\<close>

definition K_LOWER :: u8 where "K_LOWER = 0x01"
definition K_UPPER :: u8 where "K_UPPER = 0x02"
definition K_XDIGIT :: u8 where "K_XDIGIT = 0x04"
definition K_CNTRL :: u8 where "K_CNTRL = 0x08"
definition K_DIGIT :: u8 where "K_DIGIT = 0x10"
definition K_PUNCT :: u8 where "K_PUNCT = 0x80"
definition K_SPACE :: u8 where "K_SPACE = 0x20"
definition K_EXTRA :: u8 where "K_EXTRA = 0x40"
definition K_ALPHA :: u8 where "K_ALPHA = K_LOWER OR K_UPPER"
definition K_ALNUM :: u8 where "K_ALNUM = K_ALPHA OR K_DIGIT"
definition K_GRAPH :: u8 where "K_GRAPH = K_ALNUM OR K_PUNCT"
definition K_PRINT :: u8 where "K_PRINT = K_GRAPH OR K_EXTRA"

definition ctype_lookup :: "u8 list" where
  "ctype_lookup =
     replicate 9 K_CNTRL @ replicate 5 (K_CNTRL OR K_SPACE) @ replicate 18 K_CNTRL @
     [K_SPACE OR K_EXTRA] @ replicate 15 K_PUNCT @ replicate 10 (K_DIGIT OR K_XDIGIT) @
     replicate 7 K_PUNCT @ replicate 6 (K_UPPER OR K_XDIGIT) @ replicate 20 K_UPPER @
     replicate 6 K_PUNCT @ replicate 6 (K_LOWER OR K_XDIGIT) @ replicate 20 K_LOWER @
     replicate 4 K_PUNCT @ [K_CNTRL] @ replicate 128 0"

text \<open>\<open>__ctype_lookup[(u8)c] & mask\<close>.\<close>

definition class_of :: "int \<Rightarrow> u8 \<Rightarrow> int" where
  "class_of c m = uint (ctype_lookup ! nat (c mod 256) AND m)"

definition isalnum :: "int \<Rightarrow> int" where "isalnum c = class_of c K_ALNUM"
definition isalpha :: "int \<Rightarrow> int" where "isalpha c = class_of c K_ALPHA"
definition iscntrl :: "int \<Rightarrow> int" where "iscntrl c = class_of c K_CNTRL"
definition isdigit :: "int \<Rightarrow> int" where "isdigit c = class_of c K_DIGIT"
definition isgraph :: "int \<Rightarrow> int" where "isgraph c = class_of c K_GRAPH"
definition islower :: "int \<Rightarrow> int" where "islower c = class_of c K_LOWER"
definition isprint :: "int \<Rightarrow> int" where "isprint c = class_of c K_PRINT"
definition ispunct :: "int \<Rightarrow> int" where "ispunct c = class_of c K_PUNCT"
definition isspace :: "int \<Rightarrow> int" where "isspace c = class_of c K_SPACE"
definition isupper :: "int \<Rightarrow> int" where "isupper c = class_of c K_UPPER"
definition isxdigit :: "int \<Rightarrow> int" where "isxdigit c = class_of c K_XDIGIT"
definition tolower :: "int \<Rightarrow> int" where "tolower c = (if isupper c \<noteq> 0 then c + 0x20 else c)"
definition toupper :: "int \<Rightarrow> int" where "toupper c = (if islower c \<noteq> 0 then c - 0x20 else c)"

section \<open>The classes are those of ASCII\<close>

lemmas K_defs = K_LOWER_def K_UPPER_def K_XDIGIT_def K_CNTRL_def K_DIGIT_def K_PUNCT_def K_SPACE_def K_EXTRA_def
  K_ALPHA_def K_ALNUM_def K_GRAPH_def K_PRINT_def

text \<open>The entry for each character, by ranges.\<close>

definition ascii_class :: "nat \<Rightarrow> u8" where
  "ascii_class i =
    (if i < 9 then K_CNTRL else if i < 14 then K_CNTRL OR K_SPACE else if i < 32 then K_CNTRL
     else if i = 32 then K_SPACE OR K_EXTRA else if i < 48 then K_PUNCT else if i < 58 then K_DIGIT OR K_XDIGIT
     else if i < 65 then K_PUNCT else if i < 71 then K_UPPER OR K_XDIGIT else if i < 91 then K_UPPER
     else if i < 97 then K_PUNCT else if i < 103 then K_LOWER OR K_XDIGIT else if i < 123 then K_LOWER
     else if i < 127 then K_PUNCT else if i = 127 then K_CNTRL else 0)"

lemma ctype_lookup_ascii: "ctype_lookup = map ascii_class [0..<256]"
  by code_simp

lemma class_of_entry: "i < 256 \<Longrightarrow> class_of (int i) m = uint (ascii_class i AND m)"
  by (simp add: class_of_def ctype_lookup_ascii)

lemma class_of_ascii:
  assumes "i < 256"
  shows "islower (int i) \<noteq> 0 \<longleftrightarrow> 97 \<le> i \<and> i \<le> 122" and "isupper (int i) \<noteq> 0 \<longleftrightarrow> 65 \<le> i \<and> i \<le> 90"
    and "isdigit (int i) \<noteq> 0 \<longleftrightarrow> 48 \<le> i \<and> i \<le> 57" and "isspace (int i) \<noteq> 0 \<longleftrightarrow> 9 \<le> i \<and> i \<le> 13 \<or> i = 32"
    and "isprint (int i) \<noteq> 0 \<longleftrightarrow> 32 \<le> i \<and> i \<le> 126" and "iscntrl (int i) \<noteq> 0 \<longleftrightarrow> i \<le> 31 \<or> i = 127"
    and "isxdigit (int i) \<noteq> 0 \<longleftrightarrow> 48 \<le> i \<and> i \<le> 57 \<or> 65 \<le> i \<and> i \<le> 70 \<or> 97 \<le> i \<and> i \<le> 102"
    and "isgraph (int i) \<noteq> 0 \<longleftrightarrow> 33 \<le> i \<and> i \<le> 126"
  using assms
  by (auto simp: class_of_entry islower_def isupper_def isdigit_def isspace_def isprint_def iscntrl_def isxdigit_def
      isgraph_def ascii_class_def K_defs split: if_splits)

end
