(* ===== verification/Fat_Dirs.thy ===== *)
theory Fat_Dirs
  imports Fat_Files Libc_Ctype
begin

text \<open>
  Names, directories and the operations of the file system in \<open>kernel/src/fs/vfs/fat/fat.hpp\<close>: scanning and
  looking up, creating, moving and deleting entries, and the functions behind the interface of
  the virtual file system.

  A callback of a scan takes and returns the state its captures hold. The result of an operation that can
  fail is an \<open>expected\<close>, paired with the file system where the operation may write.
\<close>

section \<open>Names\<close>

definition kInvalidChars :: "u8 list" where
  "kInvalidChars = [0x22, 0x2A, 0x2B, 0x2C, 0x2E, 0x2F, 0x3A, 0x3B, 0x3C, 0x3D, 0x3E, 0x3F, 0x5B, 0x5C, 0x5D, 0x7C]"

text \<open>\<open>char\<close> is signed. The result \<open>None\<close> is false.\<close>

fun CopyAndValidateChars :: "u8 list \<Rightarrow> u8 list \<Rightarrow> nat \<Rightarrow> u8 list option" where
  "CopyAndValidateChars [] dst dst_offset = Some dst"
| "CopyAndValidateChars (c # src) dst dst_offset =
    (if sint c < 0x20 \<and> c \<noteq> 0x05 then None
     else if c \<in> set kInvalidChars then None
     else CopyAndValidateChars src
            (dst[dst_offset := word_of_int (if c = 0x05 then toupper 0xE5 else toupper (sint c))]) (dst_offset + 1))"

definition ToShortFormat :: "u8 list \<Rightarrow> u8 list option" where
  "ToShortFormat filename =
    (let len = length filename in
     if len > kMaxNameLength + 1 then None
     else let dot_pos = find_last_dot filename;
              name_len = (case dot_pos of Some d \<Rightarrow> d | None \<Rightarrow> len);
              ext_len = (case dot_pos of Some _ \<Rightarrow> len - name_len - 1 | None \<Rightarrow> 0)
          in if ext_len > 3 \<or> name_len = 0 \<or> name_len > 8 then None
             else do {
               formatted \<leftarrow> CopyAndValidateChars (take name_len filename) (replicate kMaxNameLength 0x20) 0;
               case dot_pos of
                 Some d \<Rightarrow> CopyAndValidateChars (take ext_len (drop (d + 1) filename)) formatted 8
               | None \<Rightarrow> Some formatted })"

text \<open>The copy into a buffer of \<open>kMaxComponentSize\<close> bytes that ends with a zero.\<close>

definition FormatFilename :: "u8 list \<Rightarrow> u8 list option" where
  "FormatFilename filename =
     ToShortFormat (takeWhile (\<lambda>c. c \<noteq> 0) (take (min (length filename) (kMaxComponentSize - 1)) filename))"

definition FormatShortName :: "u8 list \<Rightarrow> u8 list" where
  "FormatShortName short_name =
     takeWhile (\<lambda>c. c \<noteq> 0x20) (take 8 short_name) @
     (if short_name ! 8 \<noteq> 0x20 then 0x2E # takeWhile (\<lambda>c. c \<noteq> 0x20) (take 3 (drop 8 short_name)) else [])"

definition kDot :: "u8 list" where "kDot = 0x2E # replicate 10 0x20"
definition kDotDot :: "u8 list" where "kDotDot = [0x2E, 0x2E] @ replicate 9 0x20"

section \<open>Scanning\<close>

text \<open>The entries of one block from index \<open>i\<close> on, \<open>n\<close> of them; the flag tells that the end of the directory was met.\<close>

fun ScanEntries :: "('s \<Rightarrow> DirectoryEntry \<Rightarrow> 's) \<Rightarrow> u8 list \<Rightarrow> nat \<Rightarrow> nat \<Rightarrow> 's \<Rightarrow> (bool \<times> 's) option" where
  "ScanEntries callback data i 0 st = Some (False, st)"
| "ScanEntries callback data i (Suc n) st = do {
     entry \<leftarrow> get_DirectoryEntry data (i * entry_size);
     if DE_IsFree entry then ScanEntries callback data (i + 1) n st
     else if DE_IsFurtherEntriesFree entry then Some (True, st)
     else ScanEntries callback data (i + 1) n (callback st entry) }"

definition ScanFixedRootDirectory :: "fat \<Rightarrow> ('s \<Rightarrow> DirectoryEntry \<Rightarrow> 's) \<Rightarrow> 's \<Rightarrow> 's option" where
  "ScanFixedRootDirectory f callback st = do {
     root_data \<leftarrow> InMemory_ReadRange (fat_io f) (root_dir_region_start f) (root_dir_region_count f);
     (_, st') \<leftarrow> ScanEntries callback root_data 0 (length root_data div entry_size) st;
     Some st' }"

partial_function (option) ScanClusterChainDirectory ::
  "fat_impl \<Rightarrow> fat \<Rightarrow> nat \<Rightarrow> ('s \<Rightarrow> DirectoryEntry \<Rightarrow> 's) \<Rightarrow> 's \<Rightarrow> 's option" where
  "ScanClusterChainDirectory impl f cluster callback st =
    (if cluster < impl_kEOC impl
     then do {
       cluster_data \<leftarrow> ReadCluster f cluster;
       (stop, st') \<leftarrow> ScanEntries callback cluster_data 0 (length cluster_data div entry_size) st;
       if stop then Some st'
       else do { next_c \<leftarrow> impl_GetFATEntry impl f cluster; ScanClusterChainDirectory impl f next_c callback st' } }
     else Some st)"

definition ScanDirectoryTable ::
  "fat_impl \<Rightarrow> fat \<Rightarrow> DirectoryEntry \<Rightarrow> ('s \<Rightarrow> DirectoryEntry \<Rightarrow> 's) \<Rightarrow> 's \<Rightarrow> 's option" where
  "ScanDirectoryTable impl f dir_entry callback st =
    (let cluster = FirstCluster impl dir_entry in
     if impl_kHasFixedRootDir impl \<and> cluster = 0 then ScanFixedRootDirectory f callback st
     else ScanClusterChainDirectory impl f cluster callback st)"

text \<open>The variants that pass the offset of the entry, and stop when the callback returns false.\<close>

fun ScanEntriesWithOffset ::
  "('s \<Rightarrow> DirectoryEntry \<Rightarrow> nat \<Rightarrow> bool \<times> 's) \<Rightarrow> u8 list \<Rightarrow> nat \<Rightarrow> nat \<Rightarrow> nat \<Rightarrow> 's \<Rightarrow> (bool \<times> 's) option" where
  "ScanEntriesWithOffset callback data i 0 offset st = Some (False, st)"
| "ScanEntriesWithOffset callback data i (Suc n) offset st = do {
     entry \<leftarrow> get_DirectoryEntry data (i * entry_size);
     if DE_IsFree entry then ScanEntriesWithOffset callback data (i + 1) n (offset + entry_size) st
     else if DE_IsFurtherEntriesFree entry then Some (True, st)
     else (case callback st entry offset of (continue, st') \<Rightarrow>
       if \<not> continue then Some (True, st')
       else ScanEntriesWithOffset callback data (i + 1) n (offset + entry_size) st') }"

definition ScanFixedRootDirectoryWithOffset ::
  "fat \<Rightarrow> ('s \<Rightarrow> DirectoryEntry \<Rightarrow> nat \<Rightarrow> bool \<times> 's) \<Rightarrow> 's \<Rightarrow> 's option" where
  "ScanFixedRootDirectoryWithOffset f callback st = do {
     root_data \<leftarrow> InMemory_ReadRange (fat_io f) (root_dir_region_start f) (root_dir_region_count f);
     (_, st') \<leftarrow> ScanEntriesWithOffset callback root_data 0 (length root_data div entry_size) 0 st;
     Some st' }"

partial_function (option) ScanClusterChainDirectoryWithOffset ::
  "fat_impl \<Rightarrow> fat \<Rightarrow> nat \<Rightarrow> nat \<Rightarrow> ('s \<Rightarrow> DirectoryEntry \<Rightarrow> nat \<Rightarrow> bool \<times> 's) \<Rightarrow> 's \<Rightarrow> 's option" where
  "ScanClusterChainDirectoryWithOffset impl f cluster global_offset callback st =
    (if cluster < impl_kEOC impl
     then do {
       cluster_data \<leftarrow> ReadCluster f cluster;
       let entry_count = length cluster_data div entry_size;
       (stop, st') \<leftarrow> ScanEntriesWithOffset callback cluster_data 0 entry_count global_offset st;
       if stop then Some st'
       else do {
         next_c \<leftarrow> impl_GetFATEntry impl f cluster;
         ScanClusterChainDirectoryWithOffset impl f next_c (global_offset + entry_count * entry_size) callback st' } }
     else Some st)"

definition ScanDirectoryTableWithOffset ::
  "fat_impl \<Rightarrow> fat \<Rightarrow> DirectoryEntry \<Rightarrow> ('s \<Rightarrow> DirectoryEntry \<Rightarrow> nat \<Rightarrow> bool \<times> 's) \<Rightarrow> 's \<Rightarrow> 's option" where
  "ScanDirectoryTableWithOffset impl f dir_entry callback st =
    (let cluster = FirstCluster impl dir_entry in
     if impl_kHasFixedRootDir impl \<and> cluster = 0 then ScanFixedRootDirectoryWithOffset f callback st
     else ScanClusterChainDirectoryWithOffset impl f cluster 0 callback st)"

section \<open>Looking up a path\<close>

definition null_entry :: DirectoryEntry where
  "null_entry = entry_of (replicate entry_size 0)"

definition MakeRootDirectoryEntry :: "fat_impl \<Rightarrow> fat \<Rightarrow> DirectoryEntry" where
  "MakeRootDirectoryEntry impl f =
     SetEntryFirstCluster (null_entry\<lparr>de_attributes := attr_Directory\<rparr>) (impl_GetRootCluster impl f)"

record EntryMatch =
  em_entry :: DirectoryEntry
  em_entry_offset :: nat
  em_found :: bool

definition FindEntry_callback :: "u8 list \<Rightarrow> EntryMatch \<Rightarrow> DirectoryEntry \<Rightarrow> nat \<Rightarrow> bool \<times> EntryMatch" where
  "FindEntry_callback formatted match entry offset =
    (if \<not> DE_IsLongNameSubComponent entry \<and> \<not> DE_IsFree entry \<and> take kMaxNameLength (de_filename entry) = formatted
     then (False, \<lparr>em_entry = entry, em_entry_offset = offset, em_found = True\<rparr>)
     else (True, match))"

definition FindEntryInDirectory :: "fat_impl \<Rightarrow> fat \<Rightarrow> DirectoryEntry \<Rightarrow> u8 list \<Rightarrow> EntryMatch option" where
  "FindEntryInDirectory impl f dir_entry component =
    (let match = \<lparr>em_entry = null_entry, em_entry_offset = 0, em_found = False\<rparr> in
     case FormatFilename component of
       None \<Rightarrow> Some match
     | Some formatted \<Rightarrow>
         ScanDirectoryTableWithOffset impl f dir_entry (FindEntry_callback formatted) match)"

fun LookupPath_loop ::
  "fat_impl \<Rightarrow> fat \<Rightarrow> str list \<Rightarrow> DirectoryEntry \<Rightarrow> nat \<Rightarrow> nat \<Rightarrow> nat \<Rightarrow> PathLookupResult option" where
  "LookupPath_loop impl f [] current_entry current_cluster parent_cluster entry_offset =
     Some \<lparr>lk_entry = current_entry, lk_parent_cluster = parent_cluster, lk_entry_offset = entry_offset, lk_found = True\<rparr>"
| "LookupPath_loop impl f (component # cs) current_entry current_cluster parent_cluster entry_offset =
    (if component = [0x2E] then LookupPath_loop impl f cs current_entry current_cluster parent_cluster entry_offset
     else if component = [0x2E, 0x2E]
     then LookupPath_loop impl f cs current_entry current_cluster parent_cluster entry_offset
     else do {
       match \<leftarrow> FindEntryInDirectory impl f current_entry component;
       if \<not> em_found match
       then Some \<lparr>lk_entry = null_entry, lk_parent_cluster = 0, lk_entry_offset = entry_offset, lk_found = False\<rparr>
       else LookupPath_loop impl f cs (em_entry match) (FirstCluster impl (em_entry match)) current_cluster
              (em_entry_offset match) })"

definition LookupPath :: "fat_impl \<Rightarrow> fat \<Rightarrow> path \<Rightarrow> PathLookupResult option" where
  "LookupPath impl f path =
    (if Path_IsEmpty path \<or> Path_IsRoot path
     then Some \<lparr>lk_entry = null_entry, lk_parent_cluster = 0, lk_entry_offset = 0, lk_found = False\<rparr>
     else let root = impl_GetRootCluster impl f
          in LookupPath_loop impl f (p_components path) (MakeRootDirectoryEntry impl f) root root 0)"

definition GetDirectoryLookup :: "fat_impl \<Rightarrow> fat \<Rightarrow> path \<Rightarrow> PathLookupResult option" where
  "GetDirectoryLookup impl f path =
    (if Path_IsRoot path
     then Some \<lparr>lk_entry = MakeRootDirectoryEntry impl f, lk_parent_cluster = 0, lk_entry_offset = 0, lk_found = True\<rparr>
     else LookupPath impl f path)"

definition GetParentCluster :: "fat_impl \<Rightarrow> fat \<Rightarrow> path \<Rightarrow> (VfsError, nat) expected option" where
  "GetParentCluster impl f path = do {
     parent_path \<leftarrow> Path_GetParent path;
     if Path_IsRoot parent_path then Some (Inr (impl_GetRootCluster impl f))
     else do {
       parent_lookup \<leftarrow> LookupPath impl f parent_path;
       if \<not> lk_found parent_lookup then Some (Inl kDirectoryNotFound)
       else Some (Inr (FirstCluster impl (lk_entry parent_lookup))) } }"

section \<open>Directory entries\<close>

text \<open>The bytes of a new entry; the byte the structure reserves keeps its value.\<close>

definition WriteNewEntry ::
  "u8 list \<Rightarrow> nat \<Rightarrow> u8 list \<Rightarrow> u8 \<Rightarrow> nat \<Rightarrow> bool \<Rightarrow> bool \<Rightarrow> u8 list" where
  "WriteNewEntry buffer index name attributes first_cluster was_eod has_next_slot =
    (let old = entry_of (take entry_size (drop (index * entry_size) buffer));
         new_entry = SetEntryFirstCluster (null_entry\<lparr>de_filename := name, de_attributes := attributes,
           de_reserved := de_reserved old, de_file_size := 0\<rparr>) first_cluster;
         buffer' = overwrite buffer (index * entry_size) (entry_bytes new_entry)
     in if was_eod \<and> has_next_slot then buffer'[(index + 1) * entry_size := kEOD] else buffer')"

text \<open>The first slot that is free or the end of the directory, from index \<open>i\<close> on, with \<open>n\<close> slots left.\<close>

fun FindSlot :: "u8 list \<Rightarrow> nat \<Rightarrow> nat \<Rightarrow> (nat \<times> DirectoryEntry) option option" where
  "FindSlot data i 0 = Some None"
| "FindSlot data i (Suc n) = do {
     entry \<leftarrow> get_DirectoryEntry data (i * entry_size);
     if DE_IsFree entry \<or> DE_IsFurtherEntriesFree entry then Some (Some (i, entry))
     else FindSlot data (i + 1) n }"

definition CreateEntryInFixedRootDir ::
  "fat \<Rightarrow> u8 list \<Rightarrow> u8 \<Rightarrow> nat \<Rightarrow> ((VfsError, unit) expected \<times> fat) option" where
  "CreateEntryInFixedRootDir f name attributes first_cluster = do {
     root_data \<leftarrow> InMemory_ReadRange (fat_io f) (root_dir_region_start f) (root_dir_region_count f);
     let root_size = root_dir_region_count f * bytes_per_sector f;
     let entry_count = root_size div entry_size;
     slot \<leftarrow> FindSlot root_data 0 entry_count;
     case slot of
       None \<Rightarrow> Some (Inl kDiskFull, f)
     | Some (i, entry) \<Rightarrow> do {
         temp_buffer \<leftarrow> temp_copy root_data root_size;
         let temp_buffer' = WriteNewEntry temp_buffer i name attributes first_cluster
           (DE_IsFurtherEntriesFree entry) (i + 1 < entry_count);
         io \<leftarrow> InMemory_WriteRange (fat_io f) (root_dir_region_start f) (root_dir_region_count f) temp_buffer';
         Some (Inr (), f\<lparr>fat_io := io\<rparr>) } }"

definition InitializeEmptyCluster :: "fat \<Rightarrow> nat \<Rightarrow> fat option" where
  "InitializeEmptyCluster f cluster = do {
     let cluster_size = GetClusterSize f;
     data \<leftarrow> temp_copy (replicate cluster_size 0) cluster_size;
     WriteCluster f cluster (data[0 := kEOD]) }"

partial_function (option) CreateEntryInClusterDir ::
  "fat_impl \<Rightarrow> fat \<Rightarrow> nat \<Rightarrow> u8 list \<Rightarrow> u8 \<Rightarrow> nat \<Rightarrow> ((VfsError, unit) expected \<times> fat) option" where
  "CreateEntryInClusterDir impl f cluster name attributes first_cluster =
    (if cluster < impl_kEOC impl
     then do {
       cluster_data \<leftarrow> ReadCluster f cluster;
       let entry_count = length cluster_data div entry_size;
       slot \<leftarrow> FindSlot cluster_data 0 entry_count;
       case slot of
         Some (i, entry) \<Rightarrow> do {
           temp_buffer \<leftarrow> temp_copy cluster_data (GetClusterSize f);
           f' \<leftarrow> WriteCluster f cluster (WriteNewEntry temp_buffer i name attributes first_cluster
             (DE_IsFurtherEntriesFree entry) (i + 1 < entry_count));
           Some (Inr (), f') }
       | None \<Rightarrow> do {
           next_c \<leftarrow> impl_GetFATEntry impl f cluster;
           if next_c \<ge> impl_kEOC impl
           then do {
             (new, f1) \<leftarrow> AllocateCluster impl f;
             if new = 0 then Some (Inl kDiskFull, f1)
             else do {
               f2 \<leftarrow> impl_SetFATEntry impl f1 cluster new;
               f3 \<leftarrow> InitializeEmptyCluster f2 new;
               CreateEntryInClusterDir impl f3 new name attributes first_cluster } }
           else CreateEntryInClusterDir impl f next_c name attributes first_cluster } }
     else Some (Inl kDiskFull, f))"

definition CreateEntry ::
  "fat_impl \<Rightarrow> fat \<Rightarrow> nat \<Rightarrow> u8 list \<Rightarrow> u8 \<Rightarrow> nat \<Rightarrow> ((VfsError, unit) expected \<times> fat) option" where
  "CreateEntry impl f parent_cluster name attributes first_cluster =
    (if impl_kHasFixedRootDir impl \<and> parent_cluster = 0
     then CreateEntryInFixedRootDir f name attributes first_cluster
     else CreateEntryInClusterDir impl f parent_cluster name attributes first_cluster)"

text \<open>The first byte of the structure is the first of the name.\<close>

definition mark_deleted :: "DirectoryEntry \<Rightarrow> DirectoryEntry" where
  "mark_deleted entry = entry\<lparr>de_filename := (de_filename entry)[0 := kDeletedEntry]\<rparr>"

definition DeleteEntry :: "fat_impl \<Rightarrow> fat \<Rightarrow> PathLookupResult \<Rightarrow> ((VfsError, unit) expected \<times> fat) option" where
  "DeleteEntry impl f lookup = do {
     f1 \<leftarrow> FreeClusterChain impl f (FirstCluster impl (lk_entry lookup));
     f2 \<leftarrow> UpdateDirectoryEntry impl f1 (lk_parent_cluster lookup) (lk_entry_offset lookup)
       (mark_deleted (lk_entry lookup));
     Some (Inr (), f2) }"

definition MoveEntry ::
  "fat_impl \<Rightarrow> fat \<Rightarrow> PathLookupResult \<Rightarrow> u8 list \<Rightarrow> nat \<Rightarrow> ((VfsError, unit) expected \<times> fat) option" where
  "MoveEntry impl f old_lookup new_name new_parent_cluster =
    (if lk_parent_cluster old_lookup = new_parent_cluster
     then do {
       f' \<leftarrow> UpdateDirectoryEntry impl f (lk_parent_cluster old_lookup) (lk_entry_offset old_lookup)
         ((lk_entry old_lookup)\<lparr>de_filename := new_name\<rparr>);
       Some (Inr (), f') }
     else do {
       (result, f1) \<leftarrow> CreateEntry impl f new_parent_cluster new_name (de_attributes (lk_entry old_lookup))
         (FirstCluster impl (lk_entry old_lookup));
       case result of
         Inl e \<Rightarrow> Some (Inl e, f1)
       | Inr _ \<Rightarrow> do {
           f2 \<leftarrow> UpdateDirectoryEntry impl f1 (lk_parent_cluster old_lookup) (lk_entry_offset old_lookup)
             (mark_deleted (lk_entry old_lookup));
           Some (Inr (), f2) } })"

definition InitializeNewDirectory :: "fat \<Rightarrow> nat \<Rightarrow> nat \<Rightarrow> fat option" where
  "InitializeNewDirectory f new_cluster parent_cluster = do {
     let cluster_size = GetClusterSize f;
     dir_data \<leftarrow> temp_copy (replicate cluster_size 0) cluster_size;
     let dot_entry = SetEntryFirstCluster
       (null_entry\<lparr>de_filename := kDot, de_attributes := attr_Directory\<rparr>) new_cluster;
     let dotdot_entry = SetEntryFirstCluster
       (null_entry\<lparr>de_filename := kDotDot, de_attributes := attr_Directory\<rparr>) parent_cluster;
     let dir_data' = overwrite (overwrite dir_data 0 (entry_bytes dot_entry)) entry_size (entry_bytes dotdot_entry);
     WriteCluster f new_cluster dir_data' }"

definition CreateDirectoryWithCluster ::
  "fat_impl \<Rightarrow> fat \<Rightarrow> nat \<Rightarrow> u8 list \<Rightarrow> ((VfsError, unit) expected \<times> fat) option" where
  "CreateDirectoryWithCluster impl f parent_cluster name = do {
     (new_cluster, f1) \<leftarrow> AllocateCluster impl f;
     if new_cluster = 0 then Some (Inl kDiskFull, f1)
     else do {
       f2 \<leftarrow> InitializeNewDirectory f1 new_cluster parent_cluster;
       CreateEntry impl f2 parent_cluster name attr_Directory new_cluster } }"

definition IsDirectoryEmpty :: "fat_impl \<Rightarrow> fat \<Rightarrow> DirectoryEntry \<Rightarrow> bool option" where
  "IsDirectoryEmpty impl f entry = ScanDirectoryTable impl f entry (\<lambda>is_empty e.
     if \<not> DE_IsFree e \<and> \<not> DE_IsLongNameSubComponent e \<and> \<not> DE_IsVolumeLabel e \<and>
        take kMaxNameLength (de_filename e) \<noteq> kDot \<and> take kMaxNameLength (de_filename e) \<noteq> kDotDot
     then False else is_empty) True"

section \<open>The operations of the file system\<close>

definition CreateFile :: "fat_impl \<Rightarrow> fat \<Rightarrow> path \<Rightarrow> ((VfsError, unit) expected \<times> fat) option" where
  "CreateFile impl f path =
    (if Path_IsEmpty path \<or> \<not> Path_HasComponents path then Some (Inl kInvalidPath, f)
     else case FormatFilename (Path_GetFilename path) of
       None \<Rightarrow> Some (Inl kInvalidName, f)
     | Some formatted_name \<Rightarrow> do {
         lookup \<leftarrow> LookupPath impl f path;
         if lk_found lookup then Some (Inl kAlreadyExists, f)
         else do {
           parent_cluster \<leftarrow> GetParentCluster impl f path;
           case parent_cluster of
             Inl e \<Rightarrow> Some (Inl e, f)
           | Inr p \<Rightarrow> CreateEntry impl f p formatted_name attr_Archive 0 } })"

definition ReadFile :: "fat_impl \<Rightarrow> fat \<Rightarrow> path \<Rightarrow> bool \<Rightarrow> nat \<Rightarrow> nat \<Rightarrow> (VfsError, u8 list) expected option" where
  "ReadFile impl f path has_buffer sz offset =
    (if \<not> has_buffer \<or> sz = 0 then Some (Inl kInvalidArgument)
     else do {
       lookup \<leftarrow> LookupPath impl f path;
       if \<not> lk_found lookup then Some (Inl kFileNotFound)
       else if \<not> DE_IsFile (lk_entry lookup) then Some (Inl kNotAFile)
       else if offset \<ge> unat (de_file_size (lk_entry lookup)) then Some (Inr [])
       else do { bytes \<leftarrow> ReadFileData impl f (lk_entry lookup) sz offset; Some (Inr bytes) } })"

definition WriteFile ::
  "fat_impl \<Rightarrow> fat \<Rightarrow> path \<Rightarrow> bool \<Rightarrow> u8 list \<Rightarrow> nat \<Rightarrow> ((VfsError, nat) expected \<times> fat) option" where
  "WriteFile impl f path has_buffer src offset =
    (if \<not> has_buffer \<or> length src = 0 then Some (Inl kInvalidArgument, f)
     else do {
       lookup \<leftarrow> LookupPath impl f path;
       if \<not> lk_found lookup then Some (Inl kFileNotFound, f)
       else if \<not> DE_IsFile (lk_entry lookup) then Some (Inl kNotAFile, f)
       else WriteFileData impl f lookup src offset })"

definition DeleteFile :: "fat_impl \<Rightarrow> fat \<Rightarrow> path \<Rightarrow> ((VfsError, unit) expected \<times> fat) option" where
  "DeleteFile impl f path = do {
     lookup \<leftarrow> LookupPath impl f path;
     if \<not> lk_found lookup then Some (Inl kFileNotFound, f)
     else if \<not> DE_IsFile (lk_entry lookup) then Some (Inl kNotAFile, f)
     else DeleteEntry impl f lookup }"

definition FileExists :: "fat_impl \<Rightarrow> fat \<Rightarrow> path \<Rightarrow> (VfsError, bool) expected option" where
  "FileExists impl f path = do {
     lookup \<leftarrow> LookupPath impl f path;
     Some (Inr (lk_found lookup \<and> DE_IsFile (lk_entry lookup))) }"

definition GetFileSize :: "fat_impl \<Rightarrow> fat \<Rightarrow> path \<Rightarrow> (VfsError, nat) expected option" where
  "GetFileSize impl f path = do {
     lookup \<leftarrow> LookupPath impl f path;
     if \<not> lk_found lookup then Some (Inl kFileNotFound)
     else if \<not> DE_IsFile (lk_entry lookup) then Some (Inl kNotAFile)
     else Some (Inr (unat (de_file_size (lk_entry lookup)))) }"

definition CreateDirectory :: "fat_impl \<Rightarrow> fat \<Rightarrow> path \<Rightarrow> ((VfsError, unit) expected \<times> fat) option" where
  "CreateDirectory impl f path =
    (if Path_IsEmpty path \<or> \<not> Path_HasComponents path then Some (Inl kInvalidPath, f)
     else case FormatFilename (Path_GetFilename path) of
       None \<Rightarrow> Some (Inl kInvalidName, f)
     | Some formatted_name \<Rightarrow> do {
         lookup \<leftarrow> LookupPath impl f path;
         if lk_found lookup then Some (Inl kAlreadyExists, f)
         else do {
           parent_cluster \<leftarrow> GetParentCluster impl f path;
           case parent_cluster of
             Inl e \<Rightarrow> Some (Inl e, f)
           | Inr p \<Rightarrow> CreateDirectoryWithCluster impl f p formatted_name } })"

definition RemoveDirectory :: "fat_impl \<Rightarrow> fat \<Rightarrow> path \<Rightarrow> ((VfsError, unit) expected \<times> fat) option" where
  "RemoveDirectory impl f path = do {
     lookup \<leftarrow> LookupPath impl f path;
     if \<not> lk_found lookup then Some (Inl kDirectoryNotFound, f)
     else if \<not> DE_IsDirectory (lk_entry lookup) then Some (Inl kNotADirectory, f)
     else do {
       is_empty \<leftarrow> IsDirectoryEmpty impl f (lk_entry lookup);
       if \<not> is_empty then Some (Inl kNotEmpty, f)
       else DeleteEntry impl f lookup } }"

text \<open>The names and kinds passed to the callback, in order.\<close>

definition ListDirectory :: "fat_impl \<Rightarrow> fat \<Rightarrow> path \<Rightarrow> (u8 list \<times> bool) list option" where
  "ListDirectory impl f path = do {
     lookup \<leftarrow> GetDirectoryLookup impl f path;
     if \<not> lk_found lookup \<or> \<not> DE_IsDirectory (lk_entry lookup) then Some []
     else ScanDirectoryTable impl f (lk_entry lookup) (\<lambda>called entry.
       if DE_IsValid entry \<and> \<not> DE_IsVolumeLabel entry
       then called @ [(FormatShortName (de_filename entry), DE_IsDirectory entry)] else called) [] }"

definition DirectoryExists :: "fat_impl \<Rightarrow> fat \<Rightarrow> path \<Rightarrow> (VfsError, bool) expected option" where
  "DirectoryExists impl f path =
    (if Path_IsRoot path then Some (Inr True)
     else do {
       lookup \<leftarrow> LookupPath impl f path;
       Some (Inr (lk_found lookup \<and> DE_IsDirectory (lk_entry lookup))) })"

definition Exists :: "fat_impl \<Rightarrow> fat \<Rightarrow> path \<Rightarrow> (VfsError, bool) expected option" where
  "Exists impl f path =
    (if Path_IsRoot path then Some (Inr True)
     else do { lookup \<leftarrow> LookupPath impl f path; Some (Inr (lk_found lookup)) })"

definition Move :: "fat_impl \<Rightarrow> fat \<Rightarrow> path \<Rightarrow> path \<Rightarrow> ((VfsError, unit) expected \<times> fat) option" where
  "Move impl f old_path new_path = do {
     old_lookup \<leftarrow> LookupPath impl f old_path;
     if \<not> lk_found old_lookup then Some (Inl kFileNotFound, f)
     else do {
       new_lookup \<leftarrow> LookupPath impl f new_path;
       if lk_found new_lookup then Some (Inl kAlreadyExists, f)
       else case FormatFilename (Path_GetFilename new_path) of
         None \<Rightarrow> Some (Inl kInvalidName, f)
       | Some new_formatted \<Rightarrow> do {
           new_parent_cluster \<leftarrow> GetParentCluster impl f new_path;
           case new_parent_cluster of
             Inl e \<Rightarrow> Some (Inl e, f)
           | Inr p \<Rightarrow> MoveEntry impl f old_lookup new_formatted p } } }"

end
