(* ===== verification/Fat_Lookup.thy ===== *)
theory Fat_Lookup
  imports Fat_Dirs
begin

text \<open>
  Directories as lists of live entries: what a scan visits, what a lookup finds, and how changing one entry
  changes them.
\<close>

section \<open>The live entries of a directory\<close>

definition slot :: "u8 list \<Rightarrow> nat \<Rightarrow> DirectoryEntry" where
  "slot data i = entry_of (take entry_size (drop (i * entry_size) data))"

text \<open>Offset and entry, up to the end mark and without the free entries; the flag tells whether there is an end mark.\<close>

fun live_from :: "u8 list \<Rightarrow> nat \<Rightarrow> nat \<Rightarrow> (nat \<times> DirectoryEntry) list" where
  "live_from data i 0 = []"
| "live_from data i (Suc n) =
    (if DE_IsFree (slot data i) then live_from data (i + 1) n
     else if DE_IsFurtherEntriesFree (slot data i) then []
     else (i * entry_size, slot data i) # live_from data (i + 1) n)"

fun ends_from :: "u8 list \<Rightarrow> nat \<Rightarrow> nat \<Rightarrow> bool" where
  "ends_from data i 0 = False"
| "ends_from data i (Suc n) =
    (if DE_IsFree (slot data i) then ends_from data (i + 1) n
     else DE_IsFurtherEntriesFree (slot data i) \<or> ends_from data (i + 1) n)"

definition live :: "u8 list \<Rightarrow> (nat \<times> DirectoryEntry) list" where
  "live data = live_from data 0 (length data div entry_size)"

lemma get_DirectoryEntry_slot:
  "(i + 1) * entry_size \<le> length data \<Longrightarrow> get_DirectoryEntry data (i * entry_size) = Some (slot data i)"
  by (simp add: get_DirectoryEntry_def slot_def)

lemma ScanEntries_live:
  "(i + n) * entry_size \<le> length data \<Longrightarrow>
   ScanEntries callback data i n st = Some (ends_from data i n, foldl callback st (map snd (live_from data i n)))"
  by (induction n arbitrary: i st) (simp_all add: get_DirectoryEntry_slot)

text \<open>A scan with offsets stops at the first entry for which the callback returns false.\<close>

fun visit :: "('s \<Rightarrow> DirectoryEntry \<Rightarrow> nat \<Rightarrow> bool \<times> 's) \<Rightarrow> nat \<Rightarrow> (nat \<times> DirectoryEntry) list \<Rightarrow> 's \<Rightarrow> bool \<times> 's" where
  "visit callback base [] st = (False, st)"
| "visit callback base ((off, e) # es) st =
    (case callback st e (base + off) of (continue, st') \<Rightarrow> if continue then visit callback base es st' else (True, st'))"

lemma visit_append:
  "visit callback base (xs @ ys) st =
    (case visit callback base xs st of (stop, st') \<Rightarrow> if stop then (True, st') else visit callback base ys st')"
  by (induction callback base xs st rule: visit.induct) (auto split: prod.splits)

lemma ScanEntriesWithOffset_live:
  "(i + n) * entry_size \<le> length data \<Longrightarrow>
   ScanEntriesWithOffset callback data i n (base + i * entry_size) st =
     Some (case visit callback base (live_from data i n) st of (stop, st') \<Rightarrow> (stop \<or> ends_from data i n, st'))"
proof (induction n arbitrary: i st)
  case (Suc n)
  have get: "get_DirectoryEntry data (i * entry_size) = Some (slot data i)"
    using Suc.prems by (intro get_DirectoryEntry_slot) simp
  have nx: "base + i * entry_size + entry_size = base + (i + 1) * entry_size" by simp
  have ih: "ScanEntriesWithOffset callback data (i + 1) n (base + (i + 1) * entry_size) st =
      Some (case visit callback base (live_from data (i + 1) n) st of (stop, st') \<Rightarrow> (stop \<or> ends_from data (i + 1) n, st'))" for st
    using Suc.prems by (intro Suc.IH) simp
  show ?case
    unfolding ScanEntriesWithOffset.simps live_from.simps ends_from.simps get bind.bind_lunit nx ih
    by (simp split: prod.splits)
qed simp

text \<open>The entries of a directory that is stored in two parts.\<close>

lemma slot_append:
  "length d1 mod entry_size = 0 \<Longrightarrow> slot (d1 @ d2) (length d1 div entry_size + i) = slot d2 i"
  "(i + 1) * entry_size \<le> length d1 \<Longrightarrow> slot (d1 @ d2) i = slot d1 i"
proof -
  assume "length d1 mod entry_size = 0"
  then have "length d1 = length d1 div entry_size * entry_size" by presburger
  then have "drop ((length d1 div entry_size + i) * entry_size) (d1 @ d2) = drop (i * entry_size) d2"
    by (simp add: add_mult_distrib)
  then show "slot (d1 @ d2) (length d1 div entry_size + i) = slot d2 i" by (simp add: slot_def)
qed (simp add: slot_def)

lemma live_from_cong:
  "(\<And>j. i \<le> j \<Longrightarrow> j < i + n \<Longrightarrow> slot d' (j + k) = slot d j) \<Longrightarrow>
   live_from d' (i + k) n = map (\<lambda>(off, e). (off + k * entry_size, e)) (live_from d i n) \<and>
   ends_from d' (i + k) n = ends_from d i n"
proof (induction n arbitrary: i)
  case (Suc n)
  have "slot d' (i + k) = slot d i" using Suc.prems [of i] by simp
  moreover have "live_from d' (i + 1 + k) n = map (\<lambda>(off, e). (off + k * entry_size, e)) (live_from d (i + 1) n) \<and>
    ends_from d' (i + 1 + k) n = ends_from d (i + 1) n"
    using Suc.prems by (intro Suc.IH) auto
  ultimately show ?case by (simp add: add_mult_distrib)
qed simp

lemma live_from_add:
  "live_from d i (m + n) = live_from d i m @ (if ends_from d i m then [] else live_from d (i + m) n)"
  "ends_from d i (m + n) = (ends_from d i m \<or> ends_from d (i + m) n)"
  by (induction m arbitrary: i) auto

lemma live_append:
  assumes "length d1 mod entry_size = 0"
  shows "live (d1 @ d2) = live d1 @ (if ends_from d1 0 (length d1 div entry_size) then []
    else map (\<lambda>(off, e). (off + length d1, e)) (live d2))"
proof -
  let ?m = "length d1 div entry_size" and ?n = "length d2 div entry_size"
  have len: "length (d1 @ d2) div entry_size = ?m + ?n" "?m * entry_size = length d1"
    using assms by (auto simp: div_add1_eq)
  have a: "live_from (d1 @ d2) (0 + 0) ?m = map (\<lambda>(off, e). (off + 0 * entry_size, e)) (live_from d1 0 ?m) \<and>
      ends_from (d1 @ d2) (0 + 0) ?m = ends_from d1 0 ?m"
  proof (rule live_from_cong)
    fix j assume "j < 0 + ?m"
    then have "(j + 1) * entry_size \<le> ?m * entry_size" by (intro mult_le_mono1) simp
    then show "slot (d1 @ d2) (j + 0) = slot d1 j" using len(2) by (simp add: slot_append)
  qed
  have b: "live_from (d1 @ d2) (0 + ?m) ?n = map (\<lambda>(off, e). (off + ?m * entry_size, e)) (live_from d2 0 ?n) \<and>
      ends_from (d1 @ d2) (0 + ?m) ?n = ends_from d2 0 ?n"
    using slot_append(1) [OF assms] by (intro live_from_cong) (simp add: add.commute)
  show ?thesis
    unfolding live_def len(1) live_from_add using a b len(2) by simp
qed

section \<open>Where a directory lies\<close>

datatype dirloc = FixedRoot | Chain "nat list"

definition root_base :: "fat \<Rightarrow> nat" where
  "root_base f = root_dir_region_start f * bytes_per_sector f"

definition root_size :: "fat \<Rightarrow> nat" where
  "root_size f = root_dir_region_count f * bytes_per_sector f"

definition dir_data :: "fat \<Rightarrow> dirloc \<Rightarrow> u8 list" where
  "dir_data f d = (case d of FixedRoot \<Rightarrow> bytes_at (fat_mem f) (root_base f) (root_size f) | Chain ds \<Rightarrow> content f ds)"

text \<open>\<open>d\<close> is the directory the code reaches through the cluster number \<open>p\<close>.\<close>

definition dir_at :: "fat_impl \<Rightarrow> fat \<Rightarrow> nat \<Rightarrow> dirloc \<Rightarrow> bool" where
  "dir_at impl f p d \<longleftrightarrow> (case d of
     FixedRoot \<Rightarrow> impl_kHasFixedRootDir impl \<and> p = 0 \<and> root_size f \<le> kMaxClusterSize \<and> root_size f mod entry_size = 0
   | Chain ds \<Rightarrow> chain impl f p ds)"

definition dir_clusters :: "dirloc \<Rightarrow> nat set" where
  "dir_clusters d = (case d of FixedRoot \<Rightarrow> {} | Chain ds \<Rightarrow> set ds)"

lemma visit_shift:
  "visit callback base (map (\<lambda>(off, e). (off + k, e)) xs) st = visit callback (base + k) xs st"
  by (induction callback "base + k" xs st rule: visit.induct) (simp_all add: ac_simps split: prod.splits)

lemma map_snd_shift: "map snd (map (\<lambda>(off, e). (off + k, e)) xs) = map snd xs"
  by (induction xs) auto

lemma read_root:
  assumes "fat_ok f" and "root_size f \<le> kMaxClusterSize"
  shows "InMemory_ReadRange (fat_io f) (root_dir_region_start f) (root_dir_region_count f) = Some (dir_data f FixedRoot)"
proof -
  have "im_sector_size (fat_io f) = bytes_per_sector f" using assms(1) by (simp add: fat_ok_def)
  then show ?thesis
    using assms(2) by (subst read_range)
      (auto simp: dir_data_def root_base_def root_size_def kMaxTempBufSize_def kMaxClusterSize_def)
qed

context fat_table
begin

lemma Scan_chain_live:
  assumes "table_ok f" and "links impl f cs" and "i < length cs"
  shows "ScanClusterChainDirectory impl f (cs ! i) callback st =
    Some (foldl callback st (map snd (live (drop (i * GetClusterSize f) (content f cs)))))"
  using assms(3)
proof (induction "length cs - i" arbitrary: i st)
  case (Suc k)
  have fok: "fat_ok f" using geometry [OF assms(1)] by blast
  let ?S = "GetClusterSize f" and ?d = "cluster_data f (cs ! i)"
  have S: "?S mod entry_size = 0" using fok by (simp add: fat_ok_def)
  note nx = next_entry [OF assms(1,2) Suc.prems]
  have scan: "ScanEntries callback ?d 0 (length ?d div entry_size) st =
      Some (ends_from ?d 0 (?S div entry_size), foldl callback st (map snd (live ?d)))"
    unfolding live_def using ScanEntries_live [of 0 "length ?d div entry_size" ?d] by simp
  have drp: "drop (i * ?S) (content f cs) = ?d @ drop (Suc i * ?S) (content f cs)"
    using content_drop [OF Suc.prems, of 0 f] by simp
  have step: "ScanClusterChainDirectory impl f (cs ! i) callback st =
      (if ends_from ?d 0 (?S div entry_size) then Some (foldl callback st (map snd (live ?d)))
       else do { next_c \<leftarrow> impl_GetFATEntry impl f (cs ! i);
         ScanClusterChainDirectory impl f next_c callback (foldl callback st (map snd (live ?d))) })"
    using nx(3) scan ReadCluster_data [OF fok] by (subst ScanClusterChainDirectory.simps) simp
  show ?case
  proof (cases "Suc i < length cs")
    case True
    have "k = length cs - Suc i" using Suc.hyps(2) by simp
    from Suc.hyps(1) [OF this True] show ?thesis
      unfolding step drp live_append [of ?d, simplified length_cluster_data, OF S] using nx(1) [OF True]
      by (simp add: map_snd_shift del: map_map)
  next
    case False
    then have l: "Suc i = length cs" using Suc.prems by simp
    have "ScanClusterChainDirectory impl f (table_entry impl f (last cs)) callback st' = Some st'" for st'
      using linksD(4) [OF assms(2)] by (subst ScanClusterChainDirectory.simps) simp
    moreover have "drop (Suc i * ?S) (content f cs) = []" using l by simp
    ultimately show ?thesis unfolding step drp using nx(2) [OF l] by (simp add: live_def)
  qed
qed simp

lemma ScanWithOffset_chain_live:
  assumes "table_ok f" and "links impl f cs" and "i < length cs"
  shows "ScanClusterChainDirectoryWithOffset impl f (cs ! i) (i * GetClusterSize f) callback st =
    Some (snd (visit callback (i * GetClusterSize f) (live (drop (i * GetClusterSize f) (content f cs))) st))"
  using assms(3)
proof (induction "length cs - i" arbitrary: i st)
  case (Suc k)
  have fok: "fat_ok f" using geometry [OF assms(1)] by blast
  let ?S = "GetClusterSize f" and ?d = "cluster_data f (cs ! i)"
  have S: "?S mod entry_size = 0" "?S div entry_size * entry_size = ?S" using fok by (auto simp: fat_ok_def)
  note nx = next_entry [OF assms(1,2) Suc.prems]
  obtain stop st' where v: "visit callback (i * ?S) (live ?d) st = (stop, st')" by fastforce
  have scan: "ScanEntriesWithOffset callback ?d 0 (length ?d div entry_size) (i * ?S) st =
      Some (stop \<or> ends_from ?d 0 (?S div entry_size), st')"
    using ScanEntriesWithOffset_live [of 0 "length ?d div entry_size" ?d callback "i * ?S" st] v by (simp add: live_def)
  have drp: "drop (i * ?S) (content f cs) = ?d @ drop (Suc i * ?S) (content f cs)"
    using content_drop [OF Suc.prems, of 0 f] by simp
  have off: "i * ?S + ?S div entry_size * entry_size = Suc i * ?S" using S(2) by simp
  have step: "ScanClusterChainDirectoryWithOffset impl f (cs ! i) (i * ?S) callback st =
      (if stop \<or> ends_from ?d 0 (?S div entry_size) then Some st'
       else do { next_c \<leftarrow> impl_GetFATEntry impl f (cs ! i);
         ScanClusterChainDirectoryWithOffset impl f next_c (Suc i * ?S) callback st' })"
    using nx(3) scan ReadCluster_data [OF fok] off
    by (subst ScanClusterChainDirectoryWithOffset.simps) (simp add: Let_def add.commute)
  have live: "live (drop (i * ?S) (content f cs)) = live ?d @ (if ends_from ?d 0 (?S div entry_size) then []
      else map (\<lambda>(off, e). (off + ?S, e)) (live (drop (Suc i * ?S) (content f cs))))"
    unfolding drp live_append [of ?d, simplified length_cluster_data, OF S(1)] by simp
  have base: "i * ?S + ?S = Suc i * ?S" by simp
  show ?case
  proof (cases "Suc i < length cs")
    case True
    have "k = length cs - Suc i" using Suc.hyps(2) by simp
    from Suc.hyps(1) [OF this True] show ?thesis
      unfolding step live visit_append v using nx(1) [OF True] visit_shift [of callback "i * ?S" ?S] base by simp
  next
    case False
    then have l: "Suc i = length cs" using Suc.prems by simp
    have "ScanClusterChainDirectoryWithOffset impl f (table_entry impl f (last cs)) o' callback st' = Some st'" for o' st'
      using linksD(4) [OF assms(2)] by (subst ScanClusterChainDirectoryWithOffset.simps) simp
    moreover have "drop (Suc i * ?S) (content f cs) = []" using l by simp
    ultimately show ?thesis unfolding step live visit_append v using nx(2) [OF l] by (simp add: live_def)
  qed
qed simp

end

section \<open>Finding an entry\<close>

definition has_name :: "u8 list \<Rightarrow> DirectoryEntry \<Rightarrow> bool" where
  "has_name n e \<longleftrightarrow> \<not> DE_IsLongNameSubComponent e \<and> \<not> DE_IsFree e \<and> take kMaxNameLength (de_filename e) = n"

definition no_match :: EntryMatch where
  "no_match = \<lparr>em_entry = null_entry, em_entry_offset = 0, em_found = False\<rparr>"

definition find_name :: "u8 list \<Rightarrow> (nat \<times> DirectoryEntry) list \<Rightarrow> EntryMatch" where
  "find_name n es = (case find (\<lambda>(_, e). has_name n e) es of
     Some (off, e) \<Rightarrow> \<lparr>em_entry = e, em_entry_offset = off, em_found = True\<rparr>
   | None \<Rightarrow> no_match)"

lemma visit_find_name:
  "snd (visit (FindEntry_callback n) 0 es no_match) = find_name n es"
proof (induction es)
  case (Cons x es)
  then show ?case by (cases x) (auto simp: find_name_def FindEntry_callback_def has_name_def)
qed (simp add: find_name_def)

lemma chain_first: "chain impl f p ds \<Longrightarrow> ds \<noteq> [] \<and> ds ! 0 = p \<and> 2 \<le> p"
proof -
  assume c: "chain impl f p ds"
  then have "ds \<noteq> []" using linksD(1) by (auto simp: chain_def)
  then have "ds ! 0 = p" "p \<in> set ds" using c by (auto simp: chain_def hd_conv_nth)
  then show ?thesis using c \<open>ds \<noteq> []\<close> linksD(2) [of impl f ds p] by (auto simp: chain_def)
qed

text \<open>A write into the bytes of a directory.\<close>

definition dir_put :: "fat \<Rightarrow> dirloc \<Rightarrow> nat \<Rightarrow> u8 list \<Rightarrow> fat" where
  "dir_put f d off bs = (case d of
     FixedRoot \<Rightarrow> with_mem f (put_bytes (fat_mem f) (root_base f + off) bs)
   | Chain ds \<Rightarrow>
       let c = ds ! (off div GetClusterSize f)
       in put_cluster f c (overwrite (cluster_data f c) (off mod GetClusterSize f) bs))"

lemma entry_fits:
  fixes off S :: nat
  assumes "off mod 32 = 0" and "S mod 32 = 0" and "0 < S"
  shows "off mod S + 32 \<le> S"
proof -
  obtain s where s: "S = 32 * s" using assms(2) by fastforce
  obtain k where k: "off = 32 * k" using assms(1) by fastforce
  have "off mod S = 32 * (k mod s)" unfolding s k by (rule mult_mod_right [symmetric])
  moreover have "k mod s < s" using assms(3) s by simp
  ultimately show ?thesis using s by simp
qed

lemma cluster_index:
  fixes off S :: nat
  assumes "off + 32 \<le> n * S" and "0 < S"
  shows "off div S < n"
  using assms by (simp add: div_less_iff_less_mult)

context fat_table
begin

lemma FindEntryInDirectory_live:
  assumes "table_ok f" and "dir_at impl f (FirstCluster impl e) d"
  shows "FindEntryInDirectory impl f e component = Some (case FormatFilename component of
      None \<Rightarrow> no_match | Some n \<Rightarrow> find_name n (live (dir_data f d)))"
proof (cases d)
  case FixedRoot
  let ?r = "dir_data f FixedRoot"
  have fok: "fat_ok f" using geometry [OF assms(1)] by blast
  have r: "impl_kHasFixedRootDir impl" "FirstCluster impl e = 0" "root_size f \<le> kMaxClusterSize"
    using assms(2) FixedRoot by (auto simp: dir_at_def)
  have "ScanEntriesWithOffset cb ?r 0 (length ?r div entry_size) 0 st =
      Some (case visit cb 0 (live ?r) st of (stop, st') \<Rightarrow> (stop \<or> ends_from ?r 0 (length ?r div entry_size), st'))"
    for cb :: "EntryMatch \<Rightarrow> DirectoryEntry \<Rightarrow> nat \<Rightarrow> bool \<times> EntryMatch" and st
    using ScanEntriesWithOffset_live [of 0 "length ?r div entry_size" ?r cb 0 st] by (simp add: live_def)
  then show ?thesis
    using r read_root [OF fok r(3)] visit_find_name FixedRoot
    by (simp add: FindEntryInDirectory_def ScanDirectoryTableWithOffset_def ScanFixedRootDirectoryWithOffset_def
        Let_def no_match_def [symmetric] case_prod_beta split: option.splits)
next
  case (Chain ds)
  then have c: "chain impl f (FirstCluster impl e) ds" using assms(2) by (simp add: dir_at_def)
  note h = chain_first [OF c]
  have l: "links impl f ds" "0 < length ds" using c h by (auto simp: chain_def)
  have "ScanClusterChainDirectoryWithOffset impl f (FirstCluster impl e) 0 cb st =
      Some (snd (visit cb 0 (live (content f ds)) st))"
    for cb :: "EntryMatch \<Rightarrow> DirectoryEntry \<Rightarrow> nat \<Rightarrow> bool \<times> EntryMatch" and st
    using ScanWithOffset_chain_live [OF assms(1) l, of cb st] h by simp
  then show ?thesis
    using h visit_find_name Chain
    by (simp add: FindEntryInDirectory_def ScanDirectoryTableWithOffset_def Let_def no_match_def [symmetric]
        dir_data_def split: option.splits)
qed

lemma ScanDirectoryTable_live:
  assumes "table_ok f" and "dir_at impl f (FirstCluster impl e) d"
  shows "ScanDirectoryTable impl f e callback st = Some (foldl callback st (map snd (live (dir_data f d))))"
proof (cases d)
  case FixedRoot
  let ?r = "dir_data f FixedRoot"
  have fok: "fat_ok f" using geometry [OF assms(1)] by blast
  have r: "impl_kHasFixedRootDir impl" "FirstCluster impl e = 0" "root_size f \<le> kMaxClusterSize"
    using assms(2) FixedRoot by (auto simp: dir_at_def)
  have "ScanEntries callback ?r 0 (length ?r div entry_size) st =
      Some (ends_from ?r 0 (length ?r div entry_size), foldl callback st (map snd (live ?r)))"
    unfolding live_def by (rule ScanEntries_live) simp
  then show ?thesis
    using r read_root [OF fok r(3)] FixedRoot
    by (simp add: ScanDirectoryTable_def ScanFixedRootDirectory_def)
next
  case (Chain ds)
  then have c: "chain impl f (FirstCluster impl e) ds" using assms(2) by (simp add: dir_at_def)
  note h = chain_first [OF c]
  have l: "links impl f ds" "0 < length ds" using c h by (auto simp: chain_def)
  show ?thesis
    using Scan_chain_live [OF assms(1) l, of callback st] h Chain by (simp add: ScanDirectoryTable_def dir_data_def)
qed

lemma FindClusterAt_chain:
  assumes "table_ok f" and "links impl f ds" and "i + off div GetClusterSize f < length ds"
  shows "FindClusterAt impl f (ds ! i) off = Some (ds ! (i + off div GetClusterSize f), off mod GetClusterSize f)"
  using assms(3)
proof (induction "off div GetClusterSize f" arbitrary: i off)
  case 0
  have "0 < GetClusterSize f" using geometry [OF assms(1)] cluster_size_pos by blast
  then have "off < GetClusterSize f" using 0 by (metis div_eq_0_iff not_less_iff_gr_or_eq)
  then show ?case using 0 by (subst FindClusterAt.simps) simp
next
  case (Suc k)
  let ?S = "GetClusterSize f"
  have S: "0 < ?S" using geometry [OF assms(1)] cluster_size_pos by blast
  have off: "?S \<le> off" using Suc.hyps(2) S by (metis div_less not_less nat.distinct(1))
  have d: "off div ?S = Suc ((off - ?S) div ?S)" "off mod ?S = (off - ?S) mod ?S"
    using off S by (simp_all add: le_div_geq le_mod_geq)
  have i: "i < length ds" "Suc i < length ds" using Suc.prems d(1) by simp_all
  note nx = next_entry [OF assms(1,2) i(1)]
  have "FindClusterAt impl f (ds ! i) off = FindClusterAt impl f (ds ! Suc i) (off - ?S)"
    using off nx(1) [OF i(2)] nx(3) by (subst FindClusterAt.simps) simp
  also have "\<dots> = Some (ds ! (Suc i + (off - ?S) div ?S), (off - ?S) mod ?S)"
    using Suc.hyps d(1) Suc.prems by (intro Suc.hyps(1)) simp_all
  finally show ?case using d by simp
qed

lemma UpdateDirectoryEntry_put:
  assumes "table_ok f" and "dir_at impl f p d" and "off mod entry_size = 0"
    and "off + entry_size \<le> length (dir_data f d)" and "length (de_filename e) = 11"
  shows "UpdateDirectoryEntry impl f p off e = Some (dir_put f d off (entry_bytes e))"
proof -
  have fok: "fat_ok f" using geometry [OF assms(1)] by blast
  have b: "im_sector_size (fat_io f) = bytes_per_sector f" using fok by (simp add: fat_ok_def)
  show ?thesis
  proof (cases d)
    case FixedRoot
    then have r: "impl_kHasFixedRootDir impl" "p = 0" "root_size f \<le> kMaxClusterSize" and o: "off + 32 \<le> root_size f"
      using assms(2,4) by (auto simp: dir_at_def dir_data_def)
    have "InMemory_WriteRange (fat_io f) (root_dir_region_start f) (root_dir_region_count f)
        (overwrite (dir_data f FixedRoot) off (entry_bytes e)) =
        Some ((fat_io f)\<lparr>im_address := put_bytes (fat_mem f) (root_base f + off) (entry_bytes e)\<rparr>)"
      using write_back [OF b, of off "entry_bytes e" "root_dir_region_count f" "root_dir_region_start f"] o assms(5)
      by (simp add: dir_data_def root_base_def root_size_def)
    moreover have "temp_copy (dir_data f FixedRoot) (root_size f) = Some (dir_data f FixedRoot)"
      using r(3) by (simp add: temp_copy_def dir_data_def)
    ultimately show ?thesis
      using r o read_root [OF fok r(3)] FixedRoot
      by (simp add: UpdateDirectoryEntry_def UpdateEntryInFixedRootDir_def Let_def root_size_def [symmetric]
          dir_put_def with_mem_def)
  next
    case (Chain ds)
    let ?S = "GetClusterSize f"
    have c: "chain impl f p ds" and o: "off + 32 \<le> length ds * ?S"
      using assms(2,4) Chain by (auto simp: dir_at_def dir_data_def)
    note h = chain_first [OF c]
    have l: "links impl f ds" using c by (simp add: chain_def)
    have S: "0 < ?S" "?S mod 32 = 0" using cluster_size_pos [OF fok] fok by (auto simp: fat_ok_def)
    have i: "0 + off div ?S < length ds" using cluster_index [OF o S(1)] by simp
    have fits: "off mod ?S + 32 \<le> ?S" using entry_fits [OF assms(3) S(2,1)] .
    have "WriteCluster f (ds ! (off div ?S)) (overwrite (cluster_data f (ds ! (off div ?S))) (off mod ?S) (entry_bytes e)) =
        Some (dir_put f d off (entry_bytes e))"
      using fits assms(5) Chain by (subst WriteCluster_data [OF fok]) (simp_all add: dir_put_def Let_def)
    moreover have "ds ! (off div ?S) < impl_kEOC impl" using next_entry(3) [OF assms(1) l] i by simp
    ultimately show ?thesis
      using FindClusterAt_chain [OF assms(1) l i] h ReadCluster_data [OF fok] temp_copy_data [OF fok]
      by (simp add: UpdateDirectoryEntry_def UpdateEntryInClusterDir_def)
  qed
qed

end

section \<open>Frames\<close>

text \<open>The bytes of a directory, and that a change stays among them.\<close>

definition in_dir :: "fat \<Rightarrow> dirloc \<Rightarrow> nat \<Rightarrow> bool" where
  "in_dir f d a \<longleftrightarrow> (case d of
     FixedRoot \<Rightarrow> root_base f \<le> a \<and> a < root_base f + root_size f
   | Chain ds \<Rightarrow> \<exists>c\<in>set ds. in_cluster f c a)"

lemma root_between:
  assumes "fat_ok f"
  shows "table_end f \<le> root_base f" and "is_cluster f c \<Longrightarrow> root_base f + root_size f \<le> cluster_addr f c"
proof -
  have o: "fat_region_start f + fat_region_count f \<le> root_dir_region_start f"
    "root_dir_region_start f + root_dir_region_count f \<le> data_region_start f"
    using assms by (auto simp: fat_ok_def)
  show "table_end f \<le> root_base f"
    unfolding table_end_def root_base_def using o(1) by (rule mult_le_mono1)
  show "root_base f + root_size f \<le> cluster_addr f c" if "is_cluster f c"
    unfolding cluster_addr_eq [OF assms that] root_base_def root_size_def
    using mult_le_mono1 [OF o(2), of "bytes_per_sector f"] by (simp add: add_mult_distrib)
qed

lemma dir_put_FixedRoot:
  assumes "off + length bs \<le> root_size f"
  shows "dir_data (dir_put f FixedRoot off bs) FixedRoot = overwrite (dir_data f FixedRoot) off bs"
proof -
  have f: "root_base (with_mem f m) = root_base f" "root_size (with_mem f m) = root_size f" for m
    by (simp_all add: root_base_def root_size_def)
  have "bytes_at (put_bytes (fat_mem f) (root_base f + off) bs) (root_base f) (root_size f) =
      overwrite (bytes_at (fat_mem f) (root_base f) (root_size f)) off bs"
    using assms by (intro nth_equalityI) (auto simp: put_bytes_at nth_overwrite)
  then show ?thesis by (simp add: dir_data_def dir_put_def f)
qed

lemma dir_put_Chain:
  assumes "fat_ok f" and "distinct ds" and "\<forall>c\<in>set ds. is_cluster f c" and "off mod entry_size = 0"
    and "off + entry_size \<le> length ds * GetClusterSize f" and "length bs \<le> entry_size"
  shows "dir_data (dir_put f (Chain ds) off bs) (Chain ds) = overwrite (dir_data f (Chain ds)) off bs"
proof -
  let ?S = "GetClusterSize f"
  have S: "0 < ?S" "?S mod 32 = 0" using cluster_size_pos [OF assms(1)] assms(1) by (auto simp: fat_ok_def)
  have "off div ?S < length ds" using cluster_index [OF assms(5) S(1)] .
  moreover have "off mod ?S + length bs \<le> ?S" using entry_fits [OF assms(4) S(2,1)] assms(6) by simp
  ultimately show ?thesis
    using content_put_cluster [OF assms(1-3), of "off div ?S" "off mod ?S" bs]
    by (simp add: dir_data_def dir_put_def Let_def)
qed

lemma dir_put_mem:
  obtains m where "dir_put f d off bs = with_mem f m"
  by (cases d) (auto simp: dir_put_def put_cluster_def Let_def)

lemma dir_put_outside:
  assumes "fat_ok f" and "off mod entry_size = 0" and "off + entry_size \<le> length (dir_data f d)" and "length bs \<le> entry_size"
    and "\<not> in_dir f d a"
  shows "fat_mem (dir_put f d off bs) a = fat_mem f a"
proof (cases d)
  case FixedRoot
  then show ?thesis using assms(3-5) by (auto simp: dir_put_def dir_data_def in_dir_def put_bytes_at)
next
  case (Chain ds)
  let ?S = "GetClusterSize f"
  have S: "0 < ?S" "?S mod 32 = 0" using cluster_size_pos [OF assms(1)] assms(1) by (auto simp: fat_ok_def)
  have i: "off div ?S < length ds" using cluster_index [OF _ S(1)] assms(3) Chain by (simp add: dir_data_def)
  have fit: "off mod ?S + length bs \<le> ?S" using entry_fits [OF assms(2) S(2,1)] assms(4) by simp
  have "\<not> in_cluster f (ds ! (off div ?S)) a" using assms(5) Chain i by (simp add: in_dir_def)
  then show ?thesis using Chain fit by (auto simp: dir_put_def put_cluster_def Let_def put_bytes_at in_cluster_def)
qed

lemma dir_fields [simp]:
  "root_base (with_mem f m) = root_base f" "root_size (with_mem f m) = root_size f"
  "in_cluster (with_mem f m) = in_cluster f" "in_dir (with_mem f m) = in_dir f"
  by (simp_all add: root_base_def root_size_def in_cluster_def in_dir_def fun_eq_iff split: dirloc.splits)

text \<open>What stays the same when only the bytes of a directory change.\<close>

context fat_table
begin

lemma dir_change_entries:
  assumes "table_ok f" and "\<And>a. \<not> in_dir f d a \<Longrightarrow> m a = fat_mem f a" and "\<forall>c\<in>dir_clusters d. is_cluster f c"
    and "c < fat_cluster_count f + 2"
  shows "table_entry impl (with_mem f m) c = table_entry impl f c"
proof -
  have fok: "fat_ok f" using geometry [OF assms(1)] by blast
  have "\<not> in_dir f d a" if "a < table_end f" for a
    using that root_between(1) [OF fok] cluster_after_table [OF fok] assms(3)
    by (fastforce simp: in_dir_def in_cluster_def dir_clusters_def split: dirloc.splits)
  then have "\<forall>a. table_base f \<le> a \<and> a < table_end f \<longrightarrow> m a = fat_mem f a" using assms(2) by blast
  from get_entry_mem [OF assms(1,4) this] show ?thesis by (simp add: table_entry_def)
qed

lemma dir_change_links:
  assumes "table_ok f" and "\<And>a. \<not> in_dir f d a \<Longrightarrow> m a = fat_mem f a" and "\<forall>c\<in>dir_clusters d. is_cluster f c"
  shows "links impl (with_mem f m) cs = links impl f cs" "chain impl (with_mem f m) c cs = chain impl f c cs"
    "free_clusters impl (with_mem f m) = free_clusters impl f"
proof -
  note e = dir_change_entries [OF assms]
  show l: "links impl (with_mem f m) cs = links impl f cs"
    unfolding links_iff using e last_in_set [of cs] nth_mem [of _ cs] Suc_lessD by (auto 0 3)
  then show "chain impl (with_mem f m) c cs = chain impl f c cs" by (simp add: chain_def)
  show "free_clusters impl (with_mem f m) = free_clusters impl f"
    using e by (auto simp: free_clusters_def)
qed

lemma dir_change_data:
  assumes "fat_ok f" and "\<And>a. \<not> in_dir f d a \<Longrightarrow> m a = fat_mem f a" and "\<forall>c\<in>dir_clusters d. is_cluster f c"
    and "is_cluster f c" and "c \<notin> dir_clusters d"
  shows "cluster_data (with_mem f m) c = cluster_data f c"
proof -
  have "\<not> in_dir f d a" if a: "in_cluster f c a" for a
  proof (cases d)
    case FixedRoot
    then show ?thesis using a root_between(2) [OF assms(1,4)] by (auto simp: in_dir_def in_cluster_def)
  next
    case (Chain ds)
    have "\<not> in_cluster f c' a" if "c' \<in> set ds" for c'
      using clusters_apart [OF assms(1,4), of c'] assms(3,5) Chain that a
      by (fastforce simp: dir_clusters_def in_cluster_def)
    then show ?thesis using Chain by (simp add: in_dir_def)
  qed
  then show ?thesis
    using assms(2) by (intro nth_equalityI) (simp_all add: cluster_data_def in_cluster_def)
qed

lemma dir_change_content:
  assumes "fat_ok f" and "\<And>a. \<not> in_dir f d a \<Longrightarrow> m a = fat_mem f a" and "\<forall>c\<in>dir_clusters d. is_cluster f c"
    and "\<forall>c\<in>set cs. is_cluster f c" and "set cs \<inter> dir_clusters d = {}"
  shows "content (with_mem f m) cs = content f cs"
proof -
  have "cluster_data (with_mem f m) c = cluster_data f c" if "c \<in> set cs" for c
    using dir_change_data [OF assms(1-3)] assms(4,5) that by blast
  then show ?thesis by (simp add: content_def cong: map_cong)
qed

lemma dir_at_clusters:
  assumes "dir_at impl f p d"
  shows "\<forall>c\<in>dir_clusters d. is_cluster f c" and "d = Chain ds \<Longrightarrow> distinct ds"
  using assms linksD(2) by (auto simp: dir_at_def dir_clusters_def chain_def split: dirloc.splits)

end

section \<open>Changing one entry\<close>

lemma slot_overwrite:
  assumes "(i + 1) * entry_size \<le> length data" and "(j + 1) * entry_size \<le> length data" and "length bs = entry_size"
  shows "slot (overwrite data (i * entry_size) bs) j = (if j = i then entry_of bs else slot data j)"
proof -
  let ?d = "overwrite data (i * entry_size) bs"
  have len: "length ?d = length data" using assms(1,3) by simp
  have "take entry_size (drop (j * entry_size) ?d) =
      (if j = i then bs else take entry_size (drop (j * entry_size) data))"
  proof (rule nth_equalityI)
    fix k assume "k < length (take entry_size (drop (j * entry_size) ?d))"
    then have k: "k < entry_size" using assms(2) len by simp
    have "j * entry_size + k < length data" using k assms(2) by simp
    moreover have "i * entry_size \<le> j * entry_size + k \<and> j * entry_size + k < i * entry_size + entry_size \<longleftrightarrow> j = i"
      using k by presburger
    ultimately show "take entry_size (drop (j * entry_size) ?d) ! k =
        (if j = i then bs else take entry_size (drop (j * entry_size) data)) ! k"
      using k assms len by (simp add: nth_overwrite)
  qed (use assms len in simp)
  then show ?thesis by (simp add: slot_def)
qed

lemma live_from_mem:
  "(off, e) \<in> set (live_from data i n) \<Longrightarrow>
   \<exists>j. i \<le> j \<and> j < i + n \<and> off = j * entry_size \<and> e = slot data j \<and> \<not> DE_IsFree e \<and> \<not> DE_IsFurtherEntriesFree e"
proof (induction n arbitrary: i)
  case (Suc n)
  show ?case
  proof (cases "(off, e) = (i * entry_size, slot data i) \<and> \<not> DE_IsFree e \<and> \<not> DE_IsFurtherEntriesFree e")
    case True
    then show ?thesis by (intro exI [of _ i]) auto
  next
    case False
    then have "(off, e) \<in> set (live_from data (i + 1) n)" using Suc.prems by (auto split: if_splits)
    from Suc.IH [OF this] show ?thesis using Suc_leD by fastforce
  qed
qed simp

lemma liveD:
  assumes "(off, e) \<in> set (live data)"
  obtains i where "off = i * entry_size" and "e = slot data i" and "(i + 1) * entry_size \<le> length data"
    and "\<not> DE_IsFree e" and "\<not> DE_IsFurtherEntriesFree e" and "length (de_filename e) = 11"
proof -
  from live_from_mem [OF assms [unfolded live_def]] obtain i where i: "i < length data div entry_size" "off = i * entry_size"
    "e = slot data i" "\<not> DE_IsFree e" "\<not> DE_IsFurtherEntriesFree e" by auto
  have le: "(i + 1) * entry_size \<le> length data" using i(1) by (simp add: less_eq_div_iff_mult_less_eq Suc_le_eq [symmetric])
  then have "length (de_filename e) = 11" unfolding i(3) slot_def by (intro length_entry_of) simp
  then show ?thesis using that i le by blast
qed

definition replace_entry :: "nat \<Rightarrow> DirectoryEntry \<Rightarrow> nat \<times> DirectoryEntry \<Rightarrow> nat \<times> DirectoryEntry" where
  "replace_entry off e' = (\<lambda>(o', e). (o', if o' = off then e' else e))"

lemma live_from_replace:
  assumes "\<not> DE_IsFree e'" "\<not> DE_IsFurtherEntriesFree e'" "\<not> DE_IsFree (slot data i)" "\<not> DE_IsFurtherEntriesFree (slot data i)"
    and "\<And>j. j < k + n \<Longrightarrow> slot data' j = (if j = i then e' else slot data j)"
  shows "live_from data' k n = map (replace_entry (i * entry_size) e') (live_from data k n)"
  using assms(5)
proof (induction n arbitrary: k)
  case (Suc n)
  have "live_from data' (k + 1) n = map (replace_entry (i * entry_size) e') (live_from data (k + 1) n)"
    using Suc.prems by (intro Suc.IH) simp
  then show ?case using Suc.prems [of k] assms(1-4) by (auto simp: replace_entry_def)
qed simp

lemma live_update:
  assumes "(off, e) \<in> set (live data)" and "de_filename e' = de_filename e"
  shows "live (overwrite data off (entry_bytes e')) = map (replace_entry off e') (live data)"
proof -
  from liveD [OF assms(1)] obtain i where i: "off = i * entry_size" "e = slot data i" "(i + 1) * entry_size \<le> length data"
    "\<not> DE_IsFree e" "\<not> DE_IsFurtherEntriesFree e" "length (de_filename e) = 11" .
  have e': "\<not> DE_IsFree e'" "\<not> DE_IsFurtherEntriesFree e'" "length (entry_bytes e') = entry_size"
    using i(4-6) assms(2) by (auto simp: DE_IsFree_def DE_IsFurtherEntriesFree_def first_byte_def)
  have len: "length (overwrite data off (entry_bytes e')) = length data" using i(1,3) e'(3) by simp
  have "slot (overwrite data off (entry_bytes e')) j = (if j = i then e' else slot data j)"
    if "j < 0 + length data div entry_size" for j
  proof -
    have "(j + 1) * entry_size \<le> length data" using that by (simp add: less_eq_div_iff_mult_less_eq Suc_le_eq [symmetric])
    then show ?thesis
      unfolding i(1) using slot_overwrite [OF i(3) _ e'(3)] entry_of_bytes assms(2) i(6) by simp
  qed
  from live_from_replace [OF e'(1,2) _ _ this] show ?thesis
    unfolding live_def len using i by simp
qed

lemma has_name_same:
  "de_filename e' = de_filename e \<Longrightarrow> de_attributes e' = de_attributes e \<Longrightarrow> has_name n e' = has_name n e"
  by (simp add: has_name_def DE_IsLongNameSubComponent_def DE_IsFree_def first_byte_def)

text \<open>The offsets of the live entries are distinct, so that a lookup by offset is a function.\<close>

lemma live_offsets: "(off, e) \<in> set (live data) \<Longrightarrow> (off, e') \<in> set (live data) \<Longrightarrow> e' = e"
  by (elim liveD) simp

lemma find_map_same: "(\<And>x. x \<in> set xs \<Longrightarrow> P (g x) = P x) \<Longrightarrow> find P (map g xs) = map_option g (find P xs)"
  by (induction xs) auto

lemma find_name_replace:
  assumes "(off, e) \<in> set es" and "\<And>e2. (off, e2) \<in> set es \<Longrightarrow> e2 = e"
    and "de_filename e' = de_filename e" and "de_attributes e' = de_attributes e"
  shows "find_name n (map (replace_entry off e') es) =
    (let m = find_name n es in if em_found m \<and> em_entry_offset m = off then m\<lparr>em_entry := e'\<rparr> else m)"
proof -
  have "(\<lambda>(_, e). has_name n e) (replace_entry off e' x) = (\<lambda>(_, e). has_name n e) x" if "x \<in> set es" for x
  proof (cases "fst x = off")
    case True
    then have "snd x = e" using that assms(2) [of "snd x"] by (metis prod.collapse)
    then show ?thesis using True has_name_same [OF assms(3,4)] by (simp add: replace_entry_def case_prod_beta)
  next
    case False
    then show ?thesis by (simp add: replace_entry_def case_prod_beta)
  qed
  then have eq: "find (\<lambda>(_, e). has_name n e) (map (replace_entry off e') es) =
      map_option (replace_entry off e') (find (\<lambda>(_, e). has_name n e) es)"
    by (rule find_map_same)
  show ?thesis
  proof (cases "find (\<lambda>(_, e). has_name n e) es")
    case None
    then show ?thesis by (simp add: find_name_def eq no_match_def)
  next
    case (Some x)
    then have "find_name n (map (replace_entry off e') es) =
        (case replace_entry off e' x of (off, e) \<Rightarrow> \<lparr>em_entry = e, em_entry_offset = off, em_found = True\<rparr>)"
      by (simp add: find_name_def eq)
    with Some show ?thesis by (cases x) (simp add: find_name_def replace_entry_def)
  qed
qed

end
