(* ===== verification/Fat_Ops.thy ===== *)
theory Fat_Ops
  imports Fat_Lookup
begin

text \<open>
  Correctness of the file operations of \<open>kernel/src/fs/vfs/fat/fat.hpp\<close>: a file is an entry of a directory with the chain that holds
  its data, and writing, reading, creating and deleting are described by what the directory and the file
  hold afterwards.
\<close>

section \<open>Files\<close>

text \<open>
  The entry \<open>e\<close> at offset \<open>off\<close> of the directory \<open>d\<close> (reached through cluster \<open>p\<close>) is a file with the clusters \<open>cs\<close>, which
  hold all of its bytes and are not clusters of the directory.
\<close>

definition file_at ::
  "fat_impl \<Rightarrow> fat \<Rightarrow> nat \<Rightarrow> dirloc \<Rightarrow> nat \<Rightarrow> DirectoryEntry \<Rightarrow> nat list \<Rightarrow> bool" where
  "file_at impl f p d off e cs \<longleftrightarrow>
     dir_at impl f p d \<and> (off, e) \<in> set (live (dir_data f d)) \<and> set cs \<inter> dir_clusters d = {} \<and>
     unat (de_file_size e) \<le> length cs * GetClusterSize f \<and>
     (if FirstCluster impl e = 0 then cs = [] else chain impl f (FirstCluster impl e) cs)"

definition file_bytes :: "fat \<Rightarrow> DirectoryEntry \<Rightarrow> nat list \<Rightarrow> u8 list" where
  "file_bytes f e cs = take (unat (de_file_size e)) (content f cs)"

definition same_name :: "DirectoryEntry \<Rightarrow> DirectoryEntry \<Rightarrow> bool" where
  "same_name e e' \<longleftrightarrow> de_filename e' = de_filename e \<and> de_attributes e' = de_attributes e"

text \<open>
  Directories that share nothing with \<open>d\<close> nor with the clusters \<open>S\<close> stay as they are, and share nothing with \<open>S'\<close>.
\<close>

definition apart :: "dirloc \<Rightarrow> dirloc \<Rightarrow> bool" where
  "apart x d \<longleftrightarrow> dir_clusters x \<inter> dir_clusters d = {} \<and> (x \<noteq> FixedRoot \<or> d \<noteq> FixedRoot)"

definition keeps_dirs :: "fat_impl \<Rightarrow> dirloc \<Rightarrow> fat \<Rightarrow> nat set \<Rightarrow> fat \<Rightarrow> nat set \<Rightarrow> bool" where
  "keeps_dirs impl d f S f' S' \<longleftrightarrow> (\<exists>m. f' = with_mem f m) \<and>
     (\<forall>p x. dir_at impl f p x \<and> apart x d \<and> dir_clusters x \<inter> S = {} \<longrightarrow>
        dir_at impl f' p x \<and> dir_data f' x = dir_data f x \<and> dir_clusters x \<inter> S' = {})"

lemma keeps_dirs_trans:
  assumes "keeps_dirs impl d f S f' S'" and "keeps_dirs impl d f' S' f'' S''"
  shows "keeps_dirs impl d f S f'' S''"
proof -
  have "\<exists>m. f'' = with_mem f m" using assms by (auto simp: keeps_dirs_def)
  then show ?thesis using assms unfolding keeps_dirs_def by metis
qed

lemma FirstCluster_set:
  assumes "k < 2 ^ impl_ClusterNum_bits impl" and "impl_ClusterNum_bits impl \<le> 32"
  shows "FirstCluster impl (SetEntryFirstCluster e k) = k"
proof -
  have k: "k < 2 ^ 32" using assms by (meson less_le_trans one_le_numeral power_increasing)
  have "push_bit 16 (ucast (of_nat (k div 2 ^ 16) AND 0xFFFF :: u16)) OR ucast (of_nat k AND 0xFFFF :: u16) = (of_nat k :: u32)"
  proof -
    have m: "(0xFFFF :: u16) = - 1" by simp
    have d: "of_nat (k div 2 ^ 16) = (of_nat (drop_bit 16 k) :: u16)" by (simp add: drop_bit_eq_div)
    show ?thesis
      unfolding m d by (rule bit_word_eqI) (auto simp: bit_simps)
  qed
  then show ?thesis
    using k assms(1)
    by (simp add: FirstCluster_def GetFirstCluster_def SetEntryFirstCluster_def unsigned_of_nat take_bit_nat_eq_self)
qed

lemma SetEntryFirstCluster_fields [simp]:
  "de_filename (SetEntryFirstCluster e k) = de_filename e" "de_attributes (SetEntryFirstCluster e k) = de_attributes e"
  "de_file_size (SetEntryFirstCluster e k) = de_file_size e"
  by (simp_all add: SetEntryFirstCluster_def)

lemma FirstCluster_size [simp]: "FirstCluster impl (e\<lparr>de_file_size := s\<rparr>) = FirstCluster impl e"
  by (simp add: FirstCluster_def GetFirstCluster_def)

section \<open>Writing\<close>

context fat_table
begin

lemma write_chain:
  assumes "table_ok f" and "chain impl f c cs" and "src \<noteq> []"
  shows "\<exists>r f1. EnsureClusterChain impl f c (offset div GetClusterSize f) = Some (r, f1) \<and>
    (r = 0 \<and> table_ok f1 \<and> free_clusters impl f1 = {} \<or>
     r \<noteq> 0 \<and> (\<exists>n f2 cs2. WriteToClusterChain impl f1 r src (offset mod GetClusterSize f) = Some (n, f2) \<and>
       grows impl f cs f2 cs2 \<and> 0 < n \<and> n \<le> length src \<and> (n < length src \<longrightarrow> free_clusters impl f2 = {}) \<and>
       offset + n \<le> length cs2 * GetClusterSize f \<and> content f2 cs2 = overwrite (content f cs2) offset (take n src)))"
proof -
  let ?S = "GetClusterSize f" and ?i = "offset div GetClusterSize f"
  have S: "0 < ?S" using geometry [OF assms(1)] cluster_size_pos by blast
  have l: "links impl f cs" "distinct cs" "0 < length cs" "cs ! 0 = c"
    using assms(2) chain_first [OF assms(2)] by (auto simp: chain_def)
  from EnsureClusterChain_chain [OF assms(1) l(1-3), of ?i] obtain r f1 cs1 u where e:
    "EnsureClusterChain impl f c ?i = Some (r, f1)" "grows impl f cs f1 cs1" "entries_updated impl f u f1"
    "r = 0 \<and> free_clusters impl f1 = {} \<and> length cs1 \<le> ?i \<or> length cs1 = max (length cs) (?i + 1) \<and> r = cs1 ! ?i"
    using l(4) by auto
  note g1 = grows_fields [OF e(2)] and ok1 = grows_ok [OF assms(1) e(2)]
  show ?thesis
  proof (cases "r = 0")
    case True
    have "2 \<le> cs1 ! ?i" if "?i < length cs1" using links_nth_cluster [OF g1(9) that] by simp
    then have "free_clusters impl f1 = {}"
      using e(4) True by (metis less_add_one max.strict_coboundedI2 not_numeral_le_zero)
    then show ?thesis using e(1) True ok1 by blast
  next
    case False
    then have r: "?i < length cs1" "r = cs1 ! ?i" using e(4) by auto
    have "offset mod ?S < GetClusterSize f1" "0 < length src" using S assms(3) g1(2) by auto
    from WriteToClusterChain_loop_chain [OF ok1 g1(9,10) r(1) this] obtain n f2 cs2 where w:
      "WriteToClusterChain_loop impl f1 r src (offset mod ?S) 0 = Some (n, f2)" "grows impl f1 cs1 f2 cs2"
      "0 < n" "n \<le> length src" "n < length src \<longrightarrow> free_clusters impl f2 = {}" "offset + n \<le> length cs2 * ?S"
      "content f2 cs2 = overwrite (content f1 cs2) offset (take n src)"
      unfolding g1(2) r(2) [symmetric] by auto
    have g: "grows impl f cs f2 cs2" using grows_trans [OF assms(1) e(2) w(2)] .
    have "\<forall>c\<in>set cs2. is_cluster f c" using linksD(2) [OF grows_fields(9) [OF g]] grows_fields(1) [OF g] by auto
    from updates_content [OF assms(1) e(3) this] show ?thesis
      using e(1) False g w by (auto simp: WriteToClusterChain_def)
  qed
qed

text \<open>A directory keeps its place and its bytes while a chain apart from it grows.\<close>

lemma grows_dir:
  assumes "table_ok f" and "grows impl f cs f' cs'" and "dir_at impl f p d" and "set cs \<inter> dir_clusters d = {}"
  shows "dir_at impl f' p d" and "dir_data f' d = dir_data f d" and "set cs' \<inter> dir_clusters d = {}"
proof -
  have fok: "fat_ok f" using geometry [OF assms(1)] by blast
  note g = grows_fields [OF assms(2)]
  obtain m where m: "f' = with_mem f m" "\<And>a. outside f (set cs') a \<Longrightarrow> m a = fat_mem f a"
    using grows_mem [OF assms(2)] by metis
  have cl: "\<forall>c\<in>set cs'. is_cluster f c" using linksD(2) [OF g(9)] g(1) by auto
  show apart: "set cs' \<inter> dir_clusters d = {}"
  proof (cases d)
    case (Chain ds)
    then have "links impl f ds" using assms(3) by (simp add: dir_at_def chain_def)
    from links_entry_nonzero [OF assms(1) this] have "set ds \<inter> free_clusters impl f = {}"
      by (fastforce simp: free_clusters_def)
    then show ?thesis using assms(4) g(12) Chain by (auto simp: dir_clusters_def)
  qed (simp add: dir_clusters_def)
  show "dir_at impl f' p d"
  proof (cases d)
    case FixedRoot
    then show ?thesis using assms(3) m(1) by (simp add: dir_at_def)
  next
    case (Chain ds)
    have l: "links impl f ds" using assms(3) Chain by (simp add: dir_at_def chain_def)
    have "table_entry impl f' c = table_entry impl f c" if "c \<in> set ds" for c
      using grows_entry [OF assms(2)] linksD(2) [OF l that] apart that Chain by (auto simp: dir_clusters_def)
    then have "links impl f' ds"
      using l g(1) last_in_set [of ds] nth_mem [of _ ds] Suc_lessD unfolding links_iff by (metis (no_types, lifting))
    then show ?thesis using assms(3) Chain by (simp add: dir_at_def chain_def)
  qed
  show "dir_data f' d = dir_data f d"
  proof (cases d)
    case FixedRoot
    have "outside f (set cs') a" if "root_base f \<le> a" "a < root_base f + root_size f" for a
      using that root_between [OF fok] cl by (fastforce simp: outside_def in_cluster_def)
    then show ?thesis
      using m FixedRoot by (auto simp: dir_data_def intro!: nth_equalityI)
  next
    case (Chain ds)
    have "cluster_data f' c = cluster_data f c" if "c \<in> set ds" for c
      using grows_other_data [OF assms(2) fok] dir_at_clusters(1) [OF assms(3)] apart that Chain
      by (auto simp: dir_clusters_def)
    then show ?thesis using Chain by (simp add: dir_data_def content_def cong: map_cong)
  qed
qed

lemma grows_keeps_dirs:
  assumes "table_ok f" and "grows impl f cs f' cs'"
  shows "keeps_dirs impl d f (set cs) f' (set cs')"
proof -
  obtain m where "f' = with_mem f m" using grows_mem [OF assms(2)] by metis
  then show ?thesis using grows_dir [OF assms] unfolding keeps_dirs_def by (metis Int_commute)
qed

lemma dir_change_keeps:
  assumes "table_ok f" and "\<And>a. \<not> in_dir f d a \<Longrightarrow> m a = fat_mem f a" and "\<forall>c\<in>dir_clusters d. is_cluster f c"
  shows "keeps_dirs impl d f S (with_mem f m) S"
proof -
  have fok: "fat_ok f" using geometry [OF assms(1)] by blast
  have "dir_at impl (with_mem f m) p x \<and> dir_data (with_mem f m) x = dir_data f x"
    if x: "dir_at impl f p x" "apart x d" for p x
  proof (cases x)
    case FixedRoot
    then obtain ds where d: "d = Chain ds" using x(2) by (cases d) (auto simp: apart_def)
    have "m a = fat_mem f a" if a: "root_base f \<le> a" "a < root_base f + root_size f" for a
    proof -
      have "\<not> in_cluster f c a" if "c \<in> set ds" for c
        using root_between(2) [OF fok, of c] assms(3) d that a(2) by (simp add: dir_clusters_def in_cluster_def)
      then show ?thesis using d by (intro assms(2)) (simp add: in_dir_def)
    qed
    then have "bytes_at m (root_base f) (root_size f) = bytes_at (fat_mem f) (root_base f) (root_size f)"
      by (intro nth_equalityI) simp_all
    then show ?thesis using x(1) FixedRoot by (simp add: dir_at_def dir_data_def)
  next
    case (Chain xs)
    have "content (with_mem f m) xs = content f xs"
      using dir_at_clusters(1) [OF x(1)] x(2) Chain
      by (intro dir_change_content [OF fok assms(2,3)]) (auto simp: dir_clusters_def apart_def)
    then show ?thesis using x(1) Chain dir_change_links(2) [OF assms] by (simp add: dir_at_def dir_data_def)
  qed
  then show ?thesis by (auto simp: keeps_dirs_def)
qed

text \<open>Rewriting the entry of a file in place.\<close>

lemma rewrite_entry:
  assumes "table_ok f" and "dir_at impl f p d" and "(off, e) \<in> set (live (dir_data f d))" and "same_name e e'"
  shows "\<exists>f'. UpdateDirectoryEntry impl f p off e' = Some f' \<and> table_ok f' \<and> dir_at impl f' p d \<and>
    live (dir_data f' d) = map (replace_entry off e') (live (dir_data f d)) \<and> GetClusterSize f' = GetClusterSize f \<and>
    free_clusters impl f' = free_clusters impl f \<and> (\<forall>S. keeps_dirs impl d f S f' S) \<and>
    (\<forall>c cs. chain impl f' c cs = chain impl f c cs) \<and>
    (\<forall>cs. (\<forall>c\<in>set cs. is_cluster f c) \<and> set cs \<inter> dir_clusters d = {} \<longrightarrow> content f' cs = content f cs)"
proof -
  have fok: "fat_ok f" using geometry [OF assms(1)] by blast
  from liveD [OF assms(3)] obtain i where i: "off = i * entry_size" "(i + 1) * entry_size \<le> length (dir_data f d)"
    "length (de_filename e) = 11" by metis
  have o: "off mod entry_size = 0" "off + entry_size \<le> length (dir_data f d)" "length (de_filename e') = 11"
    using i assms(4) by (auto simp: same_name_def)
  then have bs: "length (entry_bytes e') \<le> entry_size" by simp
  let ?f = "dir_put f d off (entry_bytes e')"
  note cl = dir_at_clusters [OF assms(2)]
  obtain m where m: "?f = with_mem f m" using dir_put_mem by blast
  then have fr: "\<And>a. \<not> in_dir f d a \<Longrightarrow> m a = fat_mem f a" using dir_put_outside [OF fok o(1,2) bs] by (metis with_mem_simps(1))
  note ch = dir_change_links [OF assms(1) fr cl(1)]
  have dat: "dir_data ?f d = overwrite (dir_data f d) off (entry_bytes e')"
  proof (cases d)
    case FixedRoot
    then show ?thesis using dir_put_FixedRoot o by (simp add: dir_data_def)
  next
    case (Chain ds)
    then show ?thesis
      using dir_put_Chain [OF fok _ _ o(1) _ bs] cl o(2) by (simp add: dir_clusters_def dir_data_def)
  qed
  have "dir_at impl ?f p d" using assms(2) m ch(2) by (simp add: dir_at_def split: dirloc.splits)
  moreover have "live (dir_data ?f d) = map (replace_entry off e') (live (dir_data f d))"
    unfolding dat using live_update [OF assms(3)] assms(4) by (simp add: same_name_def)
  moreover have "content ?f cs = content f cs" if "\<forall>c\<in>set cs. is_cluster f c" "set cs \<inter> dir_clusters d = {}" for cs
    unfolding m by (rule dir_change_content [OF fok fr cl(1) that])
  moreover have "UpdateDirectoryEntry impl f p off e' = Some ?f"
    using UpdateDirectoryEntry_put [OF assms(1,2) o] .
  moreover have "keeps_dirs impl d f S ?f S" for S
    unfolding m by (rule dir_change_keeps [OF assms(1) fr cl(1)])
  ultimately show ?thesis
    using ch table_ok_mem [OF assms(1)] m by (intro exI [of _ ?f]) auto
qed

end

text \<open>The outcome of a write of \<open>n\<close> bytes of \<open>src\<close> at \<open>offset\<close>.\<close>

definition write_result :: "fat_impl \<Rightarrow> fat \<Rightarrow> nat \<Rightarrow> dirloc \<Rightarrow> nat \<Rightarrow> DirectoryEntry \<Rightarrow> nat list \<Rightarrow> u8 list \<Rightarrow> nat \<Rightarrow>
    nat \<Rightarrow> fat \<Rightarrow> DirectoryEntry \<Rightarrow> nat list \<Rightarrow> bool" where
  "write_result impl f p d off e cs src offset n f' e' cs' \<longleftrightarrow>
     0 < n \<and> n \<le> length src \<and> (n < length src \<longrightarrow> free_clusters impl f' = {}) \<and>
     file_at impl f' p d off e' cs' \<and> same_name e e' \<and> keeps_dirs impl d f (set cs) f' (set cs') \<and>
     live (dir_data f' d) = map (replace_entry off e') (live (dir_data f d)) \<and>
     unat (de_file_size e') = max (unat (de_file_size e)) (offset + n) \<and>
     file_bytes f' e' cs' = take offset (file_bytes f e cs) @ take n src @ drop (offset + n) (file_bytes f e cs)"

lemma u32_less: "unat (x :: u32) < 2 ^ 32"
  using unsigned_less [of x] by simp

lemma take_overwrite:
  assumes "offset \<le> s" and "s \<le> length C" and "offset + length b \<le> length C"
  shows "take (max s (offset + length b)) (overwrite C offset b) =
    take offset (take s C) @ b @ drop (offset + length b) (take s C)"
proof -
  let ?k = "offset + length b"
  have "take (max s ?k) (overwrite C offset b) = take offset C @ b @ take (max s ?k - ?k) (drop ?k C)"
    using assms by (simp add: overwrite_def)
  moreover have "max s ?k - ?k = s - ?k" by simp
  ultimately show ?thesis using assms(1) by (simp add: drop_take min_def)
qed

lemma replace_entry_same:
  assumes "(off, e) \<in> set (live data)"
  shows "map (replace_entry off e) (live data) = live data"
  using live_offsets [OF assms] by (intro map_idI) (auto simp: replace_entry_def)

lemma content_append: "content f (cs @ ds) = content f cs @ content f ds"
  by (simp add: content_def)

lemma content_prefix: "prefix cs cs' \<Longrightarrow> n \<le> length cs * GetClusterSize f \<Longrightarrow> take n (content f cs') = take n (content f cs)"
  by (auto simp: prefix_def content_append)

context fat_table
begin

lemma WriteFileData_chain:
  assumes "table_ok f" and "file_at impl f p d off e cs" and "FirstCluster impl e \<noteq> 0" and "src \<noteq> []"
    and "offset \<le> unat (de_file_size e)" and "offset + length src < 2 ^ 32"
  shows "\<exists>r f'. WriteFileData impl f \<lparr>lk_entry = e, lk_parent_cluster = p, lk_entry_offset = off, lk_found = True\<rparr> src offset =
      Some (r, f') \<and> table_ok f' \<and>
    (r = Inl kDiskFull \<and> free_clusters impl f' = {} \<or>
     (\<exists>n e' cs'. r = Inr n \<and> write_result impl f p d off e cs src offset n f' e' cs'))"
proof -
  let ?S = "GetClusterSize f" and ?s = "unat (de_file_size e)"
  note fa = assms(2) [unfolded file_at_def]
  have c: "chain impl f (FirstCluster impl e) cs" "set cs \<inter> dir_clusters d = {}" "?s \<le> length cs * ?S" "dir_at impl f p d"
    "(off, e) \<in> set (live (dir_data f d))"
    using fa assms(3) by auto
  from write_chain [OF assms(1) c(1) assms(4), of offset] obtain r f1 where r:
    "EnsureClusterChain impl f (FirstCluster impl e) (offset div ?S) = Some (r, f1)"
    "r = 0 \<and> table_ok f1 \<and> free_clusters impl f1 = {} \<or>
     r \<noteq> 0 \<and> (\<exists>n f2 cs2. WriteToClusterChain impl f1 r src (offset mod ?S) = Some (n, f2) \<and>
       grows impl f cs f2 cs2 \<and> 0 < n \<and> n \<le> length src \<and> (n < length src \<longrightarrow> free_clusters impl f2 = {}) \<and>
       offset + n \<le> length cs2 * ?S \<and> content f2 cs2 = overwrite (content f cs2) offset (take n src))"
    by blast
  show ?thesis
  proof (cases "r = 0")
    case True
    then show ?thesis using r assms(3) by (auto simp: WriteFileData_def)
  next
    case False
    then obtain n f2 cs2 where w: "WriteToClusterChain impl f1 r src (offset mod ?S) = Some (n, f2)"
      "grows impl f cs f2 cs2" "0 < n" "n \<le> length src" "n < length src \<longrightarrow> free_clusters impl f2 = {}"
      "offset + n \<le> length cs2 * ?S" "content f2 cs2 = overwrite (content f cs2) offset (take n src)"
      using r(2) by blast
    note k2 = grows_keeps_dirs [OF assms(1) w(2), of d]
    note g = grows_fields [OF w(2)] and gd = grows_dir [OF assms(1) w(2) c(4,2)] and ok2 = grows_ok [OF assms(1) w(2)]
    have ch2: "chain impl f2 (FirstCluster impl e) cs2"
      using c(1) g(9-11) chain_first [OF c(1)] by (auto simp: chain_def prefix_def)
    have cl2: "\<forall>c\<in>set cs2. is_cluster f2 c" using linksD(2) [OF g(9)] by blast
    have le: "?s \<le> length cs2 * ?S" using c(3) prefix_length_le [OF g(11)] by (meson mult_le_mono1 order_trans)
    have lb: "length (take n src) = n" using w(4) by simp
    have bytes: "take (max ?s (offset + n)) (content f2 cs2) =
        take offset (file_bytes f e cs) @ take n src @ drop (offset + n) (file_bytes f e cs)"
    proof -
      have "file_bytes f e cs = take ?s (content f cs2)"
        unfolding file_bytes_def using content_prefix [OF g(11) c(3)] by simp
      then show ?thesis
        unfolding w(7) using take_overwrite [of offset ?s "content f cs2" "take n src"] assms(5) le w(6) lb by simp
    qed
    let ?N = "max ?s (offset + n)"
    have eval: "WriteFileData impl f \<lparr>lk_entry = e, lk_parent_cluster = p, lk_entry_offset = off, lk_found = True\<rparr> src offset =
        do { f \<leftarrow> (if ?N \<noteq> ?s then UpdateDirectoryEntry impl f2 p off (e\<lparr>de_file_size := of_nat ?N\<rparr>) else Some f2);
             Some (Inr n, f) }"
      using r(1) w(1) False assms(3) by (simp add: WriteFileData_def Let_def)
    show ?thesis
    proof (cases "?N = ?s")
      case True
      have "file_at impl f2 p d off e cs2"
        using gd ch2 le g(2) assms(3) c(5) by (simp add: file_at_def)
      moreover have "live (dir_data f2 d) = map (replace_entry off e) (live (dir_data f d))"
        using gd(2) replace_entry_same [OF c(5)] by simp
      ultimately have "write_result impl f p d off e cs src offset n f2 e cs2"
        using w(3-5) bytes True k2 by (simp add: write_result_def same_name_def file_bytes_def)
      then show ?thesis unfolding eval using True ok2 by auto
    next
      case F: False
      let ?e = "e\<lparr>de_file_size := of_nat ?N\<rparr>"
      have N: "unat (de_file_size ?e) = ?N" "?N \<le> length cs2 * ?S"
        using assms(6) w(4,6) le u32_less [of "de_file_size e"] by (simp_all add: unsigned_of_nat take_bit_nat_eq_self)
      have "(off, e) \<in> set (live (dir_data f2 d))" using c(5) gd(2) by simp
      from rewrite_entry [OF ok2 gd(1) this, of ?e] obtain f3 where u:
        "UpdateDirectoryEntry impl f2 p off ?e = Some f3" "table_ok f3" "dir_at impl f3 p d"
        "live (dir_data f3 d) = map (replace_entry off ?e) (live (dir_data f2 d))" "GetClusterSize f3 = GetClusterSize f2"
        "free_clusters impl f3 = free_clusters impl f2" "\<forall>S. keeps_dirs impl d f2 S f3 S" "\<forall>c cs. chain impl f3 c cs = chain impl f2 c cs"
        "\<forall>cs. (\<forall>c\<in>set cs. is_cluster f2 c) \<and> set cs \<inter> dir_clusters d = {} \<longrightarrow> content f3 cs = content f2 cs"
        by (auto simp: same_name_def)
      have "(off, ?e) \<in> set (live (dir_data f3 d))"
        using c(5) gd(2) u(4) by (force simp: replace_entry_def)
      then have "file_at impl f3 p d off ?e cs2"
        using u(3,5,8) gd(3) ch2 N g(2) assms(3) by (simp add: file_at_def)
      moreover have "keeps_dirs impl d f (set cs) f3 (set cs2)" using keeps_dirs_trans [OF k2] u(7) by blast
      moreover have "content f3 cs2 = content f2 cs2" using u(9) cl2 gd(3) by blast
      ultimately have "write_result impl f p d off e cs src offset n f3 ?e cs2"
        using w(3-5) bytes N(1) u(4,6) gd(2) by (simp add: write_result_def same_name_def file_bytes_def)
      then show ?thesis unfolding eval using F u(1,2) by auto
    qed
  qed
qed

end

lemma replace_entry_replace: "replace_entry off e2 (replace_entry off e1 x) = replace_entry off e2 x"
  by (auto simp: replace_entry_def split: prod.splits)

context fat_table
begin

lemma AllocateCluster_grows:
  assumes "table_ok f" and "k \<in> free_clusters impl f" and "entries_updated impl f [k \<mapsto> impl_kEOC impl] f1"
  shows "grows impl f [] f1 [k]"
proof (rule updates_grows [OF assms(3)])
  have "is_cluster f k" using assms(2) by (simp add: free_clusters_def)
  then show "links impl f1 [k]"
    using updated_one [OF assms(3), of k] entries_updated_fields(1) [OF assms(3)] by simp
qed (use assms(2) in auto)

text \<open>A file without clusters gets its first one, and the write goes on as with any other.\<close>

lemma WriteFileData_first:
  assumes "table_ok f" and "file_at impl f p d off e []" and "FirstCluster impl e = 0"
  shows "WriteFileData impl f \<lparr>lk_entry = e, lk_parent_cluster = p, lk_entry_offset = off, lk_found = True\<rparr> src offset =
      Some (Inl kDiskFull, f) \<and> free_clusters impl f = {} \<or>
    (\<exists>f2 e2 k. WriteFileData impl f \<lparr>lk_entry = e, lk_parent_cluster = p, lk_entry_offset = off, lk_found = True\<rparr> src offset =
       WriteFileData impl f2 \<lparr>lk_entry = e2, lk_parent_cluster = p, lk_entry_offset = off, lk_found = True\<rparr> src offset \<and>
       table_ok f2 \<and> file_at impl f2 p d off e2 [k] \<and> FirstCluster impl e2 = k \<and> k \<noteq> 0 \<and> same_name e e2 \<and>
       de_file_size e2 = de_file_size e \<and> keeps_dirs impl d f {} f2 {k} \<and> live (dir_data f2 d) = map (replace_entry off e2) (live (dir_data f d)))"
proof (rule AllocateCluster_cases [OF assms(1)], goal_cases full ok)
  case full
  then show ?case using assms(3) by (simp add: WriteFileData_def Let_def)
next
  case (ok k f1)
  note fa = assms(2) [unfolded file_at_def]
  have k: "is_cluster f k" "k \<noteq> 0" using ok(2) by (auto simp: free_clusters_def)
  have g: "grows impl f [] f1 [k]" using AllocateCluster_grows [OF assms(1) ok(2,4)] .
  have bits: "k < 2 ^ impl_ClusterNum_bits impl" "impl_ClusterNum_bits impl \<le> 32"
    using k(1) geometry [OF assms(1)] by auto
  let ?e = "SetEntryFirstCluster e k"
  have fc: "FirstCluster impl ?e = k" using FirstCluster_set [OF bits] .
  have "dir_at impl f p d" "set [] \<inter> dir_clusters d = {}" using fa by auto
  note gd = grows_dir [OF assms(1) g this]
  have "(off, e) \<in> set (live (dir_data f1 d))" using fa gd(2) by simp
  from rewrite_entry [OF ok(5) gd(1) this, of ?e] obtain f2 where u:
    "UpdateDirectoryEntry impl f1 p off ?e = Some f2" "table_ok f2" "dir_at impl f2 p d"
    "live (dir_data f2 d) = map (replace_entry off ?e) (live (dir_data f1 d))" "GetClusterSize f2 = GetClusterSize f1"
    "\<forall>c cs. chain impl f2 c cs = chain impl f1 c cs" "\<forall>S. keeps_dirs impl d f1 S f2 S"
    by (auto simp: same_name_def)
  have "chain impl f1 k [k]" using grows_fields(9) [OF g] by (simp add: chain_def)
  then have "file_at impl f2 p d off ?e [k]"
    using u gd fa fc k(2) by (force simp: file_at_def replace_entry_def)
  moreover have "WriteFileData impl f \<lparr>lk_entry = e, lk_parent_cluster = p, lk_entry_offset = off, lk_found = True\<rparr> src offset =
      WriteFileData impl f2 \<lparr>lk_entry = ?e, lk_parent_cluster = p, lk_entry_offset = off, lk_found = True\<rparr> src offset"
    using ok(1) k(2) u(1,5) grows_fields(2) [OF g] fc assms(3) by (simp add: WriteFileData_def Let_def)
  moreover have "keeps_dirs impl d f {} f2 {k}"
    using keeps_dirs_trans [OF grows_keeps_dirs [OF assms(1) g]] u(7) by simp
  ultimately show ?case
    using u(2,4) gd(2) fc k(2)
    by (intro disjI2 exI [of _ f2] exI [of _ ?e] exI [of _ k]) (simp add: same_name_def)
qed

lemma WriteFileData_correct:
  assumes "table_ok f" and "file_at impl f p d off e cs" and "src \<noteq> []"
    and "offset \<le> unat (de_file_size e)" and "offset + length src < 2 ^ 32"
  shows "\<exists>r f'. WriteFileData impl f \<lparr>lk_entry = e, lk_parent_cluster = p, lk_entry_offset = off, lk_found = True\<rparr> src offset =
      Some (r, f') \<and> table_ok f' \<and>
    (r = Inl kDiskFull \<and> free_clusters impl f' = {} \<or>
     (\<exists>n e' cs'. r = Inr n \<and> write_result impl f p d off e cs src offset n f' e' cs'))"
proof (cases "FirstCluster impl e = 0")
  case False
  then show ?thesis using WriteFileData_chain [OF assms(1,2) _ assms(3-5)] by blast
next
  case True
  then have "cs = []" using assms(2) by (simp add: file_at_def)
  then have fa: "file_at impl f p d off e []" and s: "unat (de_file_size e) = 0"
    using assms(2) by (auto simp: file_at_def)
  from WriteFileData_first [OF assms(1) fa True, of src offset] show ?thesis
  proof (elim disjE exE conjE)
    fix f2 e2 k
    assume r: "WriteFileData impl f \<lparr>lk_entry = e, lk_parent_cluster = p, lk_entry_offset = off, lk_found = True\<rparr> src offset =
       WriteFileData impl f2 \<lparr>lk_entry = e2, lk_parent_cluster = p, lk_entry_offset = off, lk_found = True\<rparr> src offset"
      "table_ok f2" "file_at impl f2 p d off e2 [k]" "FirstCluster impl e2 = k" "k \<noteq> 0" "same_name e e2"
      "de_file_size e2 = de_file_size e" "keeps_dirs impl d f {} f2 {k}"
      "live (dir_data f2 d) = map (replace_entry off e2) (live (dir_data f d))"
    have "write_result impl f p d off e cs src offset n f' e' cs'"
      if "write_result impl f2 p d off e2 [k] src offset n f' e' cs'" for n f' e' cs'
      using that r(6,7,9) s assms(4) \<open>cs = []\<close> keeps_dirs_trans [OF r(8)]
      by (auto simp: write_result_def same_name_def replace_entry_replace file_bytes_def)
    then show ?thesis
      unfolding r(1) using WriteFileData_chain [OF r(2,3) _ assms(3) _ assms(5)] r(4,5,7) assms(4) by fastforce
  qed (use assms(1) in auto)
qed

lemma ReadFileData_correct:
  assumes "table_ok f" and "file_at impl f p d off e cs" and "offset < unat (de_file_size e)"
  shows "ReadFileData impl f e sz offset = Some (take sz (drop offset (file_bytes f e cs)))"
proof -
  let ?S = "GetClusterSize f" and ?s = "unat (de_file_size e)"
  note fa = assms(2) [unfolded file_at_def]
  have S: "0 < ?S" using geometry [OF assms(1)] cluster_size_pos by blast
  have s: "?s \<le> length cs * ?S" using fa by simp
  then have "cs \<noteq> []" using assms(3) by auto
  then have c: "chain impl f (FirstCluster impl e) cs" using fa by (auto split: if_splits)
  have l: "links impl f cs" "cs ! 0 = FirstCluster impl e" "0 < length cs"
    using c chain_first [OF c] by (auto simp: chain_def)
  have i: "offset div ?S < length cs"
    using assms(3) s S by (simp add: div_less_iff_less_mult)
  have m: "offset mod ?S \<le> ?S" using S by (simp add: less_imp_le)
  have "unat (ucast (de_file_size e) - of_nat offset :: u64) = ?s - offset"
  proof -
    have o: "unat (of_nat offset :: u64) = offset" "unat (ucast (de_file_size e) :: u64) = ?s"
      using assms(3) u32_less [of "de_file_size e"]
      by (simp_all add: unsigned_of_nat take_bit_nat_eq_self unsigned_ucast_eq)
    then have "(of_nat offset :: u64) \<le> ucast (de_file_size e)" using assms(3) by (simp add: word_le_nat_alt)
    then show ?thesis using o by (simp add: unat_sub)
  qed
  moreover have "SkipClusters impl f (FirstCluster impl e) (offset div ?S) = Some (cs ! (offset div ?S))"
    using SkipClusters_chain [OF assms(1) l(1,3), of "offset div ?S"] i l(2) by simp
  ultimately show ?thesis
    using ReadFileData_loop_chain [OF assms(1) l(1) i m, of "min sz (?s - offset)" "[]"]
    by (simp add: ReadFileData_def Let_def file_bytes_def drop_take min.commute)
qed

end

section \<open>Paths\<close>

text \<open>The directories a lookup walks through, from the entry \<open>e\<close> along the components to the entry \<open>e'\<close>.\<close>

inductive walks :: "fat_impl \<Rightarrow> fat \<Rightarrow> DirectoryEntry \<Rightarrow> str list \<Rightarrow> dirloc list \<Rightarrow> DirectoryEntry \<Rightarrow> bool"
  for impl :: fat_impl and f :: fat where
  here: "walks impl f e [] [] e"
| down: "walks impl f e (c # cs) (x # xs) e'"
    if "dir_at impl f (FirstCluster impl e) x" and "FormatFilename c = Some n"
      and "find_name n (live (dir_data f x)) = \<lparr>em_entry = e1, em_entry_offset = off, em_found = True\<rparr>"
      and "walks impl f e1 cs xs e'"

text \<open>
  \<open>path\<close> names \<open>name\<close> in the directory \<open>d\<close> (with cluster \<open>p\<close>), which is reached through the directories \<open>dirs\<close>.
\<close>

definition path_to ::
  "fat_impl \<Rightarrow> fat \<Rightarrow> path \<Rightarrow> dirloc list \<Rightarrow> nat \<Rightarrow> dirloc \<Rightarrow> str \<Rightarrow> bool" where
  "path_to impl f path dirs p d name \<longleftrightarrow> (\<exists>comps e. \<not> Path_IsEmpty path \<and> p_components path = comps @ [name] \<and>
     walks impl f (MakeRootDirectoryEntry impl f) comps dirs e \<and> p = FirstCluster impl e \<and> dir_at impl f p d)"

definition file_named :: "fat_impl \<Rightarrow> fat \<Rightarrow> path \<Rightarrow> dirloc list \<Rightarrow> nat \<Rightarrow> dirloc \<Rightarrow> nat \<Rightarrow> DirectoryEntry \<Rightarrow> nat list \<Rightarrow> bool" where
  "file_named impl f path dirs p d off e cs \<longleftrightarrow> (\<exists>name n. path_to impl f path dirs p d name \<and>
     FormatFilename name = Some n \<and>
     find_name n (live (dir_data f d)) = \<lparr>em_entry = e, em_entry_offset = off, em_found = True\<rparr> \<and>
     file_at impl f p d off e cs \<and> DE_IsFile e \<and>
     (\<forall>x\<in>set dirs. apart x d \<and> dir_clusters x \<inter> set cs = {}))"

lemma FormatFilename_no_dots: "FormatFilename c = Some n \<Longrightarrow> c \<noteq> [0x2E] \<and> c \<noteq> [0x2E, 0x2E]"
proof -
  have "FormatFilename [0x2E] = None" "FormatFilename [0x2E, 0x2E] = None" by code_simp+
  then show "FormatFilename c = Some n \<Longrightarrow> c \<noteq> [0x2E] \<and> c \<noteq> [0x2E, 0x2E]" by auto
qed

lemma find_name_mem: "find_name n es = \<lparr>em_entry = e, em_entry_offset = off, em_found = True\<rparr> \<Longrightarrow> (off, e) \<in> set es"
  by (auto simp: find_name_def no_match_def find_Some_iff in_set_conv_nth split: option.splits)

context fat_table
begin

lemma root_FirstCluster: "FirstCluster impl (MakeRootDirectoryEntry impl f) = impl_GetRootCluster impl f"
  if "table_ok g" for f g
  using FirstCluster_set root_cluster(2) geometry [OF that] by (simp add: MakeRootDirectoryEntry_def)

lemma LookupPath_loop_walks:
  assumes "table_ok f" and "walks impl f e comps dirs e'" and "dir_at impl f (FirstCluster impl e') d"
    and "FormatFilename name = Some n"
  shows "\<exists>o'. LookupPath_loop impl f (comps @ [name]) e (FirstCluster impl e) par off = Some
    (let m = find_name n (live (dir_data f d)) in
     if em_found m
     then \<lparr>lk_entry = em_entry m, lk_parent_cluster = FirstCluster impl e', lk_entry_offset = em_entry_offset m, lk_found = True\<rparr>
     else \<lparr>lk_entry = null_entry, lk_parent_cluster = 0, lk_entry_offset = o', lk_found = False\<rparr>)"
  using assms(2,3)
proof (induction arbitrary: par off rule: walks.induct)
  case (here e)
  then show ?case
    using FormatFilename_no_dots [OF assms(4)] FindEntryInDirectory_live [OF assms(1) here] assms(4) by (simp add: Let_def)
next
  case (down e x c n1 e1 o1 cs xs e')
  have "FindEntryInDirectory impl f e c = Some \<lparr>em_entry = e1, em_entry_offset = o1, em_found = True\<rparr>"
    using FindEntryInDirectory_live [OF assms(1) down.hyps(1)] down.hyps(2,3) by simp
  then show ?case
    using FormatFilename_no_dots [OF down.hyps(2)] down.IH [OF down.prems] by simp
qed

lemma LookupPath_path_to:
  assumes "table_ok f" and "path_to impl f path dirs p d name" and "FormatFilename name = Some n"
  obtains off where "LookupPath impl f path = Some
    (let m = find_name n (live (dir_data f d)) in
     if em_found m
     then \<lparr>lk_entry = em_entry m, lk_parent_cluster = p, lk_entry_offset = em_entry_offset m, lk_found = True\<rparr>
     else \<lparr>lk_entry = null_entry, lk_parent_cluster = 0, lk_entry_offset = off, lk_found = False\<rparr>)"
proof -
  obtain comps e where c: "\<not> Path_IsEmpty path" "p_components path = comps @ [name]"
    "walks impl f (MakeRootDirectoryEntry impl f) comps dirs e" "p = FirstCluster impl e" "dir_at impl f p d"
    using assms(2) by (auto simp: path_to_def)
  have "\<not> Path_IsRoot path" using c(2) by (simp add: Path_IsRoot_def)
  then show ?thesis
    using LookupPath_loop_walks [OF assms(1) c(3) _ assms(3), of d] c that
    by (auto simp: LookupPath_def Let_def root_FirstCluster [OF assms(1), symmetric])
qed

lemma walks_keeps:
  assumes "walks impl f e comps dirs e'" and "keeps_dirs impl d f S f' S'"
    and "\<forall>x\<in>set dirs. apart x d \<and> dir_clusters x \<inter> S = {}"
  shows "walks impl f' e comps dirs e'"
  using assms(1,3)
proof (induction rule: walks.induct)
  case (down e x c n e1 off cs xs e')
  then have "dir_at impl f' (FirstCluster impl e) x" "dir_data f' x = dir_data f x"
    using assms(2) by (auto simp: keeps_dirs_def)
  then show ?case using down by (intro walks.down) auto
qed (rule walks.here)

lemma path_to_keeps:
  assumes "path_to impl f path dirs p d name" and "keeps_dirs impl d f S f' S'"
    and "\<forall>x\<in>set dirs. apart x d \<and> dir_clusters x \<inter> S = {}" and "dir_at impl f' p d"
  shows "path_to impl f' path dirs p d name" and "\<forall>x\<in>set dirs. apart x d \<and> dir_clusters x \<inter> S' = {}"
proof -
  obtain m where m: "f' = with_mem f m" using assms(2) by (auto simp: keeps_dirs_def)
  have "MakeRootDirectoryEntry impl f' = MakeRootDirectoryEntry impl f"
    unfolding m MakeRootDirectoryEntry_def using root_cluster(1) by simp
  then show "path_to impl f' path dirs p d name"
    using assms(1,4) walks_keeps [OF _ assms(2,3)] unfolding path_to_def by metis
  have "dir_clusters x \<inter> S' = {}" if "walks impl f e comps dirs e'" "x \<in> set dirs" for e comps e' x
    using that assms(2,3) by (induction rule: walks.induct) (auto simp: keeps_dirs_def)
  then show "\<forall>x\<in>set dirs. apart x d \<and> dir_clusters x \<inter> S' = {}"
    using assms(1,3) unfolding path_to_def by metis
qed

end

context fat_table
begin

lemma ReadFile_named:
  assumes "table_ok f" and "file_named impl f path dirs p d off e cs" and "0 < sz"
  shows "ReadFile impl f path True sz pos = Some (Inr (take sz (drop pos (file_bytes f e cs))))"
proof -
  obtain name n where fn: "path_to impl f path dirs p d name" "FormatFilename name = Some n"
    "find_name n (live (dir_data f d)) = \<lparr>em_entry = e, em_entry_offset = off, em_found = True\<rparr>"
    "file_at impl f p d off e cs" "DE_IsFile e"
    using assms(2) by (auto simp: file_named_def)
  from LookupPath_path_to [OF assms(1) fn(1,2)] have "LookupPath impl f path =
      Some \<lparr>lk_entry = e, lk_parent_cluster = p, lk_entry_offset = off, lk_found = True\<rparr>"
    using fn(3) by (metis EntryMatch.simps(1,2,3))
  moreover have "length (file_bytes f e cs) = unat (de_file_size e)"
    using fn(4) by (simp add: file_at_def file_bytes_def)
  ultimately show ?thesis
    using fn(5) assms(3) ReadFileData_correct [OF assms(1) fn(4), of pos sz] by (simp add: ReadFile_def)
qed

lemma WriteFile_named:
  assumes "table_ok f" and "file_named impl f path dirs p d off e cs" and "src \<noteq> []"
    and "offset \<le> unat (de_file_size e)" and "offset + length src < 2 ^ 32"
  shows "\<exists>r f'. WriteFile impl f path True src offset = Some (r, f') \<and> table_ok f' \<and>
    (r = Inl kDiskFull \<and> free_clusters impl f' = {} \<or>
     (\<exists>k e' cs'. r = Inr k \<and> 0 < k \<and> k \<le> length src \<and> (k < length src \<longrightarrow> free_clusters impl f' = {}) \<and>
       file_named impl f' path dirs p d off e' cs' \<and>
       file_bytes f' e' cs' = take offset (file_bytes f e cs) @ take k src @ drop (offset + k) (file_bytes f e cs)))"
proof -
  obtain name n where fn: "path_to impl f path dirs p d name" "FormatFilename name = Some n"
    "find_name n (live (dir_data f d)) = \<lparr>em_entry = e, em_entry_offset = off, em_found = True\<rparr>"
    "file_at impl f p d off e cs" "DE_IsFile e" "\<forall>x\<in>set dirs. apart x d \<and> dir_clusters x \<inter> set cs = {}"
    using assms(2) by (auto simp: file_named_def)
  let ?lk = "\<lparr>lk_entry = e, lk_parent_cluster = p, lk_entry_offset = off, lk_found = True\<rparr>"
  from LookupPath_path_to [OF assms(1) fn(1,2)] have "LookupPath impl f path = Some ?lk"
    using fn(3) by (metis EntryMatch.simps(1,2,3))
  then have wf: "WriteFile impl f path True src offset = WriteFileData impl f ?lk src offset"
    using fn(5) assms(3) by (simp add: WriteFile_def)
  have named: "file_named impl f' path dirs p d off e' cs'"
    if w: "write_result impl f p d off e cs src offset k f' e' cs'" for k f' e' cs'
  proof -
    note wr = w [unfolded write_result_def]
    have fa: "file_at impl f' p d off e' cs'" and sn: "de_filename e' = de_filename e" "de_attributes e' = de_attributes e"
      and lv: "live (dir_data f' d) = map (replace_entry off e') (live (dir_data f d))"
      using wr by (auto simp: same_name_def)
    note mem = find_name_mem [OF fn(3)]
    have "find_name n (live (dir_data f' d)) = \<lparr>em_entry = e', em_entry_offset = off, em_found = True\<rparr>"
      unfolding lv using find_name_replace [OF mem live_offsets [OF mem] sn, of n] fn(3) by (simp add: Let_def)
    moreover have "DE_IsFile e'" using fn(5) sn by (simp add: DE_IsFile_def)
    moreover have "dir_at impl f' p d" using fa by (simp add: file_at_def)
    note path_to_keeps [OF fn(1) _ fn(6) this]
    ultimately show ?thesis using wr fa fn(2) unfolding file_named_def by blast
  qed
  have "0 < k \<and> k \<le> length src \<and> (k < length src \<longrightarrow> free_clusters impl f' = {}) \<and>
       file_named impl f' path dirs p d off e' cs' \<and>
       file_bytes f' e' cs' = take offset (file_bytes f e cs) @ take k src @ drop (offset + k) (file_bytes f e cs)"
    if "write_result impl f p d off e cs src offset k f' e' cs'" for k f' e' cs'
    using named [OF that] that by (simp add: write_result_def)
  then show ?thesis
    unfolding wf using WriteFileData_correct [OF assms(1) fn(4) assms(3-5)] by blast
qed

end

section \<open>Properties\<close>

text \<open>
  C15: On every type of FAT, writing to a file and reading it back: \<open>WriteFile\<close> at an offset inside the file stores a
  non-empty prefix of the data, all of it unless the disk is full, and afterwards every
  \<open>ReadFile\<close> of the path returns the old contents with that prefix in place at the offset, wherever the
  file lies in the directory tree. It fails only when no cluster is free.
\<close>

theorem WriteFile_ReadFile:
  assumes "(impl, ok) \<in> fat_types" and "ok f" and "file_named impl f path dirs p d off e cs" and "src \<noteq> []"
    and "offset \<le> unat (de_file_size e)" and "offset + length src < 2 ^ 32"
  shows "\<exists>r f'. WriteFile impl f path True src offset = Some (r, f') \<and> ok f' \<and>
    (r = Inl kDiskFull \<and> free_clusters impl f' = {} \<or>
     (\<exists>k e' cs'. r = Inr k \<and> 0 < k \<and> k \<le> length src \<and> (k < length src \<longrightarrow> free_clusters impl f' = {}) \<and>
       file_named impl f' path dirs p d off e' cs' \<and>
       (\<forall>sz pos. 0 < sz \<longrightarrow> ReadFile impl f' path True sz pos = Some (Inr (take sz (drop pos
          (take offset (file_bytes f e cs) @ take k src @ drop (offset + k) (file_bytes f e cs))))))))"
proof -
  obtain lim where t: "fat_table impl ok lim" by (rule fat_types_table [OF assms(1)])
  show ?thesis
    using fat_table.WriteFile_named [OF t assms(2-6)]
  proof (elim exE conjE disjE)
    fix r f' k e' cs'
    assume r: "WriteFile impl f path True src offset = Some (r, f')" "ok f'" "r = Inr k" "0 < k" "k \<le> length src"
      "k < length src \<longrightarrow> free_clusters impl f' = {}" "file_named impl f' path dirs p d off e' cs'"
      "file_bytes f' e' cs' = take offset (file_bytes f e cs) @ take k src @ drop (offset + k) (file_bytes f e cs)"
    show ?thesis
      using r fat_table.ReadFile_named [OF t r(2,7)] by (intro exI [of _ r] exI [of _ f']) auto
  qed blast
qed

text \<open>The file \<open>A.TXT\<close> of 70 bytes in the root directory of the example disk.\<close>

definition example_entry_A :: DirectoryEntry where
  "example_entry_A = \<lparr>de_filename = [0x41, 0x20, 0x20, 0x20, 0x20, 0x20, 0x20, 0x20, 0x54, 0x58, 0x54],
     de_attributes = 0x20, de_reserved = 0, de_creation_time_tenth = 0, de_creation_time = 0, de_creation_date = 0,
     de_last_access_date = 0, de_first_cluster_high = 0, de_last_write_time = 0, de_last_write_date = 0,
     de_first_cluster_low = 2, de_file_size = 70\<rparr>"

definition example_disk :: fat where
  "example_disk = with_mem example_fat (put_bytes (fat_mem example_fat) 128 (entry_bytes example_entry_A))"

definition example_path :: path where
  "example_path = Path [0x2F, 0x61, 0x2E, 0x74, 0x78, 0x74]"

lemma example_disk_ok: "table_ok16 example_disk"
  unfolding example_disk_def by (rule t16.table_ok_mem [OF example_ok(1)])

lemma example_disk_links: "chain Fat16 example_disk 2 [2, 3, 4]"
proof -
  have "table_ok16 example_fat" by (rule example_ok)
  moreover have "\<not> in_dir example_fat FixedRoot a \<Longrightarrow>
      put_bytes (fat_mem example_fat) 128 (entry_bytes example_entry_A) a = fat_mem example_fat a" for a
    by (auto simp: in_dir_def root_base_def root_size_def put_bytes_at example_fat_def example_bs_def example_entry_A_def
        entry_bytes_def u16_bytes_def u32_bytes_def)
  ultimately show ?thesis
    unfolding example_disk_def using t16.dir_change_links(2) [of example_fat FixedRoot] example_chain(1)
    by (simp add: dir_clusters_def)
qed

lemma example_disk_root: "dir_data example_disk FixedRoot = entry_bytes example_entry_A @ replicate 32 0"
proof (rule nth_equalityI)
  have len: "length (entry_bytes example_entry_A) = 32" by (simp add: example_entry_A_def)
  have sz: "root_base example_disk = 128" "root_size example_disk = 64"
    by (simp_all add: root_base_def root_size_def example_disk_def example_fat_def example_bs_def)
  show "length (dir_data example_disk FixedRoot) = length (entry_bytes example_entry_A @ replicate 32 0)"
    using len sz by (simp add: dir_data_def)
  fix i assume "i < length (dir_data example_disk FixedRoot)"
  then have i: "i < 64" using sz by (simp add: dir_data_def)
  have "fat_mem example_fat (128 + i) = 0" by (simp add: example_fat_def put_bytes_at)
  then show "dir_data example_disk FixedRoot ! i = (entry_bytes example_entry_A @ replicate 32 0) ! i"
    using i len sz by (simp add: dir_data_def example_disk_def put_bytes_at nth_append)
qed

lemma example_disk_find:
  "find_name (de_filename example_entry_A) (live (entry_bytes example_entry_A @ replicate 32 0)) =
     \<lparr>em_entry = example_entry_A, em_entry_offset = 0, em_found = True\<rparr>"
  by code_simp

lemma example_disk_file: "file_named Fat16 example_disk example_path [] 0 FixedRoot 0 example_entry_A [2, 3, 4]"
proof -
  let ?name = "[0x61, 0x2E, 0x74, 0x78, 0x74] :: u8 list"
  have root: "FirstCluster Fat16 (MakeRootDirectoryEntry Fat16 example_disk) = 0"
    using t16.root_FirstCluster [OF example_disk_ok, of example_disk] by (simp add: Fat16_def)
  have dir: "dir_at Fat16 example_disk 0 FixedRoot"
    by (simp add: dir_at_def root_size_def example_disk_def example_fat_def example_bs_def Fat16_def kMaxClusterSize_def)
  have "p_components example_path = [] @ [?name]" "\<not> Path_IsEmpty example_path"
    by code_simp+
  then have path: "path_to Fat16 example_disk example_path [] 0 FixedRoot ?name"
    unfolding path_to_def using root dir walks.here by metis
  have fmt: "FormatFilename ?name = Some (de_filename example_entry_A)" by code_simp
  have fc: "FirstCluster Fat16 example_entry_A = 2" "unat (de_file_size example_entry_A) = 70"
    by (simp_all add: FirstCluster_def GetFirstCluster_def example_entry_A_def Fat16_def)
  have S: "GetClusterSize example_disk = 64" by (simp add: GetClusterSize_def example_disk_def example_fat_def example_bs_def)
  have "(0, example_entry_A) \<in> set (live (dir_data example_disk FixedRoot))"
    using find_name_mem [OF example_disk_find] example_disk_root by simp
  then have "file_at Fat16 example_disk 0 FixedRoot 0 example_entry_A [2, 3, 4]"
    using dir fc S example_disk_links by (simp add: file_at_def dir_clusters_def)
  moreover have "DE_IsFile example_entry_A" by code_simp
  ultimately show ?thesis
    unfolding file_named_def using path fmt example_disk_find example_disk_root by auto
qed

theorem WriteFile_ReadFile_witness:
  "\<exists>r f'. WriteFile Fat16 example_disk example_path True [1, 2, 3] 69 = Some (r, f') \<and> table_ok16 f'"
  using WriteFile_ReadFile [OF example_ok(2) example_disk_ok example_disk_file, of "[1, 2, 3]" 69]
  by (auto simp: example_entry_A_def)

end
