(* ===== verification/Critbit.thy ===== *)
theory Critbit
  imports Kernel_Prelude
begin

text \<open>
  The crit-bit tree for strings (\<open>libs/libcontainers/include/data_structures/critbit_tree.hpp\<close>), in which the virtual file system
  keeps its mount points, and the contract of a map from strings, in which the tree is interpreted.

  A node owns its children, so that a tree is a value; the tagged pointer \<open>root_\<close> is an option. A key
  is the text of a C string, without the terminator; the key of an external node is \<open>None\<close> when its
  memory could not be allocated, and reading it then is a panic. The outcomes of the heap allocations of
  \<open>Insert\<close> are arguments. A key of a lookup may be any view.
\<close>

section \<open>The tree\<close>

datatype 'v node =
    ExternalNode "u8 list option" 'v
  | InternalNode "'v node" "'v node" u32 u8

type_synonym 'v critbit = "'v node option"

text \<open>The character at an index, with the terminator behind the end.\<close>

definition char_at :: "u8 list \<Rightarrow> nat \<Rightarrow> u8" where
  "char_at s i = (if i < length s then s ! i else 0)"

text \<open>\<open>(1 + (mask | c)) >> 8\<close> in \<open>int\<close>.\<close>

definition direction :: "u8 \<Rightarrow> u8 \<Rightarrow> nat" where
  "direction msk c = nat ((1 + uint (msk OR c)) div 2 ^ 8)"

fun GetBestMatch_loop :: "'v node \<Rightarrow> u8 list \<Rightarrow> u8 list option \<times> 'v" where
  "GetBestMatch_loop (ExternalNode k v) key = (k, v)"
| "GetBestMatch_loop (InternalNode child0 child1 byte msk) key =
    (if direction msk (char_at key (unat byte)) = 0 then GetBestMatch_loop child0 key
     else GetBestMatch_loop child1 key)"

definition GetBestMatch :: "'v critbit \<Rightarrow> u8 list \<Rightarrow> (u8 list option \<times> 'v) option" where
  "GetBestMatch t key = map_option (\<lambda>n. GetBestMatch_loop n key) t"

definition CritBit_Clear :: "'v critbit \<Rightarrow> 'v critbit" where
  "CritBit_Clear t = None"

definition CritBit_Contains :: "'v critbit \<Rightarrow> u8 list \<Rightarrow> bool option" where
  "CritBit_Contains t key =
    (case GetBestMatch t key of
       None \<Rightarrow> Some False
     | Some (match_key, _) \<Rightarrow> do { k \<leftarrow> match_key; Some (k = key) })"

definition CritBit_Get :: "'v critbit \<Rightarrow> u8 list \<Rightarrow> 'v option option" where
  "CritBit_Get t key =
    (case GetBestMatch t key of
       None \<Rightarrow> Some None
     | Some (match_key, v) \<Rightarrow> do { k \<leftarrow> match_key; if k \<noteq> key then Some None else Some (Some v) })"

definition GetLongestPrefixMatch :: "'v critbit \<Rightarrow> u8 list \<Rightarrow> 'v option" where
  "GetLongestPrefixMatch t key =
    (case GetBestMatch t key of None \<Rightarrow> None | Some (_, v) \<Rightarrow> Some v)"

text \<open>The loop that looks for the first differing byte.\<close>

function diff_loop :: "u8 list \<Rightarrow> u8 list \<Rightarrow> nat \<Rightarrow> nat" where
  "diff_loop p key i =
    (if char_at p i \<noteq> 0 \<and> char_at key i = char_at p i then diff_loop p key (i + 1) else i)"
  by auto
termination
  by (relation "measure (\<lambda>(p, _, i). length p - i)") (auto simp: char_at_def split: if_splits)

declare diff_loop.simps [simp del]

text \<open>The mask that has every bit but the most significant differing one.\<close>

definition critical_mask :: "u8 \<Rightarrow> u8 \<Rightarrow> u8" where
  "critical_mask u_char p_char =
    (let newmask = (ucast (u_char XOR p_char) :: u32);
         newmask = newmask OR drop_bit 1 newmask;
         newmask = newmask OR drop_bit 2 newmask;
         newmask = newmask OR drop_bit 4 newmask;
         newmask = (newmask AND NOT (drop_bit 1 newmask)) XOR 255
     in ucast newmask)"

fun InsertInternalNode :: "'v node \<Rightarrow> 'v node \<Rightarrow> u32 \<Rightarrow> u8 \<Rightarrow> nat \<Rightarrow> u8 list \<Rightarrow> 'v node" where
  "InsertInternalNode (ExternalNode k v) new_ext newbyte newmask newdir key =
    (if newdir = 0 then InternalNode (ExternalNode k v) new_ext newbyte newmask
     else InternalNode new_ext (ExternalNode k v) newbyte newmask)"
| "InsertInternalNode (InternalNode child0 child1 byte msk) new_ext newbyte newmask newdir key =
    (if byte > newbyte \<or> byte = newbyte \<and> msk > newmask
     then if newdir = 0 then InternalNode (InternalNode child0 child1 byte msk) new_ext newbyte newmask
          else InternalNode new_ext (InternalNode child0 child1 byte msk) newbyte newmask
     else if direction msk (char_at key (unat byte)) = 0
     then InternalNode (InsertInternalNode child0 new_ext newbyte newmask newdir key) child1 byte msk
     else InternalNode child0 (InsertInternalNode child1 new_ext newbyte newmask newdir key) byte msk)"

text \<open>Constructing a new value in the external node that the walk for \<open>key\<close> ends at.\<close>

fun overwrite_value :: "'v node \<Rightarrow> u8 list \<Rightarrow> 'v \<Rightarrow> 'v node" where
  "overwrite_value (ExternalNode k v) key val = ExternalNode k val"
| "overwrite_value (InternalNode child0 child1 byte msk) key val =
    (if direction msk (char_at key (unat byte)) = 0
     then InternalNode (overwrite_value child0 key val) child1 byte msk
     else InternalNode child0 (overwrite_value child1 key val) byte msk)"

text \<open>Whether the heap has memory for the external node, for the copy of its key, and for the internal node.\<close>

record heap_outcome =
  ext_ok :: bool
  key_ok :: bool
  int_ok :: bool

definition new_external :: "heap_outcome \<Rightarrow> u8 list \<Rightarrow> 'v \<Rightarrow> 'v node option" where
  "new_external h key val =
    (if ext_ok h then Some (ExternalNode (if key_ok h then Some key else None) val) else None)"

definition CritBit_Insert :: "bool \<Rightarrow> heap_outcome \<Rightarrow> 'v critbit \<Rightarrow> u8 list \<Rightarrow> 'v \<Rightarrow> (bool \<times> 'v critbit) option" where
  "CritBit_Insert ow h t key val =
    (case t of
       None \<Rightarrow> Some (case new_external h key val of None \<Rightarrow> (False, None) | Some n \<Rightarrow> (True, Some n))
     | Some root \<Rightarrow> do {
         p \<leftarrow> fst (GetBestMatch_loop root key);
         let i = diff_loop p key 0;
         if char_at key i = 0 \<and> char_at p i = 0
         then Some (if ow then (True, Some (overwrite_value root key val)) else (False, t))
         else do {
           let newbyte = (of_nat i :: u32);
           let u_char = char_at key (unat newbyte);
           let p_char = char_at p (unat newbyte);
           let msk = critical_mask u_char p_char;
           let dir = direction msk p_char;
           Some (case new_external h key val of
               None \<Rightarrow> (False, t)
             | Some new_ext_node \<Rightarrow>
                 if \<not> int_ok h then (False, t)
                 else (True, Some (InsertInternalNode root new_ext_node newbyte msk dir key))) } })"

text \<open>An empty result of the walk below a node means that the node's place is taken by the other child.\<close>

fun Remove_walk :: "'v node \<Rightarrow> u8 list \<Rightarrow> (bool \<times> 'v critbit) option" where
  "Remove_walk (ExternalNode k v) key = do {
     p \<leftarrow> k;
     if p \<noteq> key then Some (False, Some (ExternalNode k v)) else Some (True, None) }"
| "Remove_walk (InternalNode child0 child1 byte msk) key =
    (if direction msk (char_at key (unat byte)) = 0
     then do {
       (removed, c) \<leftarrow> Remove_walk child0 key;
       Some (removed, Some (case c of None \<Rightarrow> child1 | Some child0' \<Rightarrow> InternalNode child0' child1 byte msk)) }
     else do {
       (removed, c) \<leftarrow> Remove_walk child1 key;
       Some (removed, Some (case c of None \<Rightarrow> child0 | Some child1' \<Rightarrow> InternalNode child0 child1' byte msk)) })"

definition CritBit_Remove :: "'v critbit \<Rightarrow> u8 list \<Rightarrow> (bool \<times> 'v critbit) option" where
  "CritBit_Remove t key = (case t of None \<Rightarrow> Some (False, None) | Some root \<Rightarrow> Remove_walk root key)"

section \<open>Bits of keys\<close>

text \<open>The bits of a key in the order in which the tree tests them: byte by byte, the most significant bit first.\<close>

definition key_bit :: "u8 list \<Rightarrow> nat \<Rightarrow> bool" where
  "key_bit s n = bit (char_at s (n div 8)) (7 - n mod 8)"

definition valid_key :: "u8 list \<Rightarrow> bool" where
  "valid_key s \<longleftrightarrow> 0 \<notin> set s \<and> length s < 2 ^ 32"

definition mask_of :: "nat \<Rightarrow> u8" where
  "mask_of j = NOT (push_bit (7 - j) 1)"

lemma word8_eq_iff: "a = b \<longleftrightarrow> (\<forall>n<8. bit a n = bit b n)" for a b :: u8
  by (auto intro!: bit_word_eqI)

lemma direction_eq: "direction msk c = (if msk OR c = - 1 then 1 else 0)"
proof -
  let ?w = "msk OR c"
  have b: "0 \<le> uint ?w" "uint ?w < 256" using uint_lt2p [of ?w] by simp_all
  have u: "uint (- 1 :: u8) = 255" by (simp add: unsigned_minus_1_eq_mask mask_eq_exp_minus_1)
  show ?thesis
  proof (cases "?w = - 1")
    case True
    then show ?thesis unfolding direction_def True u by simp
  next
    case False
    then have "uint ?w \<noteq> 255" using u by (metis word_uint_eqI)
    then have "(1 + uint ?w) div 256 = 0" using b by (intro div_pos_pos_trivial) auto
    then show ?thesis using False by (simp add: direction_def)
  qed
qed

lemma direction_mask_of: "j < 8 \<Longrightarrow> direction (mask_of j) c = (if bit c (7 - j) then 1 else 0)"
proof -
  have "mask_of j OR c = - 1 \<longleftrightarrow> bit c (7 - j)"
    by (auto simp: mask_of_def word8_eq_iff bit_simps bit_1_iff)
  then show ?thesis by (simp add: direction_eq)
qed

lemma mask_of_less: "j < 8 \<Longrightarrow> k < 8 \<Longrightarrow> mask_of j < mask_of k \<longleftrightarrow> j < k"
proof -
  assume "j < 8" "k < 8"
  then have "j \<in> set [0..<8]" "k \<in> set [0..<8]" by simp_all
  moreover have "\<forall>j\<in>set [0..<8]. \<forall>k\<in>set [0..<8]. (mask_of j < mask_of k) = (j < k)" by code_simp
  ultimately show ?thesis by blast
qed

text \<open>The index of the most significant bit, counted from the top.\<close>

definition top_bit :: "u8 \<Rightarrow> nat" where
  "top_bit x = length (takeWhile (\<lambda>j. \<not> bit x (7 - j)) [0..<8])"

lemma top_bit:
  assumes "x \<noteq> 0"
  shows "top_bit x < 8" "bit x (7 - top_bit x)" "j < top_bit x \<Longrightarrow> \<not> bit x (7 - j)"
proof -
  let ?P = "\<lambda>j. \<not> bit x (7 - j)"
  obtain n where n: "bit x n" using assms by (auto simp: bit_eq_iff)
  then have "n < 8" using bit_imp_le_length by fastforce
  then have ex: "\<exists>j\<in>set [0..<8]. \<not> ?P j" using n by (intro bexI [of _ "7 - n"]) auto
  then have "takeWhile ?P [0..<8] \<noteq> [0..<8]" by (metis set_takeWhileD)
  then have l: "length (takeWhile ?P [0..<8]) < length [0..<8]"
    using length_takeWhile_le [of ?P "[0..<8]"] takeWhile_eq_take [of ?P "[0..<8]"]
    by (metis le_neq_implies_less take_all_iff)
  then show "top_bit x < 8" by (simp add: top_bit_def)
  from nth_length_takeWhile [OF l] l show "bit x (7 - top_bit x)" by (simp add: top_bit_def)
  show "\<not> bit x (7 - j)" if "j < top_bit x"
  proof -
    have "takeWhile ?P [0..<8] ! j \<in> set (takeWhile ?P [0..<8])" using that by (simp add: top_bit_def)
    moreover have "takeWhile ?P [0..<8] ! j = j" using that l by (simp add: top_bit_def takeWhile_nth)
    ultimately show ?thesis using set_takeWhileD by metis
  qed
qed

lemma bit_smear:
  fixes a :: u32
  assumes "\<And>n. bit a n = (\<exists>k<d. bit x (n + k))"
  shows "bit (a OR drop_bit d a) n = (\<exists>k<2 * d. bit x (n + k))"
proof -
  have "bit (a OR drop_bit d a) n \<longleftrightarrow> (\<exists>k<d. bit x (n + k)) \<or> (\<exists>k<d. bit x (n + d + k))"
    by (simp add: bit_or_iff bit_drop_bit_eq assms add.commute)
  also have "\<dots> \<longleftrightarrow> (\<exists>k<2 * d. bit x (n + k))"
  proof
    assume "\<exists>k<2 * d. bit x (n + k)"
    then obtain k where k: "k < 2 * d" "bit x (n + k)" by blast
    show "(\<exists>k<d. bit x (n + k)) \<or> (\<exists>k<d. bit x (n + d + k))"
    proof (cases "k < d")
      case False
      then have "k - d < d \<and> bit x (n + d + (k - d))" using k by simp
      then show ?thesis by blast
    qed (use k in blast)
  next
    assume "(\<exists>k<d. bit x (n + k)) \<or> (\<exists>k<d. bit x (n + d + k))"
    then show "\<exists>k<2 * d. bit x (n + k)"
    proof
      assume "\<exists>k<d. bit x (n + d + k)"
      then obtain k where "k < d" "bit x (n + d + k)" by blast
      then have "d + k < 2 * d \<and> bit x (n + (d + k))" by (simp add: add.assoc)
      then show ?thesis by blast
    qed (force intro: exI)
  qed
  finally show ?thesis .
qed

lemma critical_mask: 
  assumes "u \<noteq> p"
  shows "critical_mask u p = mask_of (top_bit (u XOR p))"
proof -
  define x where "x = u XOR p"
  have x: "x \<noteq> 0" using assms by (auto simp: x_def word8_eq_iff bit_simps)
  have hi: "bit x k \<Longrightarrow> k < 8" for k using bit_imp_le_length [of x k] by simp
  define m0 where "m0 = (ucast x :: u32)"
  define m1 where "m1 = m0 OR drop_bit 1 m0"
  define m2 where "m2 = m1 OR drop_bit 2 m1"
  define m3 where "m3 = m2 OR drop_bit 4 m2"
  have m0: "bit m0 n = (\<exists>k<1. bit x (n + k))" for n using hi [of n] by (auto simp: m0_def bit_simps)
  have m1: "bit m1 n = (\<exists>k<2. bit x (n + k))" for n using bit_smear [of m0 1 x n] m0 by (simp add: m1_def)
  have m2: "bit m2 n = (\<exists>k<4. bit x (n + k))" for n using bit_smear [of m1 2 x n] m1 by (simp add: m2_def)
  have m3: "bit m3 n = (\<exists>k<8. bit x (n + k))" for n using bit_smear [of m2 4 x n] m2 by (simp add: m3_def)
  have sm: "bit m3 n \<longleftrightarrow> n \<le> 7 - top_bit x" for n
  proof
    assume "bit m3 n"
    then obtain k where k: "bit x (n + k)" using m3 by blast
    then have "\<not> 7 - (n + k) < top_bit x" using top_bit(3) [OF x, of "7 - (n + k)"] hi [OF k] by auto
    then show "n \<le> 7 - top_bit x" using hi [OF k] by linarith
  next
    assume "n \<le> 7 - top_bit x"
    then have "n + (7 - top_bit x - n) = 7 - top_bit x" by (rule le_add_diff_inverse)
    then have "7 - top_bit x - n < 8" "bit x (n + (7 - top_bit x - n))" using top_bit(2) [OF x] by simp_all
    then show "bit m3 n" using m3 by blast
  qed
  have "critical_mask u p = ucast ((m3 AND NOT (drop_bit 1 m3)) XOR mask 8)"
  proof -
    have m: "(mask 8 :: u32) = 255" by (simp add: mask_eq_exp_minus_1)
    show ?thesis unfolding critical_mask_def Let_def m m3_def m2_def m1_def m0_def x_def ..
  qed
  moreover have "bit (ucast ((m3 AND NOT (drop_bit 1 m3)) XOR mask 8) :: u8) n = bit (mask_of (top_bit x)) n" if "n < 8" for n
    using that by (auto simp: mask_of_def bit_simps bit_1_iff sm)
  ultimately show ?thesis by (simp add: word8_eq_iff x_def)
qed

text \<open>Keys are determined by their bits.\<close>

lemma key_bits_char: "i < 8 \<Longrightarrow> key_bit s (8 * m + i) = bit (char_at s m) (7 - i)"
  by (simp add: key_bit_def)

lemma char_at_0: "valid_key s \<Longrightarrow> char_at s i = 0 \<longleftrightarrow> length s \<le> i"
  by (auto simp: char_at_def valid_key_def not_less dest: nth_mem)

text \<open>The critical bit of two different keys.\<close>

definition crit_bit :: "u8 list \<Rightarrow> u8 list \<Rightarrow> nat" where
  "crit_bit p key = (let i = diff_loop p key 0 in 8 * i + top_bit (char_at key i XOR char_at p i))"

lemma diff_loop:
  "i \<le> diff_loop p key i \<and> (\<forall>k. i \<le> k \<longrightarrow> k < diff_loop p key i \<longrightarrow> char_at p k \<noteq> 0 \<and> char_at key k = char_at p k) \<and>
   (char_at p (diff_loop p key i) = 0 \<or> char_at key (diff_loop p key i) \<noteq> char_at p (diff_loop p key i))"
proof (induction p key i rule: diff_loop.induct)
  case (1 p key i)
  show ?case
  proof (cases "char_at p i \<noteq> 0 \<and> char_at key i = char_at p i")
    case True
    then have "diff_loop p key i = diff_loop p key (i + 1)" by (subst diff_loop.simps) (rule if_P)
    then show ?thesis using 1 [OF True] True
      by (metis Suc_eq_plus1 Suc_leD Suc_leI le_neq_implies_less)
  next
    case False
    then have "diff_loop p key i = i" by (subst diff_loop.simps) (rule if_not_P)
    then show ?thesis using False by auto
  qed
qed

lemma diff_loop_length: "diff_loop p key 0 \<le> length p"
proof (rule ccontr)
  assume "\<not> ?thesis"
  then have "char_at p (length p) \<noteq> 0" using diff_loop [of 0 p key] by (meson not_le zero_le)
  then show False by (simp add: char_at_def)
qed

lemma diff_loop_equal:
  assumes "valid_key p" "valid_key key"
  shows "char_at key (diff_loop p key 0) = 0 \<and> char_at p (diff_loop p key 0) = 0 \<longleftrightarrow> p = key"
proof
  let ?i = "diff_loop p key 0"
  note d = diff_loop [of 0 p key]
  assume "char_at key ?i = 0 \<and> char_at p ?i = 0"
  then have le: "length key \<le> ?i" "length p \<le> ?i" using assms by (simp_all add: char_at_0)
  have eq: "char_at p k \<noteq> 0 \<and> char_at key k = char_at p k" if "k < ?i" for k using d that by blast
  have "length p = ?i" using eq [of "length p"] le(2) by (metis char_at_def le_neq_implies_less less_irrefl)
  moreover have "length key = ?i" using eq [of "length key"] le(1) by (metis char_at_def le_neq_implies_less less_irrefl)
  ultimately show "p = key" using eq by (intro nth_equalityI) (auto simp: char_at_def)
next
  assume "p = key"
  then show "char_at key (diff_loop p key 0) = 0 \<and> char_at p (diff_loop p key 0) = 0"
    using diff_loop [of 0 p key] by auto
qed

lemma crit_bit:
  assumes "valid_key p" "valid_key key" "p \<noteq> key"
  shows "key_bit key (crit_bit p key) \<noteq> key_bit p (crit_bit p key)"
    and "m < crit_bit p key \<Longrightarrow> key_bit key m = key_bit p m"
proof -
  let ?i = "diff_loop p key 0"
  let ?x = "char_at key ?i XOR char_at p ?i"
  note d = diff_loop [of 0 p key]
  have "char_at key ?i \<noteq> char_at p ?i"
    using d diff_loop_equal [OF assms(1,2)] assms(3) by auto
  then have x: "?x \<noteq> 0" by (auto simp: word8_eq_iff bit_simps)
  note top = top_bit [OF x]
  show "key_bit key (crit_bit p key) \<noteq> key_bit p (crit_bit p key)"
    using top(1,2) unfolding crit_bit_def Let_def by (auto simp: key_bits_char bit_xor_iff)
  show "key_bit key m = key_bit p m" if "m < crit_bit p key"
  proof (cases "m div 8 < ?i")
    case True
    then have "char_at key (m div 8) = char_at p (m div 8)" using d by blast
    then show ?thesis by (simp add: key_bit_def)
  next
    case False
    have "m < 8 * ?i + top_bit ?x" using that by (simp add: crit_bit_def Let_def)
    moreover from this have "m div 8 = ?i" using False top(1) by linarith
    moreover have "m = 8 * (m div 8) + m mod 8" by simp
    ultimately have "m div 8 = ?i" "m mod 8 < top_bit ?x" by (metis, metis add_less_cancel_left)
    then show ?thesis using top(3) [of "m mod 8"] by (simp add: key_bit_def bit_xor_iff)
  qed
qed

section \<open>The invariant\<close>

fun leaves :: "'v node \<Rightarrow> (u8 list \<times> 'v) list" where
  "leaves (ExternalNode k v) = (case k of None \<Rightarrow> [] | Some s \<Rightarrow> [(s, v)])"
| "leaves (InternalNode child0 child1 byte msk) = leaves child0 @ leaves child1"

abbreviation keys :: "'v node \<Rightarrow> u8 list set" where
  "keys n \<equiv> fst ` set (leaves n)"

text \<open>An internal node tests a bit at or behind \<open>lo\<close>; below it, all keys agree on the bits before.\<close>

definition tests :: "nat \<Rightarrow> u32 \<Rightarrow> u8 \<Rightarrow> bool" where
  "tests b byte msk \<longleftrightarrow> b div 8 = unat byte \<and> msk = mask_of (b mod 8)"

fun cb_inv :: "nat \<Rightarrow> 'v node \<Rightarrow> bool" where
  "cb_inv lo (ExternalNode k v) \<longleftrightarrow> (\<exists>s. k = Some s \<and> valid_key s)"
| "cb_inv lo (InternalNode child0 child1 byte msk) \<longleftrightarrow> (\<exists>b. tests b byte msk \<and> lo \<le> b \<and>
     (\<forall>s\<in>keys child0. \<not> key_bit s b) \<and> (\<forall>s\<in>keys child1. key_bit s b) \<and>
     (\<forall>s\<in>keys child0 \<union> keys child1. \<forall>t\<in>keys child0 \<union> keys child1. \<forall>m<b. key_bit s m = key_bit t m) \<and>
     cb_inv (b + 1) child0 \<and> cb_inv (b + 1) child1)"

definition tree_ok :: "'v critbit \<Rightarrow> bool" where
  "tree_ok t \<longleftrightarrow> (case t of None \<Rightarrow> True | Some n \<Rightarrow> cb_inv 0 n)"

definition tree_map :: "'v critbit \<Rightarrow> u8 list \<Rightarrow> 'v option" where
  "tree_map t = (case t of None \<Rightarrow> Map.empty | Some n \<Rightarrow> map_of (leaves n))"

lemma direction_tests: "tests b byte msk \<Longrightarrow> direction msk (char_at key (unat byte)) = (if key_bit key b then 1 else 0)"
  by (simp add: tests_def key_bit_def direction_mask_of)

lemma tests_less:
  assumes "tests b byte msk" "tests c byte2 msk2"
  shows "byte2 > byte \<or> byte2 = byte \<and> msk2 > msk \<longleftrightarrow> b < c"
proof -
  have bc: "b = 8 * unat byte + b mod 8" "c = 8 * unat byte2 + c mod 8"
    using assms mult_div_mod_eq [of 8 b] mult_div_mod_eq [of 8 c] unfolding tests_def by metis+
  have m: "msk2 > msk \<longleftrightarrow> b mod 8 < c mod 8" using assms mask_of_less [of "b mod 8" "c mod 8"] by (auto simp: tests_def)
  have "b mod 8 < 8" "c mod 8 < 8" by simp_all
  moreover have "byte2 > byte \<longleftrightarrow> unat byte < unat byte2" "byte2 = byte \<longleftrightarrow> unat byte2 = unat byte"
    by (simp_all add: word_less_nat_alt word_unat_eq_iff)
  ultimately show ?thesis unfolding m using bc by linarith
qed

lemma leaves_ne: "cb_inv lo n \<Longrightarrow> leaves n \<noteq> []"
  by (induction lo n rule: cb_inv.induct) auto

lemma cb_inv_valid: "cb_inv lo n \<Longrightarrow> s \<in> keys n \<Longrightarrow> valid_key s"
  by (induction lo n rule: cb_inv.induct) auto

lemma cb_inv_distinct: "cb_inv lo n \<Longrightarrow> distinct (map fst (leaves n))"
proof (induction n arbitrary: lo)
  case (InternalNode n0 n1 byte msk)
  then obtain b where b: "\<forall>s\<in>keys n0. \<not> key_bit s b" "\<forall>s\<in>keys n1. key_bit s b"
    "cb_inv (b + 1) n0" "cb_inv (b + 1) n1" by auto
  have "keys n0 \<inter> keys n1 = {}" using b(1,2) by blast
  then show ?case using InternalNode.IH(1) [OF b(3)] InternalNode.IH(2) [OF b(4)] by simp
qed auto

lemma map_of_leaves: "cb_inv lo n \<Longrightarrow> map_of (leaves n) k = Some v \<longleftrightarrow> (k, v) \<in> set (leaves n)"
  by (simp add: cb_inv_distinct map_of_eq_Some_iff)

text \<open>The walk ends at a leaf, and at the key's own leaf when it is in the tree.\<close>

lemma GetBestMatch_leaf:
  "cb_inv lo n \<Longrightarrow> \<exists>s v. GetBestMatch_loop n key = (Some s, v) \<and> (s, v) \<in> set (leaves n)"
proof (induction n arbitrary: lo)
  case (InternalNode n0 n1 byte msk)
  then obtain b where "cb_inv (b + 1) n0" "cb_inv (b + 1) n1" by auto
  from InternalNode.IH(1) [OF this(1)] InternalNode.IH(2) [OF this(2)] show ?case by auto
qed auto

lemma GetBestMatch_own:
  "cb_inv lo n \<Longrightarrow> (key, v) \<in> set (leaves n) \<Longrightarrow> GetBestMatch_loop n key = (Some key, v)"
proof (induction n arbitrary: lo)
  case (InternalNode n0 n1 byte msk)
  then obtain b where b: "tests b byte msk" "\<forall>s\<in>keys n0. \<not> key_bit s b" "\<forall>s\<in>keys n1. key_bit s b"
    "cb_inv (b + 1) n0" "cb_inv (b + 1) n1" by auto
  from InternalNode.prems(2) consider "(key, v) \<in> set (leaves n0)" | "(key, v) \<in> set (leaves n1)" by auto
  then show ?case
  proof cases
    case 1
    then have "\<not> key_bit key b" using b(2) by force
    then show ?thesis using InternalNode.IH(1) [OF b(4) 1] by (simp add: direction_tests [OF b(1)])
  next
    case 2
    then have "key_bit key b" using b(3) by force
    then show ?thesis using InternalNode.IH(2) [OF b(5) 2] by (simp add: direction_tests [OF b(1)])
  qed
qed (auto split: option.splits)

text \<open>Below a node all keys agree with some sequence of bits up to the one it tests.\<close>

lemma cb_inv_InternalI:
  assumes "tests b byte msk" "lo \<le> b" "\<forall>s\<in>keys n0. \<not> key_bit s b" "\<forall>s\<in>keys n1. key_bit s b"
    and "\<forall>s\<in>keys n0. \<forall>m<b. key_bit s m = f m" "\<forall>s\<in>keys n1. \<forall>m<b. key_bit s m = f m"
    and "cb_inv (b + 1) n0" "cb_inv (b + 1) n1"
  shows "cb_inv lo (InternalNode n0 n1 byte msk)"
proof -
  have "\<forall>s\<in>keys n0 \<union> keys n1. \<forall>t\<in>keys n0 \<union> keys n1. \<forall>m<b. key_bit s m = key_bit t m"
    using assms(5,6) by (metis Un_iff)
  then show ?thesis using assms(1-4,7,8) unfolding cb_inv.simps by blast
qed

text \<open>An insertion above a node: the critical bit separates the new leaf from the keys below.\<close>

definition joined :: "'v node \<Rightarrow> 'v node \<Rightarrow> u32 \<Rightarrow> u8 \<Rightarrow> bool \<Rightarrow> 'v node" where
  "joined n new_ext newbyte newmask pbit =
    (if \<not> pbit then InternalNode n new_ext newbyte newmask else InternalNode new_ext n newbyte newmask)"

lemma joined_inv:
  assumes "tests d newbyte newmask" "lo \<le> d" "cb_inv (d + 1) n" "valid_key key"
    and "\<forall>s\<in>keys n. key_bit s d = pbit" "key_bit key d \<noteq> pbit"
    and "\<forall>s\<in>keys n. \<forall>m<d. key_bit s m = key_bit key m"
  shows "cb_inv lo (joined n (ExternalNode (Some key) v) newbyte newmask pbit)"
    and "set (leaves (joined n (ExternalNode (Some key) v) newbyte newmask pbit)) = insert (key, v) (set (leaves n))"
proof -
  show "cb_inv lo (joined n (ExternalNode (Some key) v) newbyte newmask pbit)"
  proof (cases pbit)
    case True
    then have j: "joined n (ExternalNode (Some key) v) newbyte newmask pbit = InternalNode (ExternalNode (Some key) v) n newbyte newmask"
      by (simp add: joined_def)
    show ?thesis
      unfolding j by (rule cb_inv_InternalI [OF assms(1,2) _ _ _ assms(7) _ assms(3)]) (use assms(4-6) True in simp_all)
  next
    case False
    then have j: "joined n (ExternalNode (Some key) v) newbyte newmask pbit = InternalNode n (ExternalNode (Some key) v) newbyte newmask"
      by (simp add: joined_def)
    show ?thesis
      unfolding j by (rule cb_inv_InternalI [OF assms(1,2) _ _ assms(7) _ assms(3)]) (use assms(4-6) False in simp_all)
  qed
qed (auto simp: joined_def)

lemma Insert_walk:
  assumes "cb_inv lo n" "lo \<le> d" "tests d newbyte newmask" "valid_key key"
    and "GetBestMatch_loop n key = (Some p, w)" "key_bit key d \<noteq> key_bit p d" "\<forall>m<d. key_bit key m = key_bit p m"
    and "newdir = (if key_bit p d then 1 else 0)"
  shows "cb_inv lo (InsertInternalNode n (ExternalNode (Some key) v) newbyte newmask newdir key) \<and>
    set (leaves (InsertInternalNode n (ExternalNode (Some key) v) newbyte newmask newdir key)) = insert (key, v) (set (leaves n))"
  using assms(1,2,5)
proof (induction n arbitrary: lo)
  case (ExternalNode k u)
  then have ins: "InsertInternalNode (ExternalNode k u) (ExternalNode (Some key) v) newbyte newmask newdir key =
      joined (ExternalNode k u) (ExternalNode (Some key) v) newbyte newmask (key_bit p d)"
    using assms(8) by (simp add: joined_def)
  have "keys (ExternalNode k u) = {p}" "cb_inv (d + 1) (ExternalNode k u)" using ExternalNode.prems by auto
  then show ?case
    unfolding ins
    using joined_inv [OF assms(3) ExternalNode.prems(2), of "ExternalNode k u" key "key_bit p d" v] assms(4,6,7) by auto
next
  case (InternalNode n0 n1 byte msk)
  let ?n = "InternalNode n0 n1 byte msk" and ?new = "ExternalNode (Some key) v"
  obtain b where b: "tests b byte msk" "lo \<le> b" "\<forall>s\<in>keys n0. \<not> key_bit s b" "\<forall>s\<in>keys n1. key_bit s b"
    "\<forall>s\<in>keys n0 \<union> keys n1. \<forall>t\<in>keys n0 \<union> keys n1. \<forall>m<b. key_bit s m = key_bit t m"
    "cb_inv (b + 1) n0" "cb_inv (b + 1) n1" using InternalNode.prems(1) by auto
  have p: "p \<in> keys ?n" using GetBestMatch_leaf [OF InternalNode.prems(1), of key] InternalNode.prems(3) by force
  show ?case
  proof (cases "d < b")
    case True
    have ins: "InsertInternalNode ?n ?new newbyte newmask newdir key = joined ?n ?new newbyte newmask (key_bit p d)"
      using True tests_less [OF assms(3) b(1)] assms(8) by (simp add: joined_def)
    have inv: "cb_inv (d + 1) ?n"
      using True unfolding cb_inv.simps by (intro exI [of _ b] conjI b) simp
    have eq: "\<forall>s\<in>keys ?n. \<forall>m<b. key_bit s m = key_bit p m"
      using b(5) p unfolding leaves.simps set_append image_Un by blast
    have eq_d: "\<forall>s\<in>keys ?n. key_bit s d = key_bit p d" using eq True by blast
    have eq_m: "\<forall>s\<in>keys ?n. \<forall>m<d. key_bit s m = key_bit key m"
      using eq True assms(7) by (meson order.strict_trans)
    show ?thesis
      unfolding ins by (intro conjI joined_inv [OF assms(3) InternalNode.prems(2) inv assms(4) eq_d assms(6) eq_m])
  next
    case False
    have walk: "GetBestMatch_loop ?n key = GetBestMatch_loop (if key_bit key b then n1 else n0) key"
      by (simp add: direction_tests [OF b(1)])
    have ch: "cb_inv (b + 1) (if key_bit key b then n1 else n0)" using b(6,7) by simp
    have pk: "p \<in> keys (if key_bit key b then n1 else n0)"
      using GetBestMatch_leaf [OF ch, of key] InternalNode.prems(3) walk by force
    then have "key_bit p b = key_bit key b" using b(3,4) by (auto split: if_splits)
    then have lt: "b < d" using False assms(6) by (metis linorder_neqE_nat)
    have ins: "InsertInternalNode ?n ?new newbyte newmask newdir key =
       (if key_bit key b then InternalNode n0 (InsertInternalNode n1 ?new newbyte newmask newdir key) byte msk
        else InternalNode (InsertInternalNode n0 ?new newbyte newmask newdir key) n1 byte msk)"
    proof -
      have nb: "\<not> (byte > newbyte \<or> byte = newbyte \<and> msk > newmask)" using False tests_less [OF assms(3) b(1)] by blast
      show ?thesis unfolding InsertInternalNode.simps(2) if_not_P [OF nb] direction_tests [OF b(1)] by simp
    qed
    have agree: "\<forall>s\<in>keys n0 \<union> keys n1. \<forall>m<b. key_bit s m = key_bit key m"
    proof -
      have "p \<in> keys n0 \<union> keys n1" using p by (simp add: image_Un)
      then have "\<forall>s\<in>keys n0 \<union> keys n1. \<forall>m<b. key_bit s m = key_bit p m" using b(5) by blast
      then show ?thesis using assms(7) lt by simp
    qed
    show ?thesis
    proof (cases "key_bit key b")
      case True
      have "GetBestMatch_loop n1 key = (Some p, w)" using InternalNode.prems(3) walk True by simp
      then have ih: "cb_inv (b + 1) (InsertInternalNode n1 ?new newbyte newmask newdir key)"
        "set (leaves (InsertInternalNode n1 ?new newbyte newmask newdir key)) = insert (key, v) (set (leaves n1))"
        using InternalNode.IH(2) [OF b(7)] lt by simp_all
      have "cb_inv lo (InternalNode n0 (InsertInternalNode n1 ?new newbyte newmask newdir key) byte msk)"
        by (rule cb_inv_InternalI [OF b(1-3) _ _ _ b(6) ih(1), where f = "key_bit key"]) (use ih(2) True b(4) agree in auto)
      then show ?thesis unfolding ins if_P [OF True] using ih(2) by auto
    next
      case False
      have "GetBestMatch_loop n0 key = (Some p, w)" using InternalNode.prems(3) walk False by simp
      then have ih: "cb_inv (b + 1) (InsertInternalNode n0 ?new newbyte newmask newdir key)"
        "set (leaves (InsertInternalNode n0 ?new newbyte newmask newdir key)) = insert (key, v) (set (leaves n0))"
        using InternalNode.IH(1) [OF b(6)] lt by simp_all
      have "cb_inv lo (InternalNode (InsertInternalNode n0 ?new newbyte newmask newdir key) n1 byte msk)"
        by (rule cb_inv_InternalI [OF b(1,2) _ b(4) _ _ ih(1) b(7), where f = "key_bit key"]) (use ih(2) False b(3) agree in auto)
      then show ?thesis unfolding ins if_not_P [OF False] using ih(2) by auto
    qed
  qed
qed

section \<open>The operations\<close>

definition good_heap :: heap_outcome where
  "good_heap = \<lparr>ext_ok = True, key_ok = True, int_ok = True\<rparr>"

lemma tests_crit_bit:
  assumes "valid_key p" "valid_key key" "p \<noteq> key"
  defines "i \<equiv> diff_loop p key 0"
  shows "tests (crit_bit p key) (of_nat i) (critical_mask (char_at key i) (char_at p i))"
    and "unat (of_nat i :: u32) = i"
    and "direction (critical_mask (char_at key i) (char_at p i)) (char_at p i) = (if key_bit p (crit_bit p key) then 1 else 0)"
proof -
  let ?x = "char_at key i XOR char_at p i"
  have "i < 2 ^ 32" using diff_loop_length [of p key] assms(1) by (simp add: i_def valid_key_def)
  then show u: "unat (of_nat i :: u32) = i" by (simp add: unat_of_nat)
  have ne: "char_at key i \<noteq> char_at p i"
    using diff_loop [of 0 p key] diff_loop_equal [OF assms(1,2)] assms(3) by (auto simp: i_def)
  then have t: "top_bit ?x < 8" by (intro top_bit(1)) (auto simp: word8_eq_iff bit_simps)
  have c: "crit_bit p key = 8 * i + top_bit ?x" by (simp add: crit_bit_def i_def Let_def)
  show tests: "tests (crit_bit p key) (of_nat i) (critical_mask (char_at key i) (char_at p i))"
    using t by (simp add: tests_def u c critical_mask [OF ne])
  show "direction (critical_mask (char_at key i) (char_at p i)) (char_at p i) = (if key_bit p (crit_bit p key) then 1 else 0)"
    using direction_tests [OF tests, of p] by (simp add: u)
qed

lemma cb_inv_mono: "cb_inv lo n \<Longrightarrow> lo2 \<le> lo \<Longrightarrow> cb_inv lo2 n"
proof (cases n)
  case (InternalNode n0 n1 byte msk)
  assume "cb_inv lo n" "lo2 \<le> lo"
  then show ?thesis
    unfolding InternalNode cb_inv.simps by (elim exE conjE) (intro exI conjI, (assumption | erule (1) order.trans)+)
qed simp

lemma Insert_new:
  assumes "cb_inv 0 n" "valid_key key" "key \<notin> keys n"
  shows "\<exists>n'. CritBit_Insert ow good_heap (Some n) key v = Some (True, Some n') \<and> cb_inv 0 n' \<and>
    set (leaves n') = insert (key, v) (set (leaves n))"
proof -
  obtain p w where p: "GetBestMatch_loop n key = (Some p, w)" "(p, w) \<in> set (leaves n)"
    using GetBestMatch_leaf [OF assms(1)] by blast
  have pk: "valid_key p" "p \<noteq> key" using p(2) assms(3) cb_inv_valid [OF assms(1), of p] by force+
  note c = tests_crit_bit [OF pk(1) assms(2) pk(2)]
  note cb = crit_bit [OF pk(1) assms(2) pk(2)]
  have nz: "\<not> (char_at key (diff_loop p key 0) = 0 \<and> char_at p (diff_loop p key 0) = 0)"
    using diff_loop_equal [OF pk(1) assms(2)] pk(2) by simp
  have "CritBit_Insert ow good_heap (Some n) key v = Some (True, Some (InsertInternalNode n (ExternalNode (Some key) v)
      (of_nat (diff_loop p key 0)) (critical_mask (char_at key (diff_loop p key 0)) (char_at p (diff_loop p key 0)))
      (if key_bit p (crit_bit p key) then 1 else 0) key))"
    by (simp add: CritBit_Insert_def Let_def p(1) c(2,3) new_external_def good_heap_def if_not_P [OF nz])
  moreover have "\<forall>m<crit_bit p key. key_bit key m = key_bit p m" using cb(2) by blast
  note Insert_walk [OF assms(1) _ c(1) assms(2) p(1) cb(1) this refl, of v]
  ultimately show ?thesis by blast
qed

lemma Insert_present:
  assumes "cb_inv 0 n" "key \<in> keys n"
  shows "CritBit_Insert False h (Some n) key v = Some (False, Some n)"
proof -
  from assms(2) obtain w where "(key, w) \<in> set (leaves n)" by force
  from GetBestMatch_own [OF assms(1) this] show ?thesis
    using diff_loop [of 0 key key] by (auto simp: CritBit_Insert_def Let_def)
qed

lemma Remove_walk:
  "cb_inv lo n \<Longrightarrow> \<exists>c. Remove_walk n key = Some (key \<in> keys n, c) \<and>
     (case c of None \<Rightarrow> keys n = {key} | Some n' \<Rightarrow> cb_inv lo n' \<and> set (leaves n') = {(k, v) \<in> set (leaves n). k \<noteq> key})"
proof (induction n arbitrary: lo)
  case (InternalNode n0 n1 byte msk)
  let ?n = "InternalNode n0 n1 byte msk"
  obtain b where b: "tests b byte msk" "lo \<le> b" "\<forall>s\<in>keys n0. \<not> key_bit s b" "\<forall>s\<in>keys n1. key_bit s b"
    "\<forall>s\<in>keys n0 \<union> keys n1. \<forall>t\<in>keys n0 \<union> keys n1. \<forall>m<b. key_bit s m = key_bit t m"
    "cb_inv (b + 1) n0" "cb_inv (b + 1) n1" using InternalNode.prems by auto
  have all: "{(k, v) \<in> set (leaves ?n). k \<noteq> key} =
      {(k, v) \<in> set (leaves n0). k \<noteq> key} \<union> {(k, v) \<in> set (leaves n1). k \<noteq> key}" by auto
  obtain t where t: "t \<in> keys n0" using leaves_ne [OF b(6)] by (cases "leaves n0") auto
  have agree: "\<forall>s\<in>keys n0. \<forall>m<b. key_bit s m = key_bit t m" "\<forall>s\<in>keys n1. \<forall>m<b. key_bit s m = key_bit t m"
    using b(5) t by blast+
  show ?case
  proof (cases "key_bit key b")
    case False
    then have key: "key \<notin> keys n1" using b(4) by blast
    then have in1: "{(k, v) \<in> set (leaves n1). k \<noteq> key} = set (leaves n1)" by force
    have kn: "(key \<in> keys ?n) = (key \<in> keys n0)" using key by (simp add: image_Un)
    obtain c where c: "Remove_walk n0 key = Some (key \<in> keys n0, c)"
      "case c of None \<Rightarrow> keys n0 = {key} | Some n' \<Rightarrow> cb_inv (b + 1) n' \<and> set (leaves n') = {(k, v) \<in> set (leaves n0). k \<noteq> key}"
      using InternalNode.IH(1) [OF b(6)] by blast
    have step: "Remove_walk ?n key = Some (key \<in> keys n0, Some (case c of None \<Rightarrow> n1 | Some n' \<Rightarrow> InternalNode n' n1 byte msk))"
      using False by (simp add: direction_tests [OF b(1)] c(1))
    show ?thesis
    proof (cases c)
      case None
      then have e: "{(k, v) \<in> set (leaves n0). k \<noteq> key} = {}" using c(2) by force
      show ?thesis unfolding step kn all e using None in1 cb_inv_mono [OF b(7)] b(2) by simp
    next
      case (Some n')
      then have n': "cb_inv (b + 1) n'" "set (leaves n') = {(k, v) \<in> set (leaves n0). k \<noteq> key}" using c(2) by simp_all
      then have sub: "keys n' \<subseteq> keys n0" by force
      have "cb_inv lo (InternalNode n' n1 byte msk)"
        by (rule cb_inv_InternalI [OF b(1,2) _ b(4) _ agree(2) n'(1) b(7)]) (use sub b(3) agree(1) in blast)+
      then show ?thesis unfolding step kn all using Some in1 n'(2) by simp
    qed
  next
    case True
    then have key: "key \<notin> keys n0" using b(3) by blast
    then have in0: "{(k, v) \<in> set (leaves n0). k \<noteq> key} = set (leaves n0)" by force
    have kn: "(key \<in> keys ?n) = (key \<in> keys n1)" using key by (simp add: image_Un)
    obtain c where c: "Remove_walk n1 key = Some (key \<in> keys n1, c)"
      "case c of None \<Rightarrow> keys n1 = {key} | Some n' \<Rightarrow> cb_inv (b + 1) n' \<and> set (leaves n') = {(k, v) \<in> set (leaves n1). k \<noteq> key}"
      using InternalNode.IH(2) [OF b(7)] by blast
    have step: "Remove_walk ?n key = Some (key \<in> keys n1, Some (case c of None \<Rightarrow> n0 | Some n' \<Rightarrow> InternalNode n0 n' byte msk))"
      using True by (simp add: direction_tests [OF b(1)] c(1))
    show ?thesis
    proof (cases c)
      case None
      then have e: "{(k, v) \<in> set (leaves n1). k \<noteq> key} = {}" using c(2) by force
      show ?thesis unfolding step kn all e using None in0 cb_inv_mono [OF b(6)] b(2) by simp
    next
      case (Some n')
      then have n': "cb_inv (b + 1) n'" "set (leaves n') = {(k, v) \<in> set (leaves n1). k \<noteq> key}" using c(2) by simp_all
      then have sub: "keys n' \<subseteq> keys n1" by force
      have "cb_inv lo (InternalNode n0 n' byte msk)"
        by (rule cb_inv_InternalI [OF b(1-3) _ agree(1) _ b(6) n'(1)]) (use sub b(4) agree(2) in blast)+
      then show ?thesis unfolding step kn all using Some in0 n'(2) by simp
    qed
  qed
qed auto

section \<open>The contract of a map\<close>

text \<open>What a client of a map from strings relies on, and sequences of requests against one.\<close>

datatype 'v request = RInsert "u8 list" 'v | RRemove "u8 list" | RGet "u8 list" | RContains "u8 list"

datatype 'v answer = AFlag bool | AValue "'v option"

fun map_step :: "(u8 list \<rightharpoonup> 'v) \<Rightarrow> 'v request \<Rightarrow> 'v answer \<times> (u8 list \<rightharpoonup> 'v)" where
  "map_step m (RInsert k v) = (AFlag (m k = None), if m k = None then m(k \<mapsto> v) else m)"
| "map_step m (RRemove k) = (AFlag (m k \<noteq> None), m(k := None))"
| "map_step m (RGet k) = (AValue (m k), m)"
| "map_step m (RContains k) = (AFlag (m k \<noteq> None), m)"

fun map_run :: "(u8 list \<rightharpoonup> 'v) \<Rightarrow> 'v request list \<Rightarrow> 'v answer list" where
  "map_run m [] = []"
| "map_run m (r # rs) = fst (map_step m r) # map_run (snd (map_step m r)) rs"

fun request_ok :: "'v request \<Rightarrow> bool" where
  "request_ok (RInsert k v) = valid_key k"
| "request_ok _ = True"

fun client_step ::
  "('t \<Rightarrow> u8 list \<Rightarrow> 'v option option) \<Rightarrow> ('t \<Rightarrow> u8 list \<Rightarrow> bool option) \<Rightarrow>
   ('t \<Rightarrow> u8 list \<Rightarrow> 'v \<Rightarrow> (bool \<times> 't) option) \<Rightarrow> ('t \<Rightarrow> u8 list \<Rightarrow> (bool \<times> 't) option) \<Rightarrow>
   't \<Rightarrow> 'v request \<Rightarrow> ('v answer \<times> 't) option" where
  "client_step lkp has ins del t (RInsert k v) = do { (b, t') \<leftarrow> ins t k v; Some (AFlag b, t') }"
| "client_step lkp has ins del t (RRemove k) = do { (b, t') \<leftarrow> del t k; Some (AFlag b, t') }"
| "client_step lkp has ins del t (RGet k) = do { v \<leftarrow> lkp t k; Some (AValue v, t) }"
| "client_step lkp has ins del t (RContains k) = do { b \<leftarrow> has t k; Some (AFlag b, t) }"

fun client_run ::
  "('t \<Rightarrow> 'v request \<Rightarrow> ('v answer \<times> 't) option) \<Rightarrow> 't \<Rightarrow> 'v request list \<Rightarrow> ('v answer list \<times> 't) option" where
  "client_run stp t [] = Some ([], t)"
| "client_run stp t (r # rs) = do { (a, t1) \<leftarrow> stp t r; (as, t2) \<leftarrow> client_run stp t1 rs; Some (a # as, t2) }"

locale string_map =
  fixes ok :: "'t \<Rightarrow> bool" and contents :: "'t \<Rightarrow> u8 list \<Rightarrow> 'v option"
    and lkp :: "'t \<Rightarrow> u8 list \<Rightarrow> 'v option option" and has :: "'t \<Rightarrow> u8 list \<Rightarrow> bool option"
    and ins :: "'t \<Rightarrow> u8 list \<Rightarrow> 'v \<Rightarrow> (bool \<times> 't) option" and del :: "'t \<Rightarrow> u8 list \<Rightarrow> (bool \<times> 't) option"
  assumes lkp: "ok t \<Longrightarrow> lkp t k = Some (contents t k)"
    and has: "ok t \<Longrightarrow> has t k = Some (contents t k \<noteq> None)"
    and ins: "ok t \<Longrightarrow> valid_key k \<Longrightarrow> \<exists>t'. ins t k v = Some (contents t k = None, t') \<and> ok t' \<and>
      contents t' = (if contents t k = None then (contents t)(k \<mapsto> v) else contents t)"
    and del: "ok t \<Longrightarrow> \<exists>t'. del t k = Some (contents t k \<noteq> None, t') \<and> ok t' \<and> contents t' = (contents t)(k := None)"
begin

lemma step_map:
  assumes "ok t" "request_ok r"
  shows "\<exists>t'. client_step lkp has ins del t r = Some (fst (map_step (contents t) r), t') \<and> ok t' \<and> contents t' = snd (map_step (contents t) r)"
proof (cases r)
  case (RInsert k v)
  then show ?thesis using ins [OF assms(1), of k v] assms(2) by auto
next
  case (RRemove k)
  then show ?thesis using del [OF assms(1), of k] by auto
next
  case (RGet k)
  then show ?thesis using lkp [OF assms(1), of k] assms(1) by simp
next
  case (RContains k)
  then show ?thesis using has [OF assms(1), of k] assms(1) by simp
qed

lemma run_map:
  "ok t \<Longrightarrow> list_all request_ok rs \<Longrightarrow>
   \<exists>t'. client_run (client_step lkp has ins del) t rs = Some (map_run (contents t) rs, t') \<and> ok t'"
proof (induction rs arbitrary: t)
  case (Cons r rs)
  then obtain t1 where t1: "client_step lkp has ins del t r = Some (fst (map_step (contents t) r), t1)" "ok t1"
    "contents t1 = snd (map_step (contents t) r)" using step_map [of t r] by auto
  obtain t2 where t2: "client_run (client_step lkp has ins del) t1 rs = Some (map_run (contents t1) rs, t2)" "ok t2"
    using Cons.IH [OF t1(2)] Cons.prems(2) by auto
  show ?case using t1 t2 by simp
qed simp

end

section \<open>The tree is a map\<close>

lemma tree_map_Some: "cb_inv lo n \<Longrightarrow> tree_map (Some n) k = Some v \<longleftrightarrow> (k, v) \<in> set (leaves n)"
  by (simp add: tree_map_def map_of_leaves)

lemma tree_map_None: "tree_map (Some n) k = None \<longleftrightarrow> k \<notin> keys n"
  by (simp add: tree_map_def map_of_eq_None_iff)

lemma tree_mapI:
  assumes "cb_inv lo n" "\<And>k v. m k = Some v \<longleftrightarrow> (k, v) \<in> set (leaves n)"
  shows "tree_map (Some n) = m"
proof
  fix k
  show "tree_map (Some n) k = m k"
    using assms(2) [of k] tree_map_Some [OF assms(1), of k] by (metis not_Some_eq)
qed

lemma CritBit_find: "tree_ok t \<Longrightarrow> CritBit_Get t k = Some (tree_map t k)"
proof (cases t)
  case (Some n)
  assume "tree_ok t"
  then have inv: "cb_inv 0 n" using Some by (simp add: tree_ok_def)
  show ?thesis
  proof (cases "tree_map t k")
    case None
    then have "k \<notin> keys n" using Some by (simp add: tree_map_None)
    then show ?thesis using GetBestMatch_leaf [OF inv, of k] None Some by (force simp: CritBit_Get_def GetBestMatch_def)
  next
    case (Some v)
    then have "GetBestMatch_loop n k = (Some k, v)"
      using GetBestMatch_own [OF inv] tree_map_Some [OF inv] \<open>t = Some n\<close> by simp
    then show ?thesis using Some \<open>t = Some n\<close> by (simp add: CritBit_Get_def GetBestMatch_def)
  qed
qed (simp add: CritBit_Get_def GetBestMatch_def tree_map_def)

lemma CritBit_Contains_Get: "CritBit_Contains t k = map_option (\<lambda>r. r \<noteq> None) (CritBit_Get t k)"
  by (auto simp: CritBit_Contains_def CritBit_Get_def split: option.splits bind_splits)

lemma CritBit_ins:
  assumes "tree_ok t" "valid_key k"
  shows "\<exists>t'. CritBit_Insert False good_heap t k v = Some (tree_map t k = None, t') \<and> tree_ok t' \<and>
    tree_map t' = (if tree_map t k = None then (tree_map t)(k \<mapsto> v) else tree_map t)"
proof (cases t)
  case None
  then show ?thesis
    using assms(2) by (auto simp: CritBit_Insert_def new_external_def good_heap_def tree_ok_def tree_map_def)
next
  case (Some n)
  then have inv: "cb_inv 0 n" using assms(1) by (simp add: tree_ok_def)
  show ?thesis
  proof (cases "k \<in> keys n")
    case True
    then obtain y where "tree_map (Some n) k = Some y" using tree_map_None by fastforce
    then show ?thesis using Insert_present [OF inv True] assms(1) Some by simp
  next
    case False
    obtain n' where n': "CritBit_Insert False good_heap (Some n) k v = Some (True, Some n')" "cb_inv 0 n'"
      "set (leaves n') = insert (k, v) (set (leaves n))" using Insert_new [OF inv assms(2) False] by blast
    have nk: "tree_map (Some n) k = None" "(k, u) \<notin> set (leaves n)" for u using False by (force simp: tree_map_None)+
    have "tree_map (Some n') = (tree_map (Some n))(k \<mapsto> v)"
      by (rule tree_mapI [OF n'(2)]) (use n'(3) nk(2) tree_map_Some [OF inv] in \<open>auto simp: fun_upd_def\<close>)
    then show ?thesis using n'(1,2) nk Some by (simp add: tree_ok_def)
  qed
qed

lemma CritBit_del:
  assumes "tree_ok t"
  shows "\<exists>t'. CritBit_Remove t k = Some (tree_map t k \<noteq> None, t') \<and> tree_ok t' \<and> tree_map t' = (tree_map t)(k := None)"
proof (cases t)
  case None
  then show ?thesis by (auto simp: CritBit_Remove_def tree_ok_def tree_map_def)
next
  case (Some n)
  then have inv: "cb_inv 0 n" using assms by (simp add: tree_ok_def)
  obtain c where c: "Remove_walk n k = Some (k \<in> keys n, c)"
    "case c of None \<Rightarrow> keys n = {k} | Some n' \<Rightarrow> cb_inv 0 n' \<and> set (leaves n') = {(k2, v) \<in> set (leaves n). k2 \<noteq> k}"
    using Remove_walk [OF inv, of k] by blast
  have "tree_ok c \<and> tree_map c = (tree_map t)(k := None)"
  proof (cases c)
    case None
    then have "tree_map (Some n) k2 = None" if "k2 \<noteq> k" for k2 using c(2) that by (simp add: tree_map_None)
    then show ?thesis using None Some by (auto simp: tree_ok_def tree_map_def fun_eq_iff)
  next
    case (Some n')
    then have n': "cb_inv 0 n'" "set (leaves n') = {(k2, v) \<in> set (leaves n). k2 \<noteq> k}" using c(2) by simp_all
    have "tree_map (Some n') = (tree_map (Some n))(k := None)"
      by (rule tree_mapI [OF n'(1)]) (use n'(2) tree_map_Some [OF inv] in auto)
    then show ?thesis using n'(1) Some \<open>t = Some n\<close> by (simp add: tree_ok_def)
  qed
  then show ?thesis using c(1) Some tree_map_None [of n k] by (simp add: CritBit_Remove_def)
qed

interpretation cb: string_map tree_ok tree_map CritBit_Get CritBit_Contains "CritBit_Insert False good_heap" CritBit_Remove
proof unfold_locales
  show "CritBit_Contains t k = Some (tree_map t k \<noteq> None)" if "tree_ok t" for t :: "'a critbit" and k
    using that by (simp add: CritBit_Contains_Get CritBit_find)
qed (rule CritBit_find CritBit_ins CritBit_del; assumption)+

text \<open>An insertion that runs out of memory for a node changes nothing.\<close>

lemma CritBit_Insert_no_memory:
  assumes "tree_ok t" "\<not> ext_ok h \<or> t \<noteq> None \<and> \<not> int_ok h"
  shows "CritBit_Insert False h t k v = Some (False, t)"
proof (cases t)
  case None
  then show ?thesis using assms(2) by (simp add: CritBit_Insert_def new_external_def)
next
  case (Some n)
  then have "cb_inv 0 n" using assms(1) by (simp add: tree_ok_def)
  then obtain p w where "GetBestMatch_loop n k = (Some p, w)" using GetBestMatch_leaf by blast
  then show ?thesis
    using Some assms(2) by (cases "ext_ok h") (simp_all add: CritBit_Insert_def new_external_def Let_def)
qed

section \<open>Properties\<close>

text \<open>
  C1: Any sequence of insertions, removals and lookups on an initially empty crit-bit tree, with memory for the
  nodes, runs without a panic and answers every request as a map from strings does.
\<close>

theorem CritBit_refines_map:
  assumes "list_all request_ok rs"
  shows "\<exists>t. client_run (client_step CritBit_Get CritBit_Contains (CritBit_Insert False good_heap) CritBit_Remove) None rs =
    Some (map_run Map.empty rs, t) \<and> tree_ok t"
  using cb.run_map [OF _ assms, of None] by (simp add: tree_ok_def tree_map_def)

theorem CritBit_refines_map_witness:
  "\<exists>t. client_run (client_step CritBit_Get CritBit_Contains (CritBit_Insert False good_heap) CritBit_Remove) None
     [RInsert [0x2F] (1 :: nat), RInsert [0x2F, 0x61] 2, RInsert [0x2F] 3, RRemove [0x2F], RGet [0x2F, 0x61], RContains [0x2F]] =
    Some ([AFlag True, AFlag True, AFlag False, AFlag True, AValue (Some 2), AFlag False], t) \<and> tree_ok t"
  using CritBit_refines_map [of "[RInsert [0x2F] (1 :: nat), RInsert [0x2F, 0x61] 2, RInsert [0x2F] 3, RRemove [0x2F],
    RGet [0x2F, 0x61], RContains [0x2F]]"] by (simp add: valid_key_def)

end
