(* ===== verification/Vfs_Module.thy ===== *)
theory Vfs_Module
  imports Fat_Ops Critbit
begin

text \<open>
  The virtual file system (\<open>kernel/src/modules/vfs.cpp\<close>, \<open>kernel/src/fs/vfs/types.hpp\<close>): mount points in a crit-bit tree, the
  table of operations through which a file system driver is called, and the dispatch of every operation to
  the driver of the mount point of a path.

  The context pointer of a driver is a number, and the driver's object is the state at that number.
  A mount point is stored under the text of its path, so that two pointers to mount points are equal exactly when
  the texts are.
\<close>

section \<open>Drivers\<close>

record 'fs Operations =
  op_create_file :: "'fs \<Rightarrow> path \<Rightarrow> ((VfsError, unit) expected \<times> 'fs) option"
  op_read_file :: "'fs \<Rightarrow> path \<Rightarrow> bool \<Rightarrow> nat \<Rightarrow> nat \<Rightarrow> (VfsError, u8 list) expected option"
  op_write_file :: "'fs \<Rightarrow> path \<Rightarrow> bool \<Rightarrow> u8 list \<Rightarrow> nat \<Rightarrow> ((VfsError, nat) expected \<times> 'fs) option"
  op_delete_file :: "'fs \<Rightarrow> path \<Rightarrow> ((VfsError, unit) expected \<times> 'fs) option"
  op_file_exists :: "'fs \<Rightarrow> path \<Rightarrow> (VfsError, bool) expected option"
  op_get_file_size :: "'fs \<Rightarrow> path \<Rightarrow> (VfsError, nat) expected option"
  op_create_directory :: "'fs \<Rightarrow> path \<Rightarrow> ((VfsError, unit) expected \<times> 'fs) option"
  op_remove_directory :: "'fs \<Rightarrow> path \<Rightarrow> ((VfsError, unit) expected \<times> 'fs) option"
  op_list_directory :: "'fs \<Rightarrow> path \<Rightarrow> (u8 list \<times> bool) list option"
  op_directory_exists :: "'fs \<Rightarrow> path \<Rightarrow> (VfsError, bool) expected option"
  op_exists :: "'fs \<Rightarrow> path \<Rightarrow> (VfsError, bool) expected option"
  op_move :: "'fs \<Rightarrow> path \<Rightarrow> path \<Rightarrow> ((VfsError, unit) expected \<times> 'fs) option"

record 'fs Filesystem =
  fs_context :: nat
  fs_ops :: "'fs Operations"

text \<open>The table of operations of a FAT file system.\<close>

definition Fat_GetFilesystem :: "fat_impl \<Rightarrow> nat \<Rightarrow> fat Filesystem" where
  "Fat_GetFilesystem impl this = \<lparr>fs_context = this, fs_ops = \<lparr>
     op_create_file = CreateFile impl, op_read_file = ReadFile impl, op_write_file = WriteFile impl,
     op_delete_file = DeleteFile impl, op_file_exists = FileExists impl, op_get_file_size = GetFileSize impl,
     op_create_directory = CreateDirectory impl, op_remove_directory = RemoveDirectory impl,
     op_list_directory = ListDirectory impl, op_directory_exists = DirectoryExists impl,
     op_exists = Exists impl, op_move = Move impl\<rparr>\<rparr>"

record 'fs MountPoint =
  mp_path :: path
  mp_read_only :: bool
  mp_fs :: "'fs Filesystem"

record 'fs vfs =
  vfs_mounts :: "'fs MountPoint critbit"
  vfs_state :: "nat \<Rightarrow> 'fs"

text \<open>The text a C string shows; a path that fills the array has no terminator.\<close>

definition Path_CString :: "path \<Rightarrow> str option" where
  "Path_CString p = do {
     ASSERT (length (p_raw p) < kMaxPathSize \<or> 0 \<in> set (p_raw p));
     Some (takeWhile (\<lambda>c. c \<noteq> 0) (p_raw p)) }"

section \<open>Mount points\<close>

definition VfsModule_Mount ::
  "heap_outcome \<Rightarrow> 'fs vfs \<Rightarrow> path \<Rightarrow> bool \<Rightarrow> 'fs Filesystem \<Rightarrow> ((VfsError, unit) expected \<times> 'fs vfs) option" where
  "VfsModule_Mount h v mount_path read_only driver =
    (if Path_IsEmpty mount_path \<or> \<not> Path_IsAbsolute mount_path then Some (Inl kInvalidPath, v)
     else do {
       cstr \<leftarrow> Path_CString mount_path;
       mounted \<leftarrow> CritBit_Contains (vfs_mounts v) cstr;
       if mounted then Some (Inl kAlreadyMounted, v)
       else do {
         (inserted, mounts) \<leftarrow> CritBit_Insert False h (vfs_mounts v) cstr
           \<lparr>mp_path = mount_path, mp_read_only = read_only, mp_fs = driver\<rparr>;
         if \<not> inserted then Some (Inl kUnknownError, v\<lparr>vfs_mounts := mounts\<rparr>)
         else Some (Inr (), v\<lparr>vfs_mounts := mounts\<rparr>) } })"

definition VfsModule_Unmount :: "'fs vfs \<Rightarrow> path \<Rightarrow> ((VfsError, unit) expected \<times> 'fs vfs) option" where
  "VfsModule_Unmount v mount_path =
    (if Path_IsEmpty mount_path \<or> \<not> Path_IsAbsolute mount_path then Some (Inl kInvalidPath, v)
     else do {
       cstr \<leftarrow> Path_CString mount_path;
       mounted \<leftarrow> CritBit_Contains (vfs_mounts v) cstr;
       if \<not> mounted then Some (Inl kNotMounted, v)
       else do {
         (removed, mounts) \<leftarrow> CritBit_Remove (vfs_mounts v) cstr;
         if \<not> removed then Some (Inl kUnknownError, v\<lparr>vfs_mounts := mounts\<rparr>)
         else Some (Inr (), v\<lparr>vfs_mounts := mounts\<rparr>) } })"

definition VfsModule_FindMountPoint :: "'fs vfs \<Rightarrow> path \<Rightarrow> (VfsError, 'fs MountPoint) expected option" where
  "VfsModule_FindMountPoint v path =
    (if Path_IsEmpty path then Some (Inl kInvalidPath)
     else do {
       cstr \<leftarrow> Path_CString path;
       case GetLongestPrefixMatch (vfs_mounts v) cstr of
         None \<Rightarrow> Some (Inl kMountPointNotFound)
       | Some mount \<Rightarrow> Some (Inr mount) })"

fun GetRelativePath_loop :: "path \<Rightarrow> str list \<Rightarrow> path option" where
  "GetRelativePath_loop result [] = Some result"
| "GetRelativePath_loop result (c # cs) = do { r \<leftarrow> Path_append result (Path c); GetRelativePath_loop r cs }"

definition GetRelativePath :: "path \<Rightarrow> path \<Rightarrow> path option" where
  "GetRelativePath absolute_path mount_path =
    (if Path_IsRoot mount_path then Some absolute_path
     else let mount_components = Path_ComponentCount mount_path;
              absolute_components = Path_ComponentCount absolute_path
          in if mount_components \<ge> absolute_components then Some (Path [0x2F])
             else GetRelativePath_loop (Path [0x2F])
               (map (Path_GetComponent absolute_path) [mount_components..<absolute_components]))"

section \<open>Operations\<close>

text \<open>A call of an operation that changes the driver's object.\<close>

definition call :: "'fs vfs \<Rightarrow> 'fs MountPoint \<Rightarrow> ('fs Operations \<Rightarrow> 'fs \<Rightarrow> ('r \<times> 'fs) option) \<Rightarrow> ('r \<times> 'fs vfs) option" where
  "call v mount f = do {
     let ctx = fs_context (mp_fs mount);
     (r, s) \<leftarrow> f (fs_ops (mp_fs mount)) (vfs_state v ctx);
     Some (r, v\<lparr>vfs_state := (vfs_state v)(ctx := s)\<rparr>) }"

definition VfsModule_CreateFile :: "'fs vfs \<Rightarrow> path \<Rightarrow> ((VfsError, unit) expected \<times> 'fs vfs) option" where
  "VfsModule_CreateFile v path = do {
     mount_result \<leftarrow> VfsModule_FindMountPoint v path;
     case mount_result of
       Inl e \<Rightarrow> Some (Inl e, v)
     | Inr mount \<Rightarrow>
         if mp_read_only mount then Some (Inl kReadOnly, v)
         else do {
           relative_path \<leftarrow> GetRelativePath path (mp_path mount);
           call v mount (\<lambda>ops s. op_create_file ops s relative_path) } }"

definition VfsModule_ReadFile :: "'fs vfs \<Rightarrow> path \<Rightarrow> bool \<Rightarrow> nat \<Rightarrow> nat \<Rightarrow> (VfsError, u8 list) expected option" where
  "VfsModule_ReadFile v path has_buffer sz offset = do {
     mount_result \<leftarrow> VfsModule_FindMountPoint v path;
     case mount_result of
       Inl e \<Rightarrow> Some (Inl e)
     | Inr mount \<Rightarrow> do {
         relative_path \<leftarrow> GetRelativePath path (mp_path mount);
         op_read_file (fs_ops (mp_fs mount)) (vfs_state v (fs_context (mp_fs mount))) relative_path has_buffer sz offset } }"

definition VfsModule_WriteFile :: "'fs vfs \<Rightarrow> path \<Rightarrow> bool \<Rightarrow> u8 list \<Rightarrow> nat \<Rightarrow> ((VfsError, nat) expected \<times> 'fs vfs) option" where
  "VfsModule_WriteFile v path has_buffer src offset = do {
     mount_result \<leftarrow> VfsModule_FindMountPoint v path;
     case mount_result of
       Inl e \<Rightarrow> Some (Inl e, v)
     | Inr mount \<Rightarrow>
         if mp_read_only mount then Some (Inl kReadOnly, v)
         else do {
           relative_path \<leftarrow> GetRelativePath path (mp_path mount);
           call v mount (\<lambda>ops s. op_write_file ops s relative_path has_buffer src offset) } }"

definition VfsModule_DeleteFile :: "'fs vfs \<Rightarrow> path \<Rightarrow> ((VfsError, unit) expected \<times> 'fs vfs) option" where
  "VfsModule_DeleteFile v path = do {
     mount_result \<leftarrow> VfsModule_FindMountPoint v path;
     case mount_result of
       Inl e \<Rightarrow> Some (Inl e, v)
     | Inr mount \<Rightarrow>
         if mp_read_only mount then Some (Inl kReadOnly, v)
         else do {
           relative_path \<leftarrow> GetRelativePath path (mp_path mount);
           call v mount (\<lambda>ops s. op_delete_file ops s relative_path) } }"

definition VfsModule_FileExists :: "'fs vfs \<Rightarrow> path \<Rightarrow> (VfsError, bool) expected option" where
  "VfsModule_FileExists v path = do {
     mount_result \<leftarrow> VfsModule_FindMountPoint v path;
     case mount_result of
       Inl e \<Rightarrow> Some (Inl e)
     | Inr mount \<Rightarrow> do {
         relative_path \<leftarrow> GetRelativePath path (mp_path mount);
         op_file_exists (fs_ops (mp_fs mount)) (vfs_state v (fs_context (mp_fs mount))) relative_path } }"

definition VfsModule_GetFileSize :: "'fs vfs \<Rightarrow> path \<Rightarrow> (VfsError, nat) expected option" where
  "VfsModule_GetFileSize v path = do {
     mount_result \<leftarrow> VfsModule_FindMountPoint v path;
     case mount_result of
       Inl e \<Rightarrow> Some (Inl e)
     | Inr mount \<Rightarrow> do {
         relative_path \<leftarrow> GetRelativePath path (mp_path mount);
         op_get_file_size (fs_ops (mp_fs mount)) (vfs_state v (fs_context (mp_fs mount))) relative_path } }"

definition VfsModule_CreateDirectory :: "'fs vfs \<Rightarrow> path \<Rightarrow> ((VfsError, unit) expected \<times> 'fs vfs) option" where
  "VfsModule_CreateDirectory v path = do {
     mount_result \<leftarrow> VfsModule_FindMountPoint v path;
     case mount_result of
       Inl e \<Rightarrow> Some (Inl e, v)
     | Inr mount \<Rightarrow>
         if mp_read_only mount then Some (Inl kReadOnly, v)
         else do {
           relative_path \<leftarrow> GetRelativePath path (mp_path mount);
           call v mount (\<lambda>ops s. op_create_directory ops s relative_path) } }"

definition VfsModule_RemoveDirectory :: "'fs vfs \<Rightarrow> path \<Rightarrow> ((VfsError, unit) expected \<times> 'fs vfs) option" where
  "VfsModule_RemoveDirectory v path = do {
     mount_result \<leftarrow> VfsModule_FindMountPoint v path;
     case mount_result of
       Inl e \<Rightarrow> Some (Inl e, v)
     | Inr mount \<Rightarrow>
         if mp_read_only mount then Some (Inl kReadOnly, v)
         else do {
           relative_path \<leftarrow> GetRelativePath path (mp_path mount);
           call v mount (\<lambda>ops s. op_remove_directory ops s relative_path) } }"

text \<open>The names and kinds passed to the callback; nothing when there is no mount point.\<close>

definition VfsModule_ListDirectory :: "'fs vfs \<Rightarrow> path \<Rightarrow> (u8 list \<times> bool) list option" where
  "VfsModule_ListDirectory v path = do {
     mount_result \<leftarrow> VfsModule_FindMountPoint v path;
     case mount_result of
       Inl e \<Rightarrow> Some []
     | Inr mount \<Rightarrow> do {
         relative_path \<leftarrow> GetRelativePath path (mp_path mount);
         op_list_directory (fs_ops (mp_fs mount)) (vfs_state v (fs_context (mp_fs mount))) relative_path } }"

definition VfsModule_DirectoryExists :: "'fs vfs \<Rightarrow> path \<Rightarrow> (VfsError, bool) expected option" where
  "VfsModule_DirectoryExists v path = do {
     mount_result \<leftarrow> VfsModule_FindMountPoint v path;
     case mount_result of
       Inl e \<Rightarrow> Some (Inl e)
     | Inr mount \<Rightarrow> do {
         relative_path \<leftarrow> GetRelativePath path (mp_path mount);
         op_directory_exists (fs_ops (mp_fs mount)) (vfs_state v (fs_context (mp_fs mount))) relative_path } }"

definition VfsModule_Exists :: "'fs vfs \<Rightarrow> path \<Rightarrow> (VfsError, bool) expected option" where
  "VfsModule_Exists v path = do {
     mount_result \<leftarrow> VfsModule_FindMountPoint v path;
     case mount_result of
       Inl e \<Rightarrow> Some (Inl e)
     | Inr mount \<Rightarrow> do {
         relative_path \<leftarrow> GetRelativePath path (mp_path mount);
         op_exists (fs_ops (mp_fs mount)) (vfs_state v (fs_context (mp_fs mount))) relative_path } }"

definition VfsModule_Move :: "'fs vfs \<Rightarrow> path \<Rightarrow> path \<Rightarrow> ((VfsError, unit) expected \<times> 'fs vfs) option" where
  "VfsModule_Move v old_path new_path = do {
     old_mount_result \<leftarrow> VfsModule_FindMountPoint v old_path;
     case old_mount_result of
       Inl e \<Rightarrow> Some (Inl e, v)
     | Inr old_mount \<Rightarrow> do {
         new_mount_result \<leftarrow> VfsModule_FindMountPoint v new_path;
         case new_mount_result of
           Inl e \<Rightarrow> Some (Inl e, v)
         | Inr new_mount \<Rightarrow>
             if p_raw (mp_path old_mount) \<noteq> p_raw (mp_path new_mount) then Some (Inl kCrossFilesystemRename, v)
             else if mp_read_only old_mount then Some (Inl kReadOnly, v)
             else do {
               old_relative \<leftarrow> GetRelativePath old_path (mp_path old_mount);
               new_relative \<leftarrow> GetRelativePath new_path (mp_path new_mount);
               call v old_mount (\<lambda>ops s. op_move ops s old_relative new_relative) } } }"

text \<open>
  Construction with the ramdisk, if the boot loader passed one: a valid image is mounted as FAT16 at the root.
  Everything that fails is only traced.
\<close>

definition VfsModule_construct :: "heap_outcome \<Rightarrow> (nat \<Rightarrow> fat) \<Rightarrow> InMemory option \<Rightarrow> fat vfs option" where
  "VfsModule_construct h states ramdisk =
    (let v = \<lparr>vfs_mounts = None, vfs_state = states\<rparr> in
     case ramdisk of
       None \<Rightarrow> Some v
     | Some io \<Rightarrow> do {
         valid \<leftarrow> Fat16_IsValid io;
         if \<not> valid then Some v
         else do {
           f \<leftarrow> Fat16_construct io;
           (_, v') \<leftarrow> VfsModule_Mount h (v\<lparr>vfs_state := states(0 := f)\<rparr>) (Path [0x2F]) False (Fat_GetFilesystem Fat16 0);
           Some v' } })"

section \<open>Mount points as a map\<close>

text \<open>A path that a mount point can have: its text ends inside the array.\<close>

definition mountable :: "path \<Rightarrow> bool" where
  "mountable p \<longleftrightarrow> p_absolute p \<and> p_raw p \<noteq> [] \<and> length (p_raw p) < kMaxPathSize \<and> 0 \<notin> set (p_raw p)"

lemma Path_CString_text: "0 \<notin> set (p_raw p) \<Longrightarrow> length (p_raw p) < kMaxPathSize \<Longrightarrow> Path_CString p = Some (p_raw p)"
proof -
  assume a: "0 \<notin> set (p_raw p)" "length (p_raw p) < kMaxPathSize"
  then have "takeWhile (\<lambda>c. c \<noteq> 0) (p_raw p) = p_raw p" by (auto simp: takeWhile_eq_all_conv)
  then show "Path_CString p = Some (p_raw p)" using a by (simp add: Path_CString_def)
qed

lemma mountable_key:
  assumes "mountable p"
  shows "Path_CString p = Some (p_raw p)" "valid_key (p_raw p)" "\<not> Path_IsEmpty p" "Path_IsAbsolute p"
  using assms Path_CString_text [of p]
  by (auto simp: mountable_def valid_key_def Path_IsEmpty_def Path_IsAbsolute_def kMaxPathSize_def)

lemma mountable_root: "mountable (Path [0x2F])"
  by code_simp

lemma GetLongestPrefixMatch_own: "tree_ok t \<Longrightarrow> tree_map t k = Some v \<Longrightarrow> GetLongestPrefixMatch t k = Some v"
proof (cases t)
  case (Some n)
  assume "tree_ok t" "tree_map t k = Some v"
  then have "GetBestMatch_loop n k = (Some k, v)"
    using Some GetBestMatch_own [of 0 n k v] tree_map_Some [of 0 n k v] by (simp add: tree_ok_def)
  then show ?thesis using Some by (simp add: GetLongestPrefixMatch_def GetBestMatch_def)
qed (simp add: tree_map_def)

lemma Mount_new:
  assumes "tree_ok (vfs_mounts v)" "mountable p" "tree_map (vfs_mounts v) (p_raw p) = None"
  shows "\<exists>v'. VfsModule_Mount good_heap v p ro drv = Some (Inr (), v') \<and> tree_ok (vfs_mounts v') \<and> vfs_state v' = vfs_state v \<and>
    tree_map (vfs_mounts v') = (tree_map (vfs_mounts v))(p_raw p \<mapsto> \<lparr>mp_path = p, mp_read_only = ro, mp_fs = drv\<rparr>)"
proof -
  obtain t where "CritBit_Insert False good_heap (vfs_mounts v) (p_raw p) \<lparr>mp_path = p, mp_read_only = ro, mp_fs = drv\<rparr> = Some (True, t)"
    "tree_ok t" "tree_map t = (tree_map (vfs_mounts v))(p_raw p \<mapsto> \<lparr>mp_path = p, mp_read_only = ro, mp_fs = drv\<rparr>)"
    using cb.ins [OF assms(1) mountable_key(2) [OF assms(2)]] assms(3) by force
  then show ?thesis
    using cb.has [OF assms(1), of "p_raw p"] assms(3) by (simp add: VfsModule_Mount_def mountable_key [OF assms(2)])
qed

lemma Unmount_mounted:
  assumes "tree_ok (vfs_mounts v)" "mountable p" "tree_map (vfs_mounts v) (p_raw p) = Some m"
  shows "\<exists>v'. VfsModule_Unmount v p = Some (Inr (), v') \<and> tree_ok (vfs_mounts v') \<and> vfs_state v' = vfs_state v \<and>
    tree_map (vfs_mounts v') = (tree_map (vfs_mounts v))(p_raw p := None)"
proof -
  obtain t where "CritBit_Remove (vfs_mounts v) (p_raw p) = Some (True, t)"
    "tree_ok t" "tree_map t = (tree_map (vfs_mounts v))(p_raw p := None)"
    using cb.del [OF assms(1), of "p_raw p"] assms(3) by force
  then show ?thesis
    using cb.has [OF assms(1), of "p_raw p"] assms(3) by (simp add: VfsModule_Unmount_def mountable_key [OF assms(2)])
qed

lemma FindMountPoint_mounted:
  assumes "tree_ok (vfs_mounts v)" "mountable p" "tree_map (vfs_mounts v) (p_raw p) = Some m"
  shows "VfsModule_FindMountPoint v p = Some (Inr m)"
  using GetLongestPrefixMatch_own [OF assms(1,3)] by (simp add: VfsModule_FindMountPoint_def mountable_key [OF assms(2)])

section \<open>A single mount point\<close>

text \<open>With a file system at the root and nothing else mounted, every operation is the driver's on the same path.\<close>

definition root_mounted :: "'fs vfs \<Rightarrow> 'fs Filesystem \<Rightarrow> bool" where
  "root_mounted v drv \<longleftrightarrow> (\<exists>m. vfs_mounts v = Some (ExternalNode (Some [0x2F]) m) \<and>
     Path_IsRoot (mp_path m) \<and> \<not> mp_read_only m \<and> mp_fs m = drv)"

lemma root_mounted_find:
  assumes "root_mounted v drv" "\<not> Path_IsEmpty path" "Path_CString path = Some s"
  obtains m where "VfsModule_FindMountPoint v path = Some (Inr m)" "Path_IsRoot (mp_path m)" "\<not> mp_read_only m" "mp_fs m = drv"
  using assms by (auto simp: root_mounted_def VfsModule_FindMountPoint_def GetLongestPrefixMatch_def GetBestMatch_def)

lemma root_mounted_ReadFile:
  assumes "root_mounted v drv" "\<not> Path_IsEmpty path" "Path_CString path = Some s"
  shows "VfsModule_ReadFile v path buf sz offset = op_read_file (fs_ops drv) (vfs_state v (fs_context drv)) path buf sz offset"
proof -
  obtain m where "VfsModule_FindMountPoint v path = Some (Inr m)" "Path_IsRoot (mp_path m)" "mp_fs m = drv"
    by (rule root_mounted_find [OF assms])
  then show ?thesis by (simp add: VfsModule_ReadFile_def GetRelativePath_def)
qed

lemma root_mounted_WriteFile:
  assumes "root_mounted v drv" "\<not> Path_IsEmpty path" "Path_CString path = Some s"
  shows "VfsModule_WriteFile v path buf src offset =
    (case op_write_file (fs_ops drv) (vfs_state v (fs_context drv)) path buf src offset of None \<Rightarrow> None
     | Some (r, fs) \<Rightarrow> Some (r, v\<lparr>vfs_state := (vfs_state v)(fs_context drv := fs)\<rparr>))"
proof -
  obtain m where m: "VfsModule_FindMountPoint v path = Some (Inr m)" "Path_IsRoot (mp_path m)" "\<not> mp_read_only m" "mp_fs m = drv"
    by (rule root_mounted_find [OF assms])
  have "VfsModule_WriteFile v path buf src offset = call v m (\<lambda>ops s. op_write_file ops s path buf src offset)"
    using m by (simp add: VfsModule_WriteFile_def GetRelativePath_def)
  then show ?thesis
    using m(4) by (simp add: call_def split: option.split)
qed

lemma Path_slash: "Path [0x2F] = \<lparr>p_raw = [0x2F], p_components = [], p_absolute = True\<rparr>"
  by code_simp

lemma VfsModule_construct_root:
  assumes "Fat16_IsValid io = Some True" "Fat16_construct io = Some f"
  shows "\<exists>v. VfsModule_construct good_heap states (Some io) = Some v \<and> root_mounted v (Fat_GetFilesystem Fat16 0) \<and> vfs_state v 0 = f"
  using assms mountable_key [OF mountable_root]
  by (simp add: VfsModule_construct_def VfsModule_Mount_def CritBit_Contains_def GetBestMatch_def CritBit_Insert_def new_external_def
      good_heap_def root_mounted_def Path_slash Path_IsRoot_def)

section \<open>A valid image\<close>

lemma power_of_two_mod_32:
  fixes n :: nat
  assumes "n AND (n - 1) = 0" "32 \<le> n"
  shows "n mod 32 = 0"
proof (rule ccontr)
  assume "n mod 32 \<noteq> 0"
  then have "(n - 1) div 32 = n div 32" by (metis (no_types, lifting) Suc_pred' div_Suc gr0I mod_0)
  then have "drop_bit 5 (n - 1) = drop_bit 5 n" by (simp add: drop_bit_eq_div)
  then have "drop_bit 5 (n AND (n - 1)) = drop_bit 5 n" by (simp add: drop_bit_and)
  then have "n div 32 = 0" using assms(1) by (simp add: drop_bit_eq_div)
  then show False using assms(2) by simp
qed

lemma IsPowerOfTwo_mod_32:
  fixes x :: "'a::len word"
  assumes "IsPowerOfTwo x" "32 \<le> unat x"
  shows "unat x mod 32 = 0"
proof -
  have "x \<noteq> 0" using assms(1) by (auto simp: IsPowerOfTwo_def)
  then have "unat x AND (unat x - 1) = unat (x AND (x - 1))" by (simp only: unsigned_and_eq unat_minus_one [OF \<open>x \<noteq> 0\<close>])
  also have "\<dots> = 0" using assms(1) by (simp add: IsPowerOfTwo_def)
  finally show ?thesis using assms(2) by (rule power_of_two_mod_32)
qed

definition total_sectors :: "BootSector \<Rightarrow> nat" where
  "total_sectors bs = (if bs_total_sectors_word bs \<noteq> 0 then unat (bs_total_sectors_word bs) else unat (bs_total_sectors_dword bs))"

lemma Fat_IsValid_sizes:
  assumes "Fat_IsValid io = Some True" "InMemory_ReadSector io 0 = Some s" "read_BootSector s = Some bs"
  shows "ValidateSectorAndClusterSize bs"
  using assms by (auto simp: Fat_IsValid_def bind_eq_Some_conv split: if_splits)

lemma unat_bound: "unat w < 2 ^ LENGTH('a)" for w :: "'a::len word"
  by (rule unsigned_less)

lemma unat_ucast_32: "unat (ucast (w :: u16) :: u32) = unat w" "unat (ucast (b :: u8) :: u32) = unat b"
proof -
  have "unat w < 2 ^ 32" "unat b < 2 ^ 32" using unat_bound [of w] unat_bound [of b] by simp_all
  then show "unat (ucast w :: u32) = unat w" "unat (ucast b :: u32) = unat b"
    by (simp_all add: unsigned_ucast_eq take_bit_nat_eq_self)
qed

lemma root_sectors_le: "unat (root_dir_sectors bs) \<le> 4096" if "512 \<le> unat (bs_bytes_per_sector bs)"
proof -
  let ?b = "unat (bs_bytes_per_sector bs)" and ?e = "unat (bs_root_dir_entries bs)"
  have e: "?e < 65536" using unat_bound [of "bs_root_dir_entries bs"] by simp
  have "?e * 32 + ?b - 1 < 4097 * ?b" using e that by linarith
  then have "DivRoundUp (?e * 32) ?b < 4097" unfolding DivRoundUp_def by (simp add: less_mult_imp_div_less)
  then show ?thesis by (simp add: root_dir_sectors_def unat_of_nat)
qed

text \<open>The regions of a FAT16 lie one behind the other without wrapping, since their sizes have at most 16 bits.\<close>

lemma Fat16_regions:
  assumes "512 \<le> unat (bs_bytes_per_sector bs)"
  defines "n \<equiv> ucast (bs_fat_size_word bs)" and "res \<equiv> unat (bs_reserved_sectors bs)"
  defines "tab \<equiv> unat (fat_region_sectors n bs)" and "root \<equiv> unat (root_dir_sectors bs)"
  shows "unat (ucast (bs_reserved_sectors bs) + fat_region_sectors n bs) = res + tab"
    and "unat (data_start_sector n bs) = res + tab + root"
proof -
  have b: "res < 2 ^ 16" "unat (bs_fat_size_word bs) < 2 ^ 16" "unat (bs_number_of_fats bs) < 2 ^ 8"
    using unat_bound [of "bs_reserved_sectors bs"] unat_bound [of "bs_fat_size_word bs"] unat_bound [of "bs_number_of_fats bs"]
    by (simp_all add: res_def)
  have "unat (bs_number_of_fats bs) * unat (bs_fat_size_word bs) \<le> 255 * 65535"
    using b by (intro mult_mono) auto
  moreover have "unat (fat_region_sectors n bs) = (unat (bs_number_of_fats bs) * unat (bs_fat_size_word bs)) mod 2 ^ 32"
    using b by (simp add: fat_region_sectors_def n_def unat_word_ariths unat_ucast_32)
  ultimately have t: "tab \<le> 255 * 65535" by (simp add: tab_def)
  have r: "root \<le> 4096" unfolding root_def by (rule root_sectors_le [OF assms(1)])
  have u: "unat (ucast (bs_reserved_sectors bs) :: u32) = res" using b by (simp add: res_def unat_ucast_32)
  show s: "unat (ucast (bs_reserved_sectors bs) + fat_region_sectors n bs) = res + tab"
    using b(1) t u by (simp add: unat_word_ariths tab_def)
  show "unat (data_start_sector n bs) = res + tab + root"
    unfolding data_start_sector_def using s b(1) t r by (simp add: unat_word_ariths root_def)
qed

lemma Fat16_construct_ok:
  assumes "Fat16_IsValid io = Some True" "Fat16_construct io = Some f"
    and "data_region_start f \<le> total_sectors (fat_bs f)"
    and "2 * (fat_cluster_count f + 2) \<le> fat_region_count f * bytes_per_sector f"
  shows "table_ok16 f"
proof -
  obtain s bs where bs: "InMemory_ReadSector io 0 = Some s" "read_BootSector s = Some bs"
    and f: "f = \<lparr>fat_io = io\<lparr>im_sector_size := unat (bs_bytes_per_sector bs)\<rparr>, fat_bs = bs,
       fat_region_start = unat (bs_reserved_sectors bs),
       fat_region_count = unat (fat_region_sectors (ucast (bs_fat_size_word bs)) bs),
       root_dir_region_start = unat (ucast (bs_reserved_sectors bs) + fat_region_sectors (ucast (bs_fat_size_word bs)) bs),
       root_dir_region_count = unat (root_dir_sectors bs),
       data_region_start = unat (data_start_sector (ucast (bs_fat_size_word bs)) bs),
       data_region_count = unat (data_sectors (ucast (bs_fat_size_word bs)) bs),
       fat_cluster_count = unat (count_of_clusters (ucast (bs_fat_size_word bs)) bs)\<rparr>"
    using assms(2) by (auto simp: Fat16_construct_def Fat_construct_def bind_eq_Some_conv Let_def)
  let ?n = "ucast (bs_fat_size_word bs) :: u32" and ?b = "unat (bs_bytes_per_sector bs)" and ?c = "unat (bs_sectors_per_cluster bs)"
  have v: "Fat_IsValid io = Some True" "count_of_clusters ?n bs < 65525"
    using assms(1) bs by (auto simp: Fat16_IsValid_def valid_and_def bind_eq_Some_conv Let_def split: if_splits)
  have sz: "IsPowerOfTwo (bs_bytes_per_sector bs)" "512 \<le> ?b" "?b \<le> 4096" "1 \<le> ?c" "?b * ?c \<le> kMaxClusterSize"
    using Fat_IsValid_sizes [OF v(1) bs] by (auto simp: ValidateSectorAndClusterSize_def word_le_nat_alt word_less_nat_alt split: if_splits)
  have b32: "?b mod 32 = 0" using IsPowerOfTwo_mod_32 [OF sz(1)] sz(2) by simp
  note reg = Fat16_regions [OF sz(2)]
  have cc: "unat (count_of_clusters ?n bs) < 65525" using v(2) by (simp add: word_less_nat_alt)
  have total: "unat (data_sectors ?n bs) = total_sectors bs - unat (data_start_sector ?n bs)"
  proof -
    have tot: "unat (if bs_total_sectors_word bs \<noteq> 0 then ucast (bs_total_sectors_word bs) else bs_total_sectors_dword bs) = total_sectors bs"
      by (simp add: total_sectors_def unat_ucast_32)
    show ?thesis
      unfolding data_sectors_def using assms(3) tot by (subst unat_sub) (auto simp: f word_le_nat_alt)
  qed
  have "unat (count_of_clusters ?n bs) * ?c \<le> unat (data_sectors ?n bs)"
    by (simp add: count_of_clusters_def unat_div unat_ucast_32)
  moreover have "total_sectors bs < 2 ^ 32"
    using unat_bound [of "bs_total_sectors_word bs"] unat_bound [of "bs_total_sectors_dword bs"] by (auto simp: total_sectors_def)
  ultimately have fit: "unat (data_start_sector ?n bs) + unat (count_of_clusters ?n bs) * ?c < 2 ^ 32"
    using total assms(3) by (simp add: f)
  have "?b mod 4 = 0" using b32 by presburger
  moreover have "?b * ?c mod 32 = 0" using b32 by (simp add: mod_mult_left_eq [symmetric])
  ultimately have "fat_ok f"
    using sz fit reg by (simp add: fat_ok_def f GetClusterSize_def mult.commute)
  moreover have "table_base f + 2 * (fat_cluster_count f + 2) \<le> table_end f"
    using assms(4) by (simp add: table_base_def table_end_def add_mult_distrib)
  ultimately show ?thesis using cc by (simp add: table_ok16_def f kEOC16_def)
qed

section \<open>Properties\<close>

text \<open>
  C1: Mounting, unmounting and finding mount points at their own path: an unmounted path can be mounted, is then
  found and can be unmounted; a mounted one is refused with \<open>kAlreadyMounted\<close> and an unmounted one with
  \<open>kNotMounted\<close>. No other mount point and no driver is affected.
\<close>

theorem VfsModule_Mount_correct:
  assumes "tree_ok (vfs_mounts v)" and "mountable p"
  shows "case tree_map (vfs_mounts v) (p_raw p) of
      Some m \<Rightarrow> VfsModule_Mount good_heap v p ro drv = Some (Inl kAlreadyMounted, v) \<and>
        VfsModule_FindMountPoint v p = Some (Inr m) \<and>
        (\<exists>v'. VfsModule_Unmount v p = Some (Inr (), v') \<and> tree_ok (vfs_mounts v') \<and> vfs_state v' = vfs_state v \<and>
           tree_map (vfs_mounts v') = (tree_map (vfs_mounts v))(p_raw p := None))
    | None \<Rightarrow> VfsModule_Unmount v p = Some (Inl kNotMounted, v) \<and>
        (\<exists>v'. VfsModule_Mount good_heap v p ro drv = Some (Inr (), v') \<and> tree_ok (vfs_mounts v') \<and> vfs_state v' = vfs_state v \<and>
           tree_map (vfs_mounts v') = (tree_map (vfs_mounts v))(p_raw p \<mapsto> \<lparr>mp_path = p, mp_read_only = ro, mp_fs = drv\<rparr>) \<and>
           VfsModule_FindMountPoint v' p = Some (Inr \<lparr>mp_path = p, mp_read_only = ro, mp_fs = drv\<rparr>))"
proof (cases "tree_map (vfs_mounts v) (p_raw p)")
  case None
  obtain v' where v': "VfsModule_Mount good_heap v p ro drv = Some (Inr (), v')" "tree_ok (vfs_mounts v')" "vfs_state v' = vfs_state v"
    "tree_map (vfs_mounts v') = (tree_map (vfs_mounts v))(p_raw p \<mapsto> \<lparr>mp_path = p, mp_read_only = ro, mp_fs = drv\<rparr>)"
    using Mount_new [OF assms None] by blast
  moreover have "VfsModule_FindMountPoint v' p = Some (Inr \<lparr>mp_path = p, mp_read_only = ro, mp_fs = drv\<rparr>)"
    using FindMountPoint_mounted [OF v'(2) assms(2)] v'(4) by simp
  moreover have "VfsModule_Unmount v p = Some (Inl kNotMounted, v)"
    using cb.has [OF assms(1), of "p_raw p"] None by (simp add: VfsModule_Unmount_def mountable_key [OF assms(2)])
  ultimately show ?thesis using None by simp
next
  case (Some m)
  have "VfsModule_Mount good_heap v p ro drv = Some (Inl kAlreadyMounted, v)"
    using cb.has [OF assms(1), of "p_raw p"] Some by (simp add: VfsModule_Mount_def mountable_key [OF assms(2)])
  then show ?thesis using Some FindMountPoint_mounted [OF assms Some] Unmount_mounted [OF assms Some] by simp
qed

theorem VfsModule_Mount_correct_witness:
  "\<exists>v'. VfsModule_Mount good_heap \<lparr>vfs_mounts = None, vfs_state = (\<lambda>_. example_fat)\<rparr> (Path [0x2F]) False (Fat_GetFilesystem Fat16 0) =
     Some (Inr (), v') \<and> tree_ok (vfs_mounts v')"
  using VfsModule_Mount_correct [of "\<lparr>vfs_mounts = None, vfs_state = (\<lambda>_. example_fat)\<rparr>" "Path [0x2F]" False "Fat_GetFilesystem Fat16 0"]
    mountable_root by (auto simp: tree_ok_def tree_map_def)

text \<open>
  C2: The mount point found for a path need not be a prefix of it. With file systems mounted at \<open>/\<close> and at
  a second path below it that starts with a letter, every path that starts with any letter is resolved to the second
  one, also where only \<open>/\<close> is a prefix.
\<close>

theorem FindMountPoint_not_prefix:
  assumes "mountable p" and "p_raw p = 0x2F # c # s" and "\<not> bit c 7" and "bit c 6"
    and "mountable q" and "p_raw q = 0x2F # d # t" and "bit d 6"
  shows "\<exists>v1 v2. VfsModule_Mount good_heap \<lparr>vfs_mounts = None, vfs_state = states\<rparr> (Path [0x2F]) ro1 drv1 = Some (Inr (), v1) \<and>
    VfsModule_Mount good_heap v1 p ro2 drv2 = Some (Inr (), v2) \<and>
    VfsModule_FindMountPoint v2 q = Some (Inr \<lparr>mp_path = p, mp_read_only = ro2, mp_fs = drv2\<rparr>)"
proof -
  let ?key = "0x2F # c # s" and ?root = "[0x2F] :: u8 list"
  let ?m1 = "\<lparr>mp_path = Path [0x2F], mp_read_only = ro1, mp_fs = drv1\<rparr>" and ?m2 = "\<lparr>mp_path = p, mp_read_only = ro2, mp_fs = drv2\<rparr>"
  let ?t1 = "Some (ExternalNode (Some ?root) ?m1)"
  have c0: "c \<noteq> 0" using assms(4) by auto
  have "diff_loop ?root ?key 1 = 1" by (subst diff_loop.simps) (simp add: char_at_def)
  then have dl: "diff_loop ?root ?key 0 = 1" by (subst diff_loop.simps) (simp add: char_at_def)
  have top: "top_bit c = 1" using assms(3,4) by (simp add: top_bit_def upt_rec)
  have msk: "critical_mask c 0 = mask_of 1" using critical_mask [OF c0] top by simp
  have m1: "VfsModule_Mount good_heap \<lparr>vfs_mounts = None, vfs_state = states\<rparr> (Path [0x2F]) ro1 drv1 =
      Some (Inr (), \<lparr>vfs_mounts = ?t1, vfs_state = states\<rparr>)"
    using mountable_key [OF mountable_root]
    by (simp add: VfsModule_Mount_def CritBit_Contains_def GetBestMatch_def CritBit_Insert_def new_external_def good_heap_def Path_slash)
  have "CritBit_Insert False good_heap ?t1 ?key ?m2 =
      Some (True, Some (InternalNode (ExternalNode (Some ?root) ?m1) (ExternalNode (Some ?key) ?m2) 1 (mask_of 1)))"
    using dl c0 by (simp add: CritBit_Insert_def Let_def new_external_def good_heap_def char_at_def msk direction_mask_of)
  then have m2: "VfsModule_Mount good_heap \<lparr>vfs_mounts = ?t1, vfs_state = states\<rparr> p ro2 drv2 = Some (Inr (), \<lparr>vfs_mounts =
      Some (InternalNode (ExternalNode (Some ?root) ?m1) (ExternalNode (Some ?key) ?m2) 1 (mask_of 1)), vfs_state = states\<rparr>)"
    using mountable_key [OF assms(1)] assms(2) by (simp add: VfsModule_Mount_def CritBit_Contains_def GetBestMatch_def)
  have "VfsModule_FindMountPoint \<lparr>vfs_mounts =
      Some (InternalNode (ExternalNode (Some ?root) ?m1) (ExternalNode (Some ?key) ?m2) 1 (mask_of 1)), vfs_state = states\<rparr> q = Some (Inr ?m2)"
    using mountable_key [OF assms(5)] assms(6,7)
    by (simp add: VfsModule_FindMountPoint_def GetLongestPrefixMatch_def GetBestMatch_def char_at_def direction_mask_of)
  then show ?thesis using m1 m2 by blast
qed

text \<open>With \<open>/\<close> and \<open>/mnt\<close> mounted, \<open>/foo\<close> is looked for in \<open>/mnt\<close>.\<close>

theorem FindMountPoint_not_prefix_witness:
  "\<exists>v1 v2 m. VfsModule_Mount good_heap \<lparr>vfs_mounts = None, vfs_state = (\<lambda>_. example_fat)\<rparr> (Path [0x2F]) False (Fat_GetFilesystem Fat16 0) =
       Some (Inr (), v1) \<and>
     VfsModule_Mount good_heap v1 (Path [0x2F, 0x6D, 0x6E, 0x74]) False (Fat_GetFilesystem Fat32 1) = Some (Inr (), v2) \<and>
     VfsModule_FindMountPoint v2 (Path [0x2F, 0x66, 0x6F, 0x6F]) = Some (Inr m) \<and> p_raw (mp_path m) = [0x2F, 0x6D, 0x6E, 0x74]"
proof -
  have mo: "mountable (Path [0x2F, 0x6D, 0x6E, 0x74])" "mountable (Path [0x2F, 0x66, 0x6F, 0x6F])" by code_simp+
  have raw: "p_raw (Path [0x2F, 0x6D, 0x6E, 0x74]) = [0x2F, 0x6D, 0x6E, 0x74]" "p_raw (Path [0x2F, 0x66, 0x6F, 0x6F]) = [0x2F, 0x66, 0x6F, 0x6F]"
    by code_simp+
  have bits: "\<not> bit (0x6D :: u8) 7" "bit (0x6D :: u8) 6" "bit (0x66 :: u8) 6" by code_simp+
  show ?thesis
    using FindMountPoint_not_prefix [OF mo(1) raw(1) bits(1,2) mo(2) raw(2) bits(3), of "\<lambda>_. example_fat" False "Fat_GetFilesystem Fat16 0"
      False "Fat_GetFilesystem Fat32 1"] raw(1) by fastforce
qed

text \<open>
  C3: From the ramdisk to the file: when the boot loader passes an image that \<open>Fat16::IsValid\<close> accepts, whose table has an
  entry for every cluster and whose data region lies inside the volume, the module mounts it at the root, and
  a write through the module to a file of the image stores a prefix of the data, all of it unless the
  disk is full, which every later read through the module returns in place.
\<close>

theorem VfsModule_ramdisk_write_read:
  assumes "Fat16_IsValid io = Some True" and "Fat16_construct io = Some f"
    and "data_region_start f \<le> total_sectors (fat_bs f)"
    and "2 * (fat_cluster_count f + 2) \<le> fat_region_count f * bytes_per_sector f"
    and "file_named Fat16 f path dirs p d off e cs" and "Path_CString path = Some text_of" and "src \<noteq> []"
    and "offset \<le> unat (de_file_size e)" and "offset + length src < 2 ^ 32"
  shows "\<exists>v r v'. VfsModule_construct good_heap states (Some io) = Some v \<and>
    VfsModule_WriteFile v path True src offset = Some (r, v') \<and>
    (r = Inl kDiskFull \<or>
     (\<exists>k. r = Inr k \<and> 0 < k \<and> k \<le> length src \<and>
        (k < length src \<longrightarrow> free_clusters Fat16 (vfs_state v' 0) = {}) \<and>
        (\<forall>sz pos. 0 < sz \<longrightarrow> VfsModule_ReadFile v' path True sz pos = Some (Inr (take sz (drop pos
          (take offset (file_bytes f e cs) @ take k src @ drop (offset + k) (file_bytes f e cs))))))))"
proof -
  have ok: "table_ok16 f" by (rule Fat16_construct_ok [OF assms(1-4)])
  have ne: "\<not> Path_IsEmpty path" using assms(5) by (auto simp: file_named_def path_to_def)
  obtain v where v: "VfsModule_construct good_heap states (Some io) = Some v" "root_mounted v (Fat_GetFilesystem Fat16 0)" "vfs_state v 0 = f"
    using VfsModule_construct_root [OF assms(1,2)] by blast
  have drv: "fs_context (Fat_GetFilesystem Fat16 0) = 0" "op_write_file (fs_ops (Fat_GetFilesystem Fat16 0)) = WriteFile Fat16"
    "op_read_file (fs_ops (Fat_GetFilesystem Fat16 0)) = ReadFile Fat16" by (simp_all add: Fat_GetFilesystem_def)
  obtain r f' where w: "WriteFile Fat16 f path True src offset = Some (r, f')" "table_ok16 f'"
    and res: "r = Inl kDiskFull \<or> (\<exists>k e' cs'. r = Inr k \<and> 0 < k \<and> k \<le> length src \<and> (k < length src \<longrightarrow> free_clusters Fat16 f' = {}) \<and>
       file_named Fat16 f' path dirs p d off e' cs' \<and>
       file_bytes f' e' cs' = take offset (file_bytes f e cs) @ take k src @ drop (offset + k) (file_bytes f e cs))"
    using t16.WriteFile_named [OF ok assms(5,7-9)] by blast
  define v' where "v' = v\<lparr>vfs_state := (vfs_state v)(0 := f')\<rparr>"
  have wv: "VfsModule_WriteFile v path True src offset = Some (r, v')"
    using root_mounted_WriteFile [OF v(2) ne assms(6)] w(1) v(3) by (simp add: drv v'_def)
  have "root_mounted v' (Fat_GetFilesystem Fat16 0)" using v(2) by (simp add: root_mounted_def v'_def)
  from root_mounted_ReadFile [OF this ne assms(6)]
  have rv: "VfsModule_ReadFile v' path True sz pos = ReadFile Fat16 f' path True sz pos" for sz pos
    by (simp add: drv v'_def)
  show ?thesis
    using res
  proof (elim disjE exE conjE)
    fix k e' cs'
    assume k: "r = Inr k" "0 < k" "k \<le> length src" "k < length src \<longrightarrow> free_clusters Fat16 f' = {}"
      "file_named Fat16 f' path dirs p d off e' cs'"
      "file_bytes f' e' cs' = take offset (file_bytes f e cs) @ take k src @ drop (offset + k) (file_bytes f e cs)"
    have rd: "VfsModule_ReadFile v' path True sz pos = Some (Inr (take sz (drop pos
          (take offset (file_bytes f e cs) @ take k src @ drop (offset + k) (file_bytes f e cs)))))" if "0 < sz" for sz pos
      unfolding rv using t16.ReadFile_named [OF w(2) k(5) that] k(6) by simp
    have st: "vfs_state v' 0 = f'" by (simp add: v'_def)
    show ?thesis
      by (intro exI conjI disjI2 allI impI) (rule v(1) wv k(1-3) rd | (simp only: st, erule k(4) [rule_format]) | assumption)+
  qed (use v(1) wv in blast)
qed

text \<open>
  An image of a FAT16 with 4085 clusters of one sector: the boot sector, a table of 16 sectors that marks cluster 2 as
  a chain of its own, and the file \<open>A.TXT\<close> of 70 bytes in a root directory of 16 entries.
\<close>

definition image_mem :: memory where
  "image_mem = put_bytes (put_bytes (put_bytes (put_bytes (\<lambda>_. 0) 0
     ([0xEB, 0x3C, 0x90] @ replicate 8 0x20 @ [0, 2, 1, 1, 0, 1, 16, 0, 0x07, 0x10, 0xF8, 16, 0])) 510 [0x55, 0xAA])
     512 [0xF8, 0xFF, 0xFF, 0xFF, 0xFF, 0xFF]) 8704 (entry_bytes example_entry_A)"

definition example_image :: InMemory where
  "example_image = \<lparr>im_address = image_mem, im_sector_size = 512\<rparr>"

definition image_bs :: BootSector where
  "image_bs = \<lparr>bs_jump_instruction = [0xEB, 0x3C, 0x90], bs_bytes_per_sector = 512, bs_sectors_per_cluster = 1,
     bs_reserved_sectors = 1, bs_number_of_fats = 1, bs_root_dir_entries = 16, bs_total_sectors_word = 4103,
     bs_media_descriptor = 0xF8, bs_fat_size_word = 16, bs_total_sectors_dword = 0, bs_fat_size_dword = 0,
     bs_root_cluster = 0\<rparr>"

definition image_fat :: fat where
  "image_fat = \<lparr>fat_io = example_image, fat_bs = image_bs,
     fat_region_start = 1, fat_region_count = 16, root_dir_region_start = 17, root_dir_region_count = 1,
     data_region_start = 18, data_region_count = 4085, fat_cluster_count = 4085\<rparr>"

lemma image_sector: "InMemory_ReadSector example_image n = Some (bytes_at image_mem (n * 512) 512)"
  by (simp add: InMemory_ReadSector_def InMemory_ReadRange_def example_image_def kMaxTempBufSize_def)

lemma length_entry_A: "length (entry_bytes example_entry_A) = 32"
  by (simp add: example_entry_A_def)

lemma image_boot: "read_BootSector (bytes_at image_mem 0 512) = Some image_bs"
proof -
  have "take 3 (bytes_at image_mem 0 512) = map image_mem [0..<3]" by (simp add: bytes_at_def take_map)
  also have "\<dots> = [0xEB, 0x3C, 0x90]" by (simp add: upt_rec image_mem_def put_bytes_at length_entry_A)
  finally have jump: "take 3 (bytes_at image_mem 0 512) = [0xEB, 0x3C, 0x90]" .
  have bytes: "image_mem 11 = 0" "image_mem 12 = 2" "image_mem 13 = 1" "image_mem 14 = 1" "image_mem 15 = 0" "image_mem 16 = 1"
    "image_mem 17 = 16" "image_mem 18 = 0" "image_mem 19 = 7" "image_mem 20 = 16" "image_mem 21 = 0xF8" "image_mem 22 = 16" "image_mem 23 = 0"
    "image_mem 32 = 0" "image_mem 33 = 0" "image_mem 34 = 0" "image_mem 35 = 0" "image_mem 36 = 0" "image_mem 37 = 0"
    "image_mem 38 = 0" "image_mem 39 = 0" "image_mem 44 = 0" "image_mem 45 = 0" "image_mem 46 = 0" "image_mem 47 = 0"
    by (simp_all add: image_mem_def put_bytes_at length_entry_A nth_append)
  show ?thesis
    unfolding read_BootSector_def jump by (simp add: get_u8_def get_u16_def get_u32_def bytes image_bs_def push_bit_eq_mult)
qed

lemma image_clusters: "count_of_clusters (ucast (bs_fat_size_word image_bs)) image_bs = 4085"
  "fat_region_sectors (ucast (bs_fat_size_word image_bs)) image_bs = 16" "root_dir_sectors image_bs = 1"
  "data_start_sector (ucast (bs_fat_size_word image_bs)) image_bs = 18" "data_sectors (ucast (bs_fat_size_word image_bs)) image_bs = 4085"
  by code_simp+

lemma image_valid: "Fat16_IsValid example_image = Some True"
proof -
  have "Fat_IsValid example_image = Some True"
    using image_boot
    by (simp add: Fat_IsValid_def image_sector ValidateBootSignature_def get_u16_def image_mem_def put_bytes_at length_entry_A kSignature_def
        ValidateJumpInstruction_def ValidateSectorAndClusterSize_def ValidateReservedSectors_def ValidateFatCount_def ValidateMediaDescriptor_def
        ValidateFatMediaDescriptor_def get_u8_def IsPowerOfTwo_def kMaxClusterSize_def image_bs_def push_bit_eq_mult)
  then show ?thesis
    using image_boot image_sector [of 0] image_clusters(1) by (simp add: Fat16_IsValid_def valid_and_def)
qed

lemma image_construct: "Fat16_construct example_image = Some image_fat"
proof -
  have "bs_bytes_per_sector image_bs = 512" "bs_reserved_sectors image_bs = 1" by (simp_all add: image_bs_def)
  then show ?thesis
    using image_boot image_sector [of 0]
    by (simp add: Fat16_construct_def Fat_construct_def image_fat_def image_clusters example_image_def)
qed

lemma image_fields: "bytes_per_sector image_fat = 512" "sectors_per_cluster image_fat = 1" "GetClusterSize image_fat = 512"
  "fat_mem image_fat = image_mem" "root_base image_fat = 8704" "root_size image_fat = 512"
  "total_sectors (fat_bs image_fat) = 4103"
  by (simp_all add: image_fat_def image_bs_def example_image_def GetClusterSize_def root_base_def root_size_def total_sectors_def)

lemma image_ok: "table_ok16 image_fat"
  by (rule Fat16_construct_ok [OF image_valid image_construct]) (simp_all add: image_fields, simp_all add: image_fat_def)

lemma image_chain: "chain Fat16 image_fat 2 [2]"
proof -
  have ok: "fat_ok image_fat" using image_ok by (simp add: table_ok16_def)
  have "table_base image_fat = 512" by (simp add: table_base_def image_fields, simp add: image_fat_def)
  then have "table_entry Fat16 image_fat 2 = unat (mem16 image_mem 516)"
    using Fat16_entries(1) [OF ok, of 2] by (simp add: table_entry_def Fat16_def image_fields)
  also have "\<dots> = 0xFFFF"
    by (simp add: mem16_def image_mem_def put_bytes_at length_entry_A word16_def push_bit_eq_mult)
  finally show ?thesis by (simp add: chain_def image_fat_def)
qed

lemma image_root: "dir_data image_fat FixedRoot = entry_bytes example_entry_A @ replicate 480 0"
proof (rule nth_equalityI)
  show "length (dir_data image_fat FixedRoot) = length (entry_bytes example_entry_A @ replicate 480 0)"
    by (simp add: dir_data_def image_fields length_entry_A)
  fix i assume "i < length (dir_data image_fat FixedRoot)"
  then have i: "i < 512" by (simp add: dir_data_def image_fields)
  have "image_mem (8704 + i) = (if i < 32 then entry_bytes example_entry_A ! i else 0)"
    using i by (simp add: image_mem_def put_bytes_at length_entry_A)
  then show "dir_data image_fat FixedRoot ! i = (entry_bytes example_entry_A @ replicate 480 0) ! i"
    using i by (simp add: dir_data_def image_fields nth_append length_entry_A)
qed

lemma image_find:
  "find_name (de_filename example_entry_A) (live (entry_bytes example_entry_A @ replicate 480 0)) =
     \<lparr>em_entry = example_entry_A, em_entry_offset = 0, em_found = True\<rparr>"
  by code_simp

lemma image_file: "file_named Fat16 image_fat example_path [] 0 FixedRoot 0 example_entry_A [2]"
proof -
  let ?name = "[0x61, 0x2E, 0x74, 0x78, 0x74] :: u8 list"
  have root: "FirstCluster Fat16 (MakeRootDirectoryEntry Fat16 image_fat) = 0"
    using t16.root_FirstCluster [OF image_ok, of image_fat] by (simp add: Fat16_def)
  have dir: "dir_at Fat16 image_fat 0 FixedRoot"
    by (simp add: dir_at_def image_fields Fat16_def kMaxClusterSize_def)
  have "p_components example_path = [] @ [?name]" "\<not> Path_IsEmpty example_path" by code_simp+
  then have path: "path_to Fat16 image_fat example_path [] 0 FixedRoot ?name"
    unfolding path_to_def using root dir walks.here by metis
  have fmt: "FormatFilename ?name = Some (de_filename example_entry_A)" by code_simp
  have fc: "FirstCluster Fat16 example_entry_A = 2" "unat (de_file_size example_entry_A) = 70"
    by (simp_all add: FirstCluster_def GetFirstCluster_def example_entry_A_def Fat16_def)
  have "(0, example_entry_A) \<in> set (live (dir_data image_fat FixedRoot))"
    using find_name_mem [OF image_find] image_root by simp
  then have "file_at Fat16 image_fat 0 FixedRoot 0 example_entry_A [2]"
    using dir fc image_chain by (simp add: file_at_def dir_clusters_def image_fields)
  moreover have "DE_IsFile example_entry_A" by code_simp
  ultimately show ?thesis
    unfolding file_named_def using path fmt image_find image_root by auto
qed

lemma example_CString: "Path_CString example_path = Some [0x2F, 0x61, 0x2E, 0x74, 0x78, 0x74]"
  by code_simp

theorem VfsModule_ramdisk_write_read_witness:
  "\<exists>v r v'. VfsModule_construct good_heap (\<lambda>_. example_fat) (Some example_image) = Some v \<and>
    VfsModule_WriteFile v example_path True [1, 2, 3] 69 = Some (r, v')"
proof -
  have "data_region_start image_fat \<le> total_sectors (fat_bs image_fat)"
    "2 * (fat_cluster_count image_fat + 2) \<le> fat_region_count image_fat * bytes_per_sector image_fat"
    by (simp_all add: image_fields, simp_all add: image_fat_def)
  then show ?thesis
    using VfsModule_ramdisk_write_read [OF image_valid image_construct _ _ image_file example_CString, of "[1, 2, 3]" 69 "\<lambda>_. example_fat"]
    by (auto simp: example_entry_A_def)
qed

end
