(* ===== verification/Spec2Isabelle.thy ===== *)
theory Spec2Isabelle
  imports Addr_Space Libc_Time Libc_String Libc_Format Libc_Printf Vfs_Module
begin

text \<open>
  A verification development for AlkOS, an x86-64 operating system in C++.

  \<^bold>\<open>Parts and theories.\<close>
  \<^item> \<open>Kernel_Prelude\<close>: integer types, panics, generic lemmas.
  \<^item> \<open>Mem_Types\<close>, \<open>Bit_Array\<close>, \<open>Page_Meta\<close>: the data the memory managers share.
  \<^item> \<open>Allocator_Spec\<close>: the contract of a physical page allocator.
  \<^item> \<open>Bitmap_Pmm\<close>, \<open>Buddy_Pmm\<close>: the two physical page allocators.
  \<^item> \<open>Linked_Lists\<close>: doubly linked lists in a heap.
  \<^item> \<open>Page_Tables\<close>, \<open>Addr_Space\<close>: page tables, address spaces, page faults.
\<close>

section \<open>Properties that span components\<close>

text \<open>
  C21: the buddy allocator is filled from the bit map without marking its pages there, so both
  allocators own them: when the map has a single free page, the buddy allocator hands it out (to a
  page table, say) and the bit map hands the same page out again (to an anonymous page fault).
\<close>

theorem allocators_share_pages:
  assumes wf: "bp_wf p" and len: "length pmt \<le> bp_total p" and lim: "0 < unat page_limit"
    and free: "bp_free_pages p = {x}" and x: "x < length pmt"
  shows "\<exists>b b' p'. BuddyPmm_Init p pmt page_limit = Some b \<and>
     BuddyPmm_Alloc b 0 = Some (Inr (PageFrameAddr (of_nat x)), b') \<and>
     BitmapPmm_Alloc p 1 = Some (Inr (PageFrameAddr (of_nat x)), p')"
proof -
  have one: "filter (\<lambda>i. i \<in> bp_free_pages p) [0..<length pmt] = [x]"
  proof -
    have "[0..<length pmt] = [0..<x] @ x # [Suc x..<length pmt]"
      using x upt_add_eq_append[of 0 x "length pmt - x"] upt_conv_Cons[of x "length pmt"] by simp
    then show ?thesis by (simp add: free filter_empty_conv)
  qed
  then have "set (take (unat page_limit) (filter (\<lambda>i. i \<in> bp_free_pages p) [0..<length pmt])) = {x}"
    using lim by (cases "unat page_limit") auto
  then obtain b where b: "BuddyPmm_Init p pmt page_limit = Some b" "bd_wf b" "bd_free_pages b = {x}"
    using BuddyPmm_Init_ok[OF wf len, of page_limit] by auto
  then have some: "\<exists>y\<in>buddies (bd_pmt b). unat (0 :: u8) \<le> ord (bd_pmt b) y" by (auto simp: bd_free_pages_def fpages_def)
  then obtain y b' where y: "BuddyPmm_Alloc b 0 = Some (Inr (PageFrameAddr (of_nat y)), b')"
    and post: "alloc_post b (unat (0 :: u8)) y b'"
    using Alloc_ok[OF b(2), of 0] unfolding if_P[OF some] by auto
  have "y = x" using post self_in_blk[of y "unat (0 :: u8)"] unfolding alloc_post_def b(3) by blast
  moreover from wf obtain p' where "BitmapPmm_Alloc p 1 = Some (Inr (PageFrameAddr (of_nat x)), p')"
  proof (cases rule: BitmapPmm_Alloc_cases[where n = 1])
    case oom
    moreover have "free_run p x (unat (1 :: u64))" by (simp add: free_run_def free)
    ultimately show thesis by blast
  next
    case (ok s p')
    then have "s = x" by (simp add: free_run_def free)
    then show thesis using that ok(3) by simp
  qed simp
  ultimately show ?thesis using b(1) y by blast
qed

definition one_page_bitmap :: bitmap_pmm where
  "one_page_bitmap = \<lparr>bp_bitmap_view = \<lparr>bmv_storage = [0x0B], bmv_num_bits = 4\<rparr>, bp_last_alloc_idx = 3\<rparr>"

theorem allocators_share_pages_witness:
  "\<exists>b b' p'. BuddyPmm_Init one_page_bitmap (replicate 4 zero_meta) 4096 = Some b \<and>
     BuddyPmm_Alloc b 0 = Some (Inr 0x2000, b') \<and> BitmapPmm_Alloc one_page_bitmap 1 = Some (Inr 0x2000, p')"
proof -
  have wf: "bp_wf one_page_bitmap" by (simp add: bp_wf_def one_page_bitmap_def bmv_wf_def)
  have "bp_free_pages one_page_bitmap = set (filter (\<lambda>i. \<not> bmv_bit (bp_bitmap_view one_page_bitmap) i) [0..<4])"
    by (auto simp: bp_free_pages_def bp_total_def one_page_bitmap_def)
  also have "\<dots> = {2}"
  proof -
    have "filter (\<lambda>i. \<not> bmv_bit (bp_bitmap_view one_page_bitmap) i) [0..<4] = [2]" by code_simp
    then show ?thesis by simp
  qed
  finally have free: "bp_free_pages one_page_bitmap = {2}" .
  have len: "length (replicate 4 zero_meta) \<le> bp_total one_page_bitmap"
    by (simp add: bp_total_def one_page_bitmap_def)
  have "PageFrameAddr (of_nat 2) = 0x2000" by (simp add: PageFrameAddr_def kPageSizeBytes_def)
  then show ?thesis using allocators_share_pages[OF wf len _ free, of 4096] by simp
qed

end
